(* ===== verification/Casper_Prelude.thy ===== *)
theory Casper_Prelude
  imports Complex_Main "HOL-Library.AList" "HOL-Library.Word" "HOL-Library.Monad_Syntax"
begin

text \<open>
  Shared vocabulary of the development.

  \<^item> Fallible and possibly diverging code is a value of \<open>'a option\<close>: \<open>None\<close> stands for a Rust
    panic (an index out of bounds, an \<open>expect\<close>, an \<open>unwrap\<close>) or for not returning at all, and
    \<open>Some r\<close> for returning \<open>r\<close>. The predicate \<open>wp m Q\<close> says that \<open>m\<close> returns and that its
    result satisfies \<open>Q\<close>; its equations walk through \<open>do\<close> blocks, so that every proof of a
    postcondition is also a proof that the code does not panic.
  \<^item> Unsigned machine integers that the code adds with \<open>saturating_add\<close> are natural numbers with
    the saturation written out (\<open>sat_add32\<close>, \<open>sat_add64\<close>); voting weights are 64-bit words.
  \<^item> \<open>HashMap\<close> and \<open>BTreeMap\<close> are association lists with distinct keys, read with \<open>map_of\<close> and
    written with \<open>AList.update\<close> and \<open>AList.delete\<close>. The locale \<open>keyed_map\<close> is the interface the
    components rely on.
  \<^item> The locale \<open>transition_system\<close> lifts an invariant of single steps to all reachable states.
\<close>

named_theorems wp_simps \<open>equations that push a postcondition through the panic monad\<close>

named_theorems arith_defs \<open>definitions of the fixed-width operations\<close>

section \<open>Panicking code\<close>

definition wp :: "'a option \<Rightarrow> ('a \<Rightarrow> bool) \<Rightarrow> bool" where
  "wp m Q \<longleftrightarrow> (case m of None \<Rightarrow> False | Some x \<Rightarrow> Q x)"

lemma wp_Some [simp, wp_simps]: "wp (Some x) Q = Q x"
  by (simp add: wp_def)

lemma wp_None [simp, wp_simps]: "wp None Q = False"
  by (simp add: wp_def)

lemma wp_bind [simp, wp_simps]: "wp (Option.bind m f) Q = wp m (\<lambda>x. wp (f x) Q)"
  by (cases m) simp_all

lemma wp_prod [simp, wp_simps]:
  "wp (case p of (a, b) \<Rightarrow> f a b) Q = (case p of (a, b) \<Rightarrow> wp (f a b) Q)"
  by (cases p) simp

lemma wp_Let [simp, wp_simps]: "wp (Let a f) Q = (let x = a in wp (f x) Q)"
  by (simp add: Let_def)

lemma wp_if [wp_simps]: "wp (if b then x else y) Q = (if b then wp x Q else wp y Q)"
  by simp

lemma wp_case_option [wp_simps]:
  "wp (case v of None \<Rightarrow> x | Some a \<Rightarrow> f a) Q = (case v of None \<Rightarrow> wp x Q | Some a \<Rightarrow> wp (f a) Q)"
  by (cases v) simp_all

lemma wp_mono: "wp m P \<Longrightarrow> (\<And>x. P x \<Longrightarrow> Q x) \<Longrightarrow> wp m Q"
  by (cases m) simp_all

lemma wp_conjI: "wp m P \<Longrightarrow> wp m Q \<Longrightarrow> wp m (\<lambda>x. P x \<and> Q x)"
  by (cases m) simp_all

lemma wpI: "m = Some x \<Longrightarrow> Q x \<Longrightarrow> wp m Q"
  by simp

lemma wpE: "wp m Q \<Longrightarrow> (\<And>x. m = Some x \<Longrightarrow> Q x \<Longrightarrow> R) \<Longrightarrow> R"
  by (cases m) simp_all

lemma wp_SomeD: "wp m Q \<Longrightarrow> m = Some x \<Longrightarrow> Q x"
  by simp

lemma wp_returns: "wp m Q \<Longrightarrow> \<exists>x. m = Some x \<and> Q x"
  by (auto elim: wpE)

lemma wp_mono2:
  "wp m (\<lambda>(a, b). P a b) \<Longrightarrow> (\<And>a b. P a b \<Longrightarrow> Q a b) \<Longrightarrow> wp m (\<lambda>(a, b). Q a b)"
  by (erule wp_mono) auto

lemma wpE2:
  "wp m (\<lambda>(a, b). P a b) \<Longrightarrow> (\<And>a b. m = Some (a, b) \<Longrightarrow> P a b \<Longrightarrow> R) \<Longrightarrow> R"
  by (erule wpE) auto

lemma wp_bind2:
  "wp m (\<lambda>(a, b). P a b) \<Longrightarrow> (\<And>a b. P a b \<Longrightarrow> wp (f a b) Q) \<Longrightarrow>
    wp (Option.bind m (\<lambda>(a, b). f a b)) Q"
  by (erule wpE2) simp

text \<open>\<open>assert!\<close> and the bounds checks of indexing.\<close>

definition assert_that :: "bool \<Rightarrow> unit option" where
  "assert_that b = (if b then Some () else None)"

lemma wp_assert_that [simp, wp_simps]: "wp (assert_that b) Q \<longleftrightarrow> b \<and> Q ()"
  by (simp add: assert_that_def)

lemma assert_that_Some [simp]: "assert_that b = Some u \<longleftrightarrow> b"
  by (simp add: assert_that_def)

lemma assert_that_True [simp]: "assert_that True = Some ()"
  by (simp add: assert_that_def)

text \<open>Iterating a panicking step over a list, as a Rust \<open>for\<close> loop does.\<close>

fun for_each :: "('a \<Rightarrow> 's \<Rightarrow> 's option) \<Rightarrow> 'a list \<Rightarrow> 's \<Rightarrow> 's option" where
  "for_each f [] s = Some s"
| "for_each f (x # xs) s = do { s' \<leftarrow> f x s; for_each f xs s' }"

lemma wp_for_each:
  assumes "I s" and "\<And>x s. x \<in> set xs \<Longrightarrow> I s \<Longrightarrow> wp (f x s) I"
  shows "wp (for_each f xs s) I"
  using assms
proof (induction xs arbitrary: s)
  case Nil
  then show ?case by simp
next
  case (Cons x xs)
  from Cons.prems have "wp (f x s) I"
    by simp
  then have "wp (f x s) (\<lambda>s'. wp (for_each f xs s') I)"
    by (rule wp_mono) (rule Cons.IH, use Cons.prems in auto)
  then show ?case by simp
qed

lemma for_each_append:
  "for_each f (xs @ ys) s = do { s' \<leftarrow> for_each f xs s; for_each f ys s' }"
  by (induction xs arbitrary: s) (auto split: Option.bind_split)

text \<open>Sequencing of steps that emit outcomes: the outcomes are collected in order.\<close>

fun emit_each :: "('a \<Rightarrow> 's \<Rightarrow> ('o list \<times> 's) option) \<Rightarrow> 'a list \<Rightarrow> 's \<Rightarrow> ('o list \<times> 's) option" where
  "emit_each f [] s = Some ([], s)"
| "emit_each f (x # xs) s =
     do { (os, s') \<leftarrow> f x s; (os', s'') \<leftarrow> emit_each f xs s'; Some (os @ os', s'') }"

lemma wp_emit_each:
  assumes "I [] s"
    and "\<And>x os s. x \<in> set xs \<Longrightarrow> I os s \<Longrightarrow> wp (f x s) (\<lambda>(os', s'). I (os @ os') s')"
  shows "wp (emit_each f xs s) (\<lambda>(os, s'). I os s')"
proof -
  have "wp (emit_each f xs s) (\<lambda>(os', s'). I (os @ os') s')" if "I os s" for os
    using that assms(2)
  proof (induction xs arbitrary: s os)
    case Nil
    then show ?case by simp
  next
    case (Cons x xs)
    have "wp (f x s) (\<lambda>(os', s'). I (os @ os') s')"
      using Cons.prems by simp
    then have "wp (f x s) (\<lambda>(o1, s'). wp (emit_each f xs s') (\<lambda>(o2, s''). I (os @ o1 @ o2) s''))"
    proof (rule wp_mono, clarify)
      fix o1 s'
      assume "I (os @ o1) s'"
      then have "wp (emit_each f xs s') (\<lambda>(o2, s''). I ((os @ o1) @ o2) s'')"
        by (rule Cons.IH) (use Cons.prems in auto)
      then show "wp (emit_each f xs s') (\<lambda>(o2, s''). I (os @ o1 @ o2) s'')"
        by simp
    qed
    then show ?case
      by (simp add: case_prod_unfold)
  qed
  from this [OF assms(1)] show ?thesis by simp
qed

section \<open>Fixed-width arithmetic\<close>

definition u32_max :: nat where
  "u32_max = 2 ^ 32 - 1"

definition u64_max :: nat where
  "u64_max = 2 ^ 64 - 1"

definition sat_add32 :: "nat \<Rightarrow> nat \<Rightarrow> nat" where
  "sat_add32 a b = min (a + b) u32_max"

definition sat_add64 :: "nat \<Rightarrow> nat \<Rightarrow> nat" where
  "sat_add64 a b = min (a + b) u64_max"

text \<open>The cast \<open>idx as u32\<close> keeps the low 32 bits.\<close>

definition as_u32 :: "nat \<Rightarrow> nat" where
  "as_u32 n = n mod 2 ^ 32"

declare u32_max_def [arith_defs] u64_max_def [arith_defs] sat_add32_def [arith_defs]
  sat_add64_def [arith_defs] as_u32_def [arith_defs]

lemma as_u32_id [simp]: "n < 2 ^ 32 \<Longrightarrow> as_u32 n = n"
  by (simp add: as_u32_def)

lemma sat_add32_less [simp]: "a < u32_max \<Longrightarrow> sat_add32 a (Suc 0) = Suc a"
  by (simp add: sat_add32_def)

lemma sat_add32_le: "sat_add32 a b \<le> u32_max"
  by (simp add: sat_add32_def)

lemma sat_add64_le: "sat_add64 a b \<le> u64_max"
  by (simp add: sat_add64_def)

section \<open>Keyed maps\<close>

text \<open>
  The interface of \<open>HashMap\<close> and \<open>BTreeMap\<close> the code relies on: what a lookup returns after an
  insertion or a removal, and which keys there are.
\<close>

locale keyed_map =
  fixes lookup :: "'m \<Rightarrow> 'k \<Rightarrow> 'a option"
    and insert_key :: "'k \<Rightarrow> 'a \<Rightarrow> 'm \<Rightarrow> 'm"
    and remove_key :: "'k \<Rightarrow> 'm \<Rightarrow> 'm"
    and empty_map :: "'m"
    and keys :: "'m \<Rightarrow> 'k set"
    and invar :: "'m \<Rightarrow> bool"
  assumes lookup_empty: "lookup empty_map k = None"
    and lookup_insert: "lookup (insert_key k a m) k' = (if k' = k then Some a else lookup m k')"
    and lookup_remove: "lookup (remove_key k m) k' = (if k' = k then None else lookup m k')"
    and lookup_keys: "k \<in> keys m \<longleftrightarrow> lookup m k \<noteq> None"
    and invar_empty: "invar empty_map"
    and invar_insert: "invar m \<Longrightarrow> invar (insert_key k a m)"
    and invar_remove: "invar m \<Longrightarrow> invar (remove_key k m)"
begin

lemma keys_insert: "keys (insert_key k a m) = insert k (keys m)"
  by (auto simp: lookup_keys lookup_insert split: if_splits)

lemma keys_remove: "keys (remove_key k m) = keys m - {k}"
  by (auto simp: lookup_keys lookup_remove split: if_splits)

lemma keys_empty: "keys empty_map = {}"
  by (auto simp: lookup_keys lookup_empty)

text \<open>Replacing the value of a key keeps every property that holds of all entries.\<close>

lemma all_entries_insert:
  assumes "\<And>k' a'. lookup m k' = Some a' \<Longrightarrow> P k' a'" and "P k a"
    and "lookup (insert_key k a m) k' = Some a'"
  shows "P k' a'"
  using assms by (auto simp: lookup_insert split: if_splits)

lemma all_entries_remove:
  assumes "\<And>k' a'. lookup m k' = Some a' \<Longrightarrow> P k' a'"
    and "lookup (remove_key k m) k' = Some a'"
  shows "P k' a'"
  using assms by (auto simp: lookup_remove split: if_splits)

end

definition alist_keys :: "('k \<times> 'a) list \<Rightarrow> 'k set" where
  "alist_keys m = fst ` set m"

definition alist_ok :: "('k \<times> 'a) list \<Rightarrow> bool" where
  "alist_ok m \<longleftrightarrow> distinct (map fst m)"

interpretation hash_map: keyed_map map_of AList.update AList.delete "[]" alist_keys alist_ok
  by unfold_locales
    (auto simp: AList.update_conv' AList.delete_conv' alist_keys_def alist_ok_def
      AList.distinct_update AList.distinct_delete map_of_eq_None_iff)

lemmas alist_simps [simp] = hash_map.lookup_insert hash_map.lookup_remove hash_map.keys_insert
  hash_map.keys_remove hash_map.invar_insert hash_map.invar_remove

lemma alist_keys_simps [simp]: "alist_keys [] = {}" "alist_keys ((k, v) # m) = insert k (alist_keys m)"
  by (simp_all add: alist_keys_def)

lemma finite_alist_keys [simp]: "finite (alist_keys m)"
  by (simp add: alist_keys_def)

lemma map_of_alist_keys: "map_of m k = Some v \<Longrightarrow> k \<in> alist_keys m"
  by (simp add: hash_map.lookup_keys)

lemma alist_keys_map_of: "k \<in> alist_keys m \<Longrightarrow> \<exists>v. map_of m k = Some v"
  by (auto simp: hash_map.lookup_keys)

lemma alist_ok_Nil [simp]: "alist_ok []"
  by (simp add: alist_ok_def)

lemma map_of_map_snd:
  "map_of (map (\<lambda>(k, v). (k, f k v)) m) k = map_option (f k) (map_of m k)"
  by (induction m) auto

lemma alist_ok_map_snd [simp]: "alist_ok (map (\<lambda>(k, v). (k, f k v)) m) = alist_ok m"
  by (simp add: alist_ok_def comp_def case_prod_unfold)

lemma alist_keys_map_snd [simp]: "alist_keys (map (\<lambda>(k, v). (k, f k v)) m) = alist_keys m"
  by (auto simp: alist_keys_def image_iff) force+

lemma map_of_filter_snd:
  assumes "alist_ok m"
  shows "map_of (filter (\<lambda>(k, v). P k v) m) k =
    (case map_of m k of None \<Rightarrow> None | Some v \<Rightarrow> if P k v then Some v else None)"
  using assms
proof (induction m)
  case Nil
  then show ?case by simp
next
  case (Cons a m)
  then show ?case
    by (cases a) (auto simp: alist_ok_def map_of_eq_None_iff split: option.splits)
qed

lemma alist_ok_filter [simp]: "alist_ok m \<Longrightarrow> alist_ok (filter P m)"
  by (induction m) (auto simp: alist_ok_def)

section \<open>Transition systems\<close>

text \<open>
  The interface between a component's single steps and its runs: an invariant that holds
  initially and is kept by every step holds of every state a run passes through. \<open>step s e os s'\<close>
  says that event \<open>e\<close> takes the state \<open>s\<close> to \<open>s'\<close> and emits the outcomes \<open>os\<close>.
\<close>

inductive run :: "('s \<Rightarrow> 'e \<Rightarrow> 'o list \<Rightarrow> 's \<Rightarrow> bool) \<Rightarrow> 's \<Rightarrow> 'e list \<Rightarrow> 'o list \<Rightarrow> 's \<Rightarrow> bool"
  for step where
  run_refl: "run step s [] [] s"
| run_step: "run step s es os s' \<Longrightarrow> step s' e os' s'' \<Longrightarrow> run step s (es @ [e]) (os @ os') s''"

locale transition_system =
  fixes initial :: "'s \<Rightarrow> bool"
    and step :: "'s \<Rightarrow> 'e \<Rightarrow> 'o list \<Rightarrow> 's \<Rightarrow> bool"
    and inv :: "'s \<Rightarrow> bool"
  assumes inv_initial: "initial s \<Longrightarrow> inv s"
    and inv_step: "inv s \<Longrightarrow> step s e os s' \<Longrightarrow> inv s'"
begin

lemma run_inv: "run step s es os s' \<Longrightarrow> inv s \<Longrightarrow> inv s'"
  by (induction rule: run.induct) (auto intro: inv_step)

lemma reachable_inv: "initial s \<Longrightarrow> run step s es os s' \<Longrightarrow> inv s'"
  by (blast intro: run_inv inv_initial)

text \<open>A property of the outcomes and the state that every step extends holds along every run.\<close>

lemma run_history:
  assumes "initial s" and "run step s es os s'" and "H [] s"
    and "\<And>os s e os' s'. inv s \<Longrightarrow> H os s \<Longrightarrow> step s e os' s' \<Longrightarrow> H (os @ os') s'"
  shows "H os s'"
  using assms(2,1,3)
proof (induction rule: run.induct)
  case (run_refl s)
  then show ?case by simp
next
  case (run_step s es os s' e os' s'')
  then show ?case by (blast intro: assms(4) reachable_inv)
qed

end

end
