(* ===== verification/Consensus_Validators.thy ===== *)
theory Consensus_Validators
  imports Casper_Prelude "HOL-Library.Multiset"
begin

text \<open>
  Voting weights and validator sets: \<open>node/src/components/consensus/utils/weight.rs\<close>,
  \<open>utils/validators.rs\<close> and \<open>protocols/common.rs\<close>.

  A weight is a 64-bit word, a validator index a natural number (the \<open>u32\<close> of
  \<open>ValidatorIndex\<close>; casts are written with \<open>as_u32\<close>), a \<open>U512\<close> stake a natural number below
  \<open>2 ^ 512\<close>. The lemmas show that the era's validator set has a positive total weight below
  \<open>u64::MAX\<close> which is the exact sum of its weights, that IDs and indices are inverse, and that
  some validator with positive weight may propose.
\<close>

section \<open>Weights (utils/weight.rs)\<close>

type_synonym weight = "64 word"

definition weight_checked_add :: "weight \<Rightarrow> weight \<Rightarrow> weight option" where
  "weight_checked_add a b = (if unat a + unat b < 2 ^ 64 then Some (a + b) else None)"

definition weight_saturating_add :: "weight \<Rightarrow> weight \<Rightarrow> weight" where
  "weight_saturating_add a b = (if unat a + unat b < 2 ^ 64 then a + b else - 1)"

definition weight_saturating_sub :: "weight \<Rightarrow> weight \<Rightarrow> weight" where
  "weight_saturating_sub a b = (if b \<le> a then a - b else 0)"

definition weight_is_zero :: "weight \<Rightarrow> bool" where
  "weight_is_zero a \<longleftrightarrow> a = 0"

lemma weight_checked_add_Some:
  "weight_checked_add a b = Some c \<Longrightarrow> unat c = unat a + unat b"
  by (auto simp: weight_checked_add_def unat_word_ariths split: if_splits)

lemma weight_checked_add_wp:
  "unat a + unat b < 2 ^ 64 \<Longrightarrow> wp (weight_checked_add a b) (\<lambda>c. unat c = unat a + unat b)"
  by (auto simp: weight_checked_add_def unat_word_ariths)

lemma unat_weight_saturating_add:
  "unat (weight_saturating_add a b) = min (unat a + unat b) (2 ^ 64 - 1)"
proof (cases "unat a + unat b < 2 ^ 64")
  case True
  then show ?thesis
    by (simp add: weight_saturating_add_def unat_word_ariths)
next
  case False
  then show ?thesis
    by (simp add: weight_saturating_add_def unsigned_minus_1_eq_mask mask_eq_exp_minus_1)
qed

lemma unat_weight_saturating_sub: "unat (weight_saturating_sub a b) = unat a - unat b"
  by (simp add: weight_saturating_sub_def unat_sub word_le_nat_alt)

section \<open>Validators (utils/validators.rs)\<close>

record 'k validator =
  v_weight :: weight
  v_id :: 'k
  v_banned :: bool
  v_can_propose :: bool

definition validator_from :: "'k \<times> weight \<Rightarrow> 'k validator" where
  "validator_from p =
     \<lparr>v_weight = snd p, v_id = fst p, v_banned = False, v_can_propose = True\<rparr>"

record 'k validators =
  index_by_id :: "'k \<rightharpoonup> nat"
  validators_vec :: "'k validator list"
  total_weight :: weight

text \<open>Indexing panics out of range.\<close>

definition weight_at :: "'k validators \<Rightarrow> nat \<Rightarrow> weight option" where
  "weight_at vs idx =
     (if idx < length (validators_vec vs) then Some (v_weight (validators_vec vs ! idx)) else None)"

definition vs_is_empty :: "'k validators \<Rightarrow> bool" where
  "vs_is_empty vs \<longleftrightarrow> validators_vec vs = []"

definition vs_len :: "'k validators \<Rightarrow> nat" where
  "vs_len vs = length (validators_vec vs)"

definition get_index :: "'k validators \<Rightarrow> 'k \<Rightarrow> nat option" where
  "get_index vs k = index_by_id vs k"

definition id_at :: "'k validators \<Rightarrow> nat \<Rightarrow> 'k option" where
  "id_at vs idx =
     (if idx < length (validators_vec vs) then Some (v_id (validators_vec vs ! idx)) else None)"

definition ban :: "'k \<Rightarrow> 'k validators \<Rightarrow> 'k validators option" where
  "ban vid vs =
     (case get_index vs vid of
        None \<Rightarrow> Some vs
      | Some idx \<Rightarrow>
          if idx < length (validators_vec vs)
          then Some (vs\<lparr>validators_vec := (validators_vec vs)[idx :=
                 (validators_vec vs ! idx)\<lparr>v_banned := True, v_can_propose := False\<rparr>]\<rparr>)
          else None)"

definition set_cannot_propose :: "'k \<Rightarrow> 'k validators \<Rightarrow> 'k validators option" where
  "set_cannot_propose vid vs =
     (case get_index vs vid of
        None \<Rightarrow> Some vs
      | Some idx \<Rightarrow>
          if idx < length (validators_vec vs)
          then Some (vs\<lparr>validators_vec := (validators_vec vs)[idx :=
                 (validators_vec vs ! idx)\<lparr>v_can_propose := False\<rparr>]\<rparr>)
          else None)"

definition iter_banned_idx :: "'k validators \<Rightarrow> nat list" where
  "iter_banned_idx vs =
     map (\<lambda>(idx, _). as_u32 idx) (filter (\<lambda>(_, v). v_banned v) (enumerate 0 (validators_vec vs)))"

definition iter_cannot_propose_idx :: "'k validators \<Rightarrow> nat list" where
  "iter_cannot_propose_idx vs =
     map (\<lambda>(idx, _). as_u32 idx)
       (filter (\<lambda>(_, v). \<not> v_can_propose v) (enumerate 0 (validators_vec vs)))"

definition enumerate_ids :: "'k validators \<Rightarrow> (nat \<times> 'k) list" where
  "enumerate_ids vs = map (\<lambda>(idx, v). (as_u32 idx, v_id v)) (enumerate 0 (validators_vec vs))"

definition ensure_nonzero_proposing_stake :: "'k validators \<Rightarrow> bool \<times> 'k validators" where
  "ensure_nonzero_proposing_stake vs =
     (if weight_is_zero (total_weight vs) then (False, vs)
      else if list_all (\<lambda>v. v_banned v \<or> weight_is_zero (v_weight v)) (validators_vec vs)
      then (True, vs\<lparr>validators_vec :=
             map (\<lambda>v. v\<lparr>v_can_propose := True, v_banned := False\<rparr>) (validators_vec vs)\<rparr>)
      else if list_all (\<lambda>v. \<not> v_can_propose v \<or> weight_is_zero (v_weight v)) (validators_vec vs)
      then (True, vs\<lparr>validators_vec :=
             map (\<lambda>v. if \<not> v_banned v then v\<lparr>v_can_propose := True\<rparr> else v)
               (validators_vec vs)\<rparr>)
      else (True, vs))"

text \<open>\<open>FromIterator\<close>: the total weight is summed with overflow checks, the validators are sorted by ID.\<close>

fun checked_weight_sum :: "weight \<Rightarrow> weight list \<Rightarrow> weight option" where
  "checked_weight_sum acc [] = Some acc"
| "checked_weight_sum acc (w # ws) = do { acc' \<leftarrow> weight_checked_add acc w; checked_weight_sum acc' ws }"

definition validators_from_iter :: "('k::linorder \<times> weight) list \<Rightarrow> 'k validators option" where
  "validators_from_iter ii =
     (let vs = map validator_from ii
      in do {
        total \<leftarrow> checked_weight_sum 0 (map v_weight vs);
        let sorted_vs = sort_key v_id vs;
        Some \<lparr>index_by_id =
                map_of (rev (map (\<lambda>(idx, v). (v_id v, as_u32 idx)) (enumerate 0 sorted_vs))),
              validators_vec = sorted_vs,
              total_weight = total\<rparr> })"

section \<open>Validator maps (utils/validators.rs)\<close>

definition vmap_get :: "'a list \<Rightarrow> nat \<Rightarrow> 'a option" where
  "vmap_get m idx = (if idx < length m then Some (m ! idx) else None)"

definition vmap_set :: "'a list \<Rightarrow> nat \<Rightarrow> 'a \<Rightarrow> 'a list option" where
  "vmap_set m idx a = (if idx < length m then Some (m[idx := a]) else None)"

definition keys_some :: "'a option list \<Rightarrow> nat list" where
  "keys_some m =
     map (\<lambda>(idx, _). as_u32 idx) (filter (\<lambda>(_, v). v \<noteq> None) (enumerate 0 m))"

text \<open>
  \<open>slice::binary_search\<close> of the standard library: the base index moves right while the probed
  element is not greater; \<open>Inl i\<close> is \<open>Ok(i)\<close> (some index holding the element), \<open>Inr i\<close> is
  \<open>Err(i)\<close> (where it would be inserted).
\<close>

function bsearch_loop :: "'a::linorder list \<Rightarrow> 'a \<Rightarrow> nat \<Rightarrow> nat \<Rightarrow> nat" where
  "bsearch_loop xs x base sz =
     (if 1 < sz
      then let half = sz div 2; mid = base + half
           in bsearch_loop xs x (if x < xs ! mid then base else mid) (sz - half)
      else base)"
  by pat_completeness auto
termination
  by (relation "measure (\<lambda>(xs, x, base, sz). sz)") auto

declare bsearch_loop.simps [simp del]

definition slice_binary_search :: "'a::linorder list \<Rightarrow> 'a \<Rightarrow> nat + nat" where
  "slice_binary_search xs x =
     (if xs = [] then Inr 0
      else let base = bsearch_loop xs x 0 (length xs)
           in if xs ! base = x then Inl base
              else Inr (base + (if xs ! base < x then 1 else 0)))"

definition vmap_binary_search :: "'a::linorder list \<Rightarrow> 'a \<Rightarrow> nat option" where
  "vmap_binary_search m x =
     (case slice_binary_search m x of
        Inl i \<Rightarrow>
          (let js = takeWhile (\<lambda>j. m ! j = x) (rev [0..<i])
           in Some (as_u32 (if js = [] then i else last js)))
      | Inr i \<Rightarrow> if i < length m then Some (as_u32 i) else None)"

section \<open>The validator set of an era (protocols/common.rs)\<close>

fun safe_sum_from :: "nat \<Rightarrow> nat list \<Rightarrow> nat option" where
  "safe_sum_from acc [] = Some acc"
| "safe_sum_from acc (n # ns) = (if acc + n < 2 ^ 512 then safe_sum_from (acc + n) ns else None)"

definition safe_sum :: "nat list \<Rightarrow> nat option" where
  "safe_sum ns = safe_sum_from 0 ns"

definition common_validators ::
  "'k list \<Rightarrow> 'k list \<Rightarrow> ('k::linorder \<times> nat) list \<Rightarrow> 'k validators option" where
  "common_validators faulty inactive validator_stakes =
     do {
       sum_stakes \<leftarrow> safe_sum (map snd validator_stakes);
       let scaling_factor = sum_stakes div u64_max + 1;
       vs \<leftarrow> validators_from_iter
         (map (\<lambda>(key, stake). (key, word_of_nat (stake div scaling_factor))) validator_stakes);
       vs \<leftarrow> for_each ban faulty vs;
       vs \<leftarrow> for_each set_cannot_propose inactive vs;
       let (nonzero, vs) = ensure_nonzero_proposing_stake vs;
       if nonzero then Some vs else None
     }"

definition validator_weights :: "'k validators \<Rightarrow> weight list" where
  "validator_weights vs = map v_weight (validators_vec vs)"

text \<open>The fraction is a numerator and a denominator; the assertion is that it is below one.\<close>

definition common_ftt :: "nat \<times> nat \<Rightarrow> 'k validators \<Rightarrow> weight option" where
  "common_ftt fraction vs =
     (if fst fraction < snd fraction
      then Some (word_of_nat (unat (total_weight vs) * fst fraction div snd fraction))
      else None)"

section \<open>Well-formed validator sets\<close>

text \<open>
  Fewer than \<open>2 ^ 32\<close> validators (their indices are \<open>u32\<close>), distinct IDs with the matching index
  map, and a total weight that is the exact sum of the weights.
\<close>

definition weight_nat :: "'k validators \<Rightarrow> nat \<Rightarrow> nat" where
  "weight_nat vs idx = unat (v_weight (validators_vec vs ! idx))"

definition validators_wf :: "'k validators \<Rightarrow> bool" where
  "validators_wf vs \<longleftrightarrow>
     vs_len vs < 2 ^ 32 \<and>
     distinct (map v_id (validators_vec vs)) \<and>
     (\<forall>k idx. index_by_id vs k = Some idx \<longleftrightarrow> id_at vs idx = Some k) \<and>
     unat (total_weight vs) = (\<Sum>idx<vs_len vs. weight_nat vs idx)"

lemma weight_at_Some_iff: "weight_at vs idx = Some w \<longleftrightarrow> idx < vs_len vs \<and> w = v_weight (validators_vec vs ! idx)"
  by (auto simp: weight_at_def vs_len_def)

lemma id_at_None_iff: "id_at vs idx = None \<longleftrightarrow> vs_len vs \<le> idx"
  by (auto simp: id_at_def vs_len_def)

lemma id_at_SomeD: "id_at vs idx = Some k \<Longrightarrow> idx < vs_len vs"
  by (auto simp: id_at_def vs_len_def split: if_splits)

lemma get_index_id_at:
  "validators_wf vs \<Longrightarrow> get_index vs k = Some idx \<longleftrightarrow> id_at vs idx = Some k"
  by (simp add: validators_wf_def get_index_def)

lemma get_index_less: "validators_wf vs \<Longrightarrow> get_index vs k = Some idx \<Longrightarrow> idx < vs_len vs"
  by (auto simp: get_index_id_at dest: id_at_SomeD)

lemma validators_wf_len: "validators_wf vs \<Longrightarrow> vs_len vs < 2 ^ 32"
  by (simp add: validators_wf_def)

lemma map_fst_enumerate_as_u32:
  assumes "length xs \<le> 2 ^ 32"
  shows "map (\<lambda>(idx, v). as_u32 idx) (enumerate 0 xs) = [0..<length xs]"
  using assms by (intro nth_equalityI) (simp_all add: nth_enumerate_eq)

lemma enumerate_ids_fst:
  assumes "vs_len vs < 2 ^ 32"
  shows "map fst (enumerate_ids vs) = [0..<vs_len vs]"
  using map_fst_enumerate_as_u32 [of "validators_vec vs"] assms
  by (simp add: enumerate_ids_def vs_len_def comp_def case_prod_unfold)

lemma set_keys_some:
  assumes "length m \<le> 2 ^ 32"
  shows "set (keys_some m) = {i. i < length m \<and> m ! i \<noteq> None}"
  using assms by (force simp: keys_some_def in_set_enumerate_eq)

lemma distinct_filter_enumerate: "distinct (map fst (filter P (enumerate n xs)))"
  by (rule distinct_map_filter) simp

lemma distinct_keys_some:
  assumes "length m \<le> 2 ^ 32"
  shows "distinct (keys_some m)"
proof -
  let ?ps = "filter (\<lambda>(_, v). v \<noteq> None) (enumerate 0 m)"
  have "keys_some m = map fst ?ps"
    using assms by (auto simp: keys_some_def in_set_enumerate_eq)
  then show ?thesis
    by (simp only: distinct_filter_enumerate)
qed

lemma checked_weight_sum_Some:
  "checked_weight_sum acc ws = Some t \<Longrightarrow> unat t = unat acc + (\<Sum>w\<leftarrow>ws. unat w)"
proof (induction ws arbitrary: acc)
  case Nil
  then show ?case by simp
next
  case (Cons w ws)
  then show ?case
    by (auto simp: Option.bind_eq_Some_conv dest!: weight_checked_add_Some)
qed

lemma checked_weight_sum_total:
  "unat acc + (\<Sum>w\<leftarrow>ws. unat w) < 2 ^ 64 \<Longrightarrow> \<exists>t. checked_weight_sum acc ws = Some t"
proof (induction ws arbitrary: acc)
  case Nil
  then show ?case by simp
next
  case (Cons w ws)
  then have "unat acc + unat w < 2 ^ 64"
    by simp
  then obtain a where a: "weight_checked_add acc w = Some a" "unat a = unat acc + unat w"
    using weight_checked_add_wp [of acc w] by (auto elim: wpE)
  with Cons.prems have "\<exists>t. checked_weight_sum a ws = Some t"
    by (intro Cons.IH) simp
  with a show ?case by simp
qed

lemma sum_weight_nat:
  "(\<Sum>idx<vs_len vs. weight_nat vs idx) = (\<Sum>v\<leftarrow>validators_vec vs. unat (v_weight v))"
  by (simp add: vs_len_def weight_nat_def sum_list_sum_nth atLeast0LessThan)

lemma sum_list_sort_key:
  "(\<Sum>x\<leftarrow>sort_key k xs. f x) = (\<Sum>x\<leftarrow>xs. (f x :: nat))"
proof -
  have "mset (map f (sort_key k xs)) = mset (map f xs)"
    by simp
  then show ?thesis
    by (metis sum_mset_sum_list)
qed

lemma map_of_rev_enumerate:
  assumes "distinct (map f xs)" and "length xs \<le> 2 ^ 32"
  shows "map_of (rev (map (\<lambda>(idx, v). (f v, as_u32 idx)) (enumerate 0 xs))) k = Some idx \<longleftrightarrow>
    idx < length xs \<and> f (xs ! idx) = k"
proof -
  let ?al = "map (\<lambda>(idx, v). (f v, as_u32 idx)) (enumerate 0 xs)"
  have keys: "map fst ?al = map f xs"
    by (rule nth_equalityI) (simp_all add: nth_enumerate_eq)
  have "distinct (map fst (rev ?al))"
    by (simp only: rev_map [symmetric] distinct_rev keys assms(1))
  then have "map_of (rev ?al) k = Some idx \<longleftrightarrow> (k, idx) \<in> set ?al"
    by (metis map_of_eq_Some_iff set_rev)
  also have "\<dots> \<longleftrightarrow> (\<exists>i < length xs. f (xs ! i) = k \<and> as_u32 i = idx)"
  proof
    assume "(k, idx) \<in> set ?al"
    then show "\<exists>i < length xs. f (xs ! i) = k \<and> as_u32 i = idx"
      by (auto simp: in_set_enumerate_eq)
  next
    assume "\<exists>i < length xs. f (xs ! i) = k \<and> as_u32 i = idx"
    then obtain i where "i < length xs" and "f (xs ! i) = k" and "as_u32 i = idx"
      by blast
    then show "(k, idx) \<in> set ?al"
      by (auto simp: in_set_enumerate_eq image_iff intro!: bexI [of _ "(i, xs ! i)"])
  qed
  also have "\<dots> \<longleftrightarrow> idx < length xs \<and> f (xs ! idx) = k"
    using assms(2) by auto
  finally show ?thesis .
qed

lemma validators_from_iter_wf:
  assumes "validators_from_iter ii = Some vs" and "distinct (map fst ii)" and "length ii < 2 ^ 32"
  shows "validators_wf vs" and "vs_len vs = length ii"
    and "mset (validators_vec vs) = mset (map validator_from ii)"
    and "unat (total_weight vs) = (\<Sum>(k, w)\<leftarrow>ii. unat w)"
proof -
  let ?vs = "sort_key v_id (map validator_from ii)"
  from assms(1) have vec: "validators_vec vs = ?vs"
    and idx: "index_by_id vs =
      map_of (rev (map (\<lambda>(idx, v). (v_id v, as_u32 idx)) (enumerate 0 ?vs)))"
    and tot: "checked_weight_sum 0 (map v_weight (map validator_from ii)) = Some (total_weight vs)"
    by (auto simp: validators_from_iter_def Let_def Option.bind_eq_Some_conv)
  show len: "vs_len vs = length ii"
    by (simp add: vs_len_def vec)
  show "mset (validators_vec vs) = mset (map validator_from ii)"
    by (simp add: vec)
  have ids: "map v_id (map validator_from ii) = map fst ii"
    by (simp add: validator_from_def)
  have "mset (map v_id ?vs) = mset (map v_id (map validator_from ii))"
    by (simp only: mset_map mset_sort)
  then have "distinct (map v_id ?vs) = distinct (map v_id (map validator_from ii))"
    by (rule mset_eq_imp_distinct_iff)
  then have dist: "distinct (map v_id (validators_vec vs))"
    using assms(2) by (simp only: vec ids)
  have index: "index_by_id vs k = Some i \<longleftrightarrow> id_at vs i = Some k" for k i
    using map_of_rev_enumerate [of v_id ?vs k i] dist assms(3)
    by (auto simp: idx vec id_at_def)
  have ws: "map v_weight (map validator_from ii) = map snd ii"
    by (simp add: validator_from_def)
  show tw: "unat (total_weight vs) = (\<Sum>(k, w)\<leftarrow>ii. unat w)"
    using checked_weight_sum_Some [OF tot] by (simp add: ws comp_def case_prod_unfold validator_from_def)
  have "(\<Sum>v\<leftarrow>?vs. unat (v_weight v)) = (\<Sum>v\<leftarrow>map validator_from ii. unat (v_weight v))"
    by (rule sum_list_sort_key)
  then have "unat (total_weight vs) = (\<Sum>idx<vs_len vs. weight_nat vs idx)"
    by (simp add: sum_weight_nat vec tw comp_def validator_from_def case_prod_unfold)
  then show "validators_wf vs"
    using len assms(3) dist index by (simp add: validators_wf_def)
qed

text \<open>Excluding a validator changes neither the IDs nor the weights.\<close>

definition same_shape :: "'k validators \<Rightarrow> 'k validators \<Rightarrow> bool" where
  "same_shape vs vs' \<longleftrightarrow>
     map v_id (validators_vec vs') = map v_id (validators_vec vs) \<and>
     map v_weight (validators_vec vs') = map v_weight (validators_vec vs) \<and>
     index_by_id vs' = index_by_id vs \<and> total_weight vs' = total_weight vs"

lemma same_shape_refl [simp]: "same_shape vs vs"
  by (simp add: same_shape_def)

lemma same_shape_trans: "same_shape a b \<Longrightarrow> same_shape b c \<Longrightarrow> same_shape a c"
  by (simp add: same_shape_def)

lemma same_shape_wf:
  assumes "same_shape vs vs'" and "validators_wf vs"
  shows "validators_wf vs'"
proof -
  have len: "length (validators_vec vs') = length (validators_vec vs)"
    using assms(1) by (metis same_shape_def length_map)
  have ids: "id_at vs' i = id_at vs i" for i
    using assms(1) len nth_map [of i "validators_vec vs" v_id] nth_map [of i "validators_vec vs'" v_id]
    by (simp add: same_shape_def id_at_def)
  have ws: "weight_nat vs' i = weight_nat vs i" if "i < length (validators_vec vs)" for i
    using assms(1) len that nth_map [of i "validators_vec vs" v_weight]
      nth_map [of i "validators_vec vs'" v_weight]
    by (simp add: same_shape_def weight_nat_def)
  from assms len ids ws show ?thesis
    by (simp add: validators_wf_def same_shape_def vs_len_def)
qed

lemma ban_shape:
  assumes "validators_wf vs"
  shows "wp (ban vid vs) (same_shape vs)"
proof (cases "get_index vs vid")
  case None
  then show ?thesis by (simp add: ban_def)
next
  case (Some idx)
  then have "idx < length (validators_vec vs)"
    using get_index_less [OF assms] by (simp add: vs_len_def)
  with Some show ?thesis
    by (simp add: ban_def same_shape_def map_update list_update_same_conv)
qed

lemma set_cannot_propose_shape:
  assumes "validators_wf vs"
  shows "wp (set_cannot_propose vid vs) (same_shape vs)"
proof (cases "get_index vs vid")
  case None
  then show ?thesis by (simp add: set_cannot_propose_def)
next
  case (Some idx)
  then have "idx < length (validators_vec vs)"
    using get_index_less [OF assms] by (simp add: vs_len_def)
  with Some show ?thesis
    by (simp add: set_cannot_propose_def same_shape_def map_update list_update_same_conv)
qed

lemma for_each_shape:
  assumes "validators_wf vs" and "\<And>x vs. validators_wf vs \<Longrightarrow> wp (f x vs) (same_shape vs)"
  shows "wp (for_each f xs vs) (same_shape vs)"
proof (rule wp_for_each)
  fix x v
  assume v: "same_shape vs v"
  with assms(1) have "wp (f x v) (same_shape v)"
    by (blast intro: assms(2) same_shape_wf)
  then show "wp (f x v) (same_shape vs)"
    by (rule wp_mono) (rule same_shape_trans [OF v])
qed simp

lemma ensure_shape: "same_shape vs (snd (ensure_nonzero_proposing_stake vs))"
  by (auto simp: ensure_nonzero_proposing_stake_def same_shape_def comp_def)

definition has_proposer :: "'k validators \<Rightarrow> bool" where
  "has_proposer vs \<longleftrightarrow>
     list_ex (\<lambda>v. v_can_propose v \<and> \<not> weight_is_zero (v_weight v)) (validators_vec vs)"

lemma ensure_fst: "fst (ensure_nonzero_proposing_stake vs) \<longleftrightarrow> total_weight vs \<noteq> 0"
  by (simp add: ensure_nonzero_proposing_stake_def weight_is_zero_def)

lemma ensure_has_proposer:
  assumes "validators_wf vs" and "total_weight vs \<noteq> 0"
  shows "has_proposer (snd (ensure_nonzero_proposing_stake vs))"
proof -
  have "\<exists>v \<in> set (validators_vec vs). v_weight v \<noteq> 0"
  proof (rule ccontr)
    assume "\<not> ?thesis"
    then have "(\<Sum>idx<vs_len vs. weight_nat vs idx) = 0"
      by (simp add: weight_nat_def vs_len_def)
    with assms show False
      by (simp add: validators_wf_def unat_eq_zero)
  qed
  then show ?thesis
    using assms(2)
    by (auto simp: ensure_nonzero_proposing_stake_def has_proposer_def weight_is_zero_def
        list_all_iff list_ex_iff bex_Un)
qed

lemma safe_sum_from_Some:
  "acc + sum_list ns < 2 ^ 512 \<Longrightarrow> safe_sum_from acc ns = Some (acc + sum_list ns)"
  by (induction ns arbitrary: acc) (auto simp: add.assoc)

lemma sum_list_div_le: "(\<Sum>x\<leftarrow>xs. x div k) \<le> sum_list xs div (k::nat)"
proof (cases "k = 0")
  case False
  show ?thesis
  proof (induction xs)
    case (Cons x xs)
    have "k * (x div k + sum_list xs div k) \<le> x + sum_list xs"
      by (simp add: distrib_left add_mono)
    then have "x div k + sum_list xs div k \<le> (x + sum_list xs) div k"
      using False by (simp add: less_eq_div_iff_mult_less_eq mult.commute)
    with Cons.IH show ?case by simp
  qed simp
qed simp

lemma sum_list_le_length: "\<forall>x \<in> set ns. x \<le> c \<Longrightarrow> sum_list ns \<le> length ns * (c::nat)"
  by (induction ns) auto

lemma scaled_weights:
  assumes "sum_list ns < 2 ^ 512" and "length ns < 2 ^ 32" and "0 < sum_list ns"
    and sf: "sf = sum_list ns div u64_max + 1"
  shows "(\<Sum>x\<leftarrow>ns. x div sf) < u64_max" and "0 < (\<Sum>x\<leftarrow>ns. x div sf)"
    and "x \<in> set ns \<Longrightarrow> unat (word_of_nat (x div sf) :: weight) = x div sf"
proof -
  have M: "0 < u64_max"
    by (simp add: u64_max_def)
  have "sum_list ns < u64_max * sf"
    unfolding sf using M by (simp add: dividend_less_times_div)
  then have lt: "sum_list ns div sf < u64_max"
    by (simp add: sf less_mult_imp_div_less)
  with sum_list_div_le [of sf ns] show sum: "(\<Sum>x\<leftarrow>ns. x div sf) < u64_max"
    by simp
  show "unat (word_of_nat (x div sf) :: weight) = x div sf" if "x \<in> set ns"
  proof -
    have "x div sf \<le> sum_list ns div sf"
      using that by (simp add: member_le_sum_list div_le_mono)
    with lt show ?thesis
      by (simp add: unat_of_nat u64_max_def)
  qed
  show "0 < (\<Sum>x\<leftarrow>ns. x div sf)"
  proof (rule ccontr)
    assume "\<not> ?thesis"
    then have "\<forall>x \<in> set ns. x \<le> sum_list ns div u64_max"
      by (auto simp: sf div_eq_0_iff)
    then have le: "sum_list ns \<le> length ns * (sum_list ns div u64_max)"
      by (rule sum_list_le_length)
    with assms(3) have q: "0 < sum_list ns div u64_max"
      by (metis mult_0_right not_gr_zero leD)
    have "u64_max * (sum_list ns div u64_max) \<le> length ns * (sum_list ns div u64_max)"
      using le by (rule order_trans [rotated]) simp
    with q have "u64_max \<le> length ns"
      by simp
    with assms(2) show False
      by (simp add: u64_max_def)
  qed
qed

text \<open>
  The validator set of an era: with between one and \<open>2 ^ 32\<close> stakes of positive sum, the
  computation returns a well-formed set with the scaled stakes as weights.
\<close>

lemma common_validators_wp:
  assumes "distinct (map fst stakes)" and "length stakes < 2 ^ 32"
    and "0 < sum_list (map snd stakes)" and "sum_list (map snd stakes) < 2 ^ 512"
  shows "wp (common_validators faulty inactive stakes) (\<lambda>vs.
    validators_wf vs \<and> vs_len vs = length stakes \<and> has_proposer vs \<and>
    0 < unat (total_weight vs) \<and> unat (total_weight vs) < u64_max)"
proof -
  let ?sf = "sum_list (map snd stakes) div u64_max + 1"
  let ?ii = "map (\<lambda>(key, stake). (key, word_of_nat (stake div ?sf) :: weight)) stakes"
  note scaled = scaled_weights [OF assms(4) _ assms(3) refl]
  have ii: "distinct (map fst ?ii)" "length ?ii < 2 ^ 32"
    using assms(1,2) by (simp_all add: comp_def case_prod_unfold)
  have unats: "(\<Sum>(k, w)\<leftarrow>?ii. unat w) = (\<Sum>x\<leftarrow>map snd stakes. x div ?sf)"
    using scaled(3) assms(2) by (auto simp: comp_def case_prod_unfold intro!: arg_cong [where f = sum_list])
  then have "(\<Sum>w\<leftarrow>map v_weight (map validator_from ?ii). unat w) = (\<Sum>x\<leftarrow>map snd stakes. x div ?sf)"
    by (simp add: validator_from_def comp_def case_prod_unfold)
  then have "unat (0 :: weight) + (\<Sum>w\<leftarrow>map v_weight (map validator_from ?ii). unat w) < 2 ^ 64"
    using scaled(1) assms(2) by (simp add: u64_max_def)
  from checked_weight_sum_total [OF this]
  obtain vs where vs: "validators_from_iter ?ii = Some vs"
    unfolding validators_from_iter_def Let_def by auto
  note wf = validators_from_iter_wf [OF vs ii]
  have tw: "unat (total_weight vs) = (\<Sum>x\<leftarrow>map snd stakes. x div ?sf)"
    using wf(4) unats by simp
  have fin: "validators_wf (snd (ensure_nonzero_proposing_stake v)) \<and>
      vs_len (snd (ensure_nonzero_proposing_stake v)) = length stakes \<and>
      has_proposer (snd (ensure_nonzero_proposing_stake v)) \<and>
      total_weight (snd (ensure_nonzero_proposing_stake v)) = total_weight vs \<and>
      fst (ensure_nonzero_proposing_stake v)"
    if "same_shape vs v" for v
  proof -
    from that have wfv: "validators_wf v" and tot: "total_weight v = total_weight vs"
      using same_shape_wf wf(1) by (auto simp: same_shape_def)
    have "0 < unat (total_weight vs)"
      using tw scaled(2) assms(2) by (simp only: length_map)
    then have nz: "total_weight v \<noteq> 0"
      using tot by (simp add: unat_gt_0)
    have sh: "same_shape vs (snd (ensure_nonzero_proposing_stake v))"
      using that ensure_shape same_shape_trans by blast
    then have "vs_len (snd (ensure_nonzero_proposing_stake v)) = length stakes"
      using wf(2) by (metis same_shape_def length_map vs_len_def)
    with sh nz show ?thesis
      using same_shape_wf [OF sh wf(1)] ensure_has_proposer [OF wfv nz]
      by (simp add: ensure_fst same_shape_def)
  qed
  have "wp (for_each ban faulty vs) (\<lambda>v. wp (for_each set_cannot_propose inactive v) (same_shape vs))"
    by (rule wp_mono [OF for_each_shape [OF wf(1) ban_shape]])
      (auto intro!: wp_mono [OF for_each_shape [OF _ set_cannot_propose_shape]]
        intro: same_shape_trans same_shape_wf wf(1))
  then have "wp (for_each ban faulty vs) (\<lambda>v. wp (for_each set_cannot_propose inactive v) (\<lambda>v.
      wp (let (nonzero, v) = ensure_nonzero_proposing_stake v in if nonzero then Some v else None)
        (\<lambda>vs. validators_wf vs \<and> vs_len vs = length stakes \<and> has_proposer vs \<and>
          0 < unat (total_weight vs) \<and> unat (total_weight vs) < u64_max)))"
    by (elim wp_mono) (use fin tw scaled(1,2) assms(2) in \<open>auto simp: case_prod_unfold\<close>)
  moreover have "safe_sum (map snd stakes) = Some (sum_list (map snd stakes))"
    using safe_sum_from_Some [of 0 "map snd stakes"] assms(4) by (simp add: safe_sum_def)
  ultimately show ?thesis
    using vs by (simp add: common_validators_def wp_if)
qed

lemma common_ftt_less:
  assumes "common_ftt (n, d) vs = Some f" and "total_weight vs \<noteq> 0"
  shows "unat f = unat (total_weight vs) * n div d" and "unat f < unat (total_weight vs)"
proof -
  from assms(1) have nd: "n < d" and f: "f = word_of_nat (unat (total_weight vs) * n div d)"
    by (auto simp: common_ftt_def split: if_splits)
  from assms(2) have "0 < unat (total_weight vs)"
    by (simp add: unat_gt_0)
  with nd have lt: "unat (total_weight vs) * n div d < unat (total_weight vs)"
    by (simp add: div_less_iff_less_mult)
  also have "\<dots> < 2 ^ 64"
    using unsigned_less [of "total_weight vs"] by simp
  finally show eq: "unat f = unat (total_weight vs) * n div d"
    by (simp add: f unat_of_nat)
  with lt show "unat f < unat (total_weight vs)" by simp
qed

end
