(* ===== verification/Leader_Sequence.thy ===== *)
theory Leader_Sequence
  imports Consensus_Validators
begin

text \<open>
  The pseudorandom leader sequence: \<open>node/src/components/consensus/leader_sequence.rs\<close>.

  The generator (\<open>ChaCha8Rng::seed_from_u64(seed).gen_range(0..upper)\<close> of the \<open>rand\<close> crates) is
  the parameter \<open>gen\<close>; what the code relies on is that it returns a number below \<open>upper\<close>. The
  lemmas show that \<open>ValidatorMap::binary_search\<close> returns the lowest index whose entry is at
  least the one searched for, whichever equal entry the standard library's search hits, and that
  the leader of every slot exists, may propose and has positive weight.
\<close>

section \<open>The sequence\<close>

record leader_sequence =
  cumulative_w :: "weight list"
  cumulative_w_leaders :: "weight list"
  ls_leaders :: "bool list"
  ls_seed :: "64 word"

text \<open>The accumulating closure \<open>sums\<close> of \<open>LeaderSequence::new\<close>, folded over the weights.\<close>

fun cumulate :: "weight list \<Rightarrow> weight list \<Rightarrow> weight list option" where
  "cumulate cums [] = Some cums"
| "cumulate cums (w # ws) =
     do {
       s \<leftarrow> weight_checked_add (if cums = [] then 0 else last cums) w;
       cumulate (cums @ [s]) ws
     }"

definition leader_sequence_new ::
  "64 word \<Rightarrow> weight list \<Rightarrow> bool list \<Rightarrow> leader_sequence option" where
  "leader_sequence_new seed weights leaders =
     do {
       cw \<leftarrow> cumulate [] weights;
       assert_that (cw \<noteq> [] \<and> 0 < last cw);
       assert_that (length weights \<le> length leaders);
       cwl \<leftarrow> cumulate [] (map (\<lambda>(idx, w). if leaders ! idx then w else 0) (enumerate 0 weights));
       Some \<lparr>cumulative_w = cw, cumulative_w_leaders = cwl, ls_leaders = leaders, ls_seed = seed\<rparr>
     }"

definition leader_prng :: "(64 word \<Rightarrow> weight \<Rightarrow> weight) \<Rightarrow> weight \<Rightarrow> 64 word \<Rightarrow> weight option" where
  "leader_prng gen upper seed =
     (if upper = 0 then None else Some (weight_saturating_add (gen seed upper) 1))"

definition ls_total_weight :: "leader_sequence \<Rightarrow> weight option" where
  "ls_total_weight ls = (if cumulative_w ls = [] then None else Some (last (cumulative_w ls)))"

definition leader :: "(64 word \<Rightarrow> weight \<Rightarrow> weight) \<Rightarrow> leader_sequence \<Rightarrow> 64 word \<Rightarrow> nat option" where
  "leader gen ls slot =
     do {
       let seed = ls_seed ls + slot;
       tw \<leftarrow> ls_total_weight ls;
       r \<leftarrow> leader_prng gen tw seed;
       let leader_index = (case vmap_binary_search (cumulative_w ls) r of Some i \<Rightarrow> i | None \<Rightarrow> 0);
       may_lead \<leftarrow> vmap_get (ls_leaders ls) leader_index;
       if may_lead then Some leader_index
       else do {
         total_w_leaders \<leftarrow>
           (if cumulative_w_leaders ls = [] then None else Some (last (cumulative_w_leaders ls)));
         r \<leftarrow> leader_prng gen total_w_leaders (seed + 1);
         Some (case vmap_binary_search (cumulative_w_leaders ls) r of Some i \<Rightarrow> i | None \<Rightarrow> 0)
       }
     }"

text \<open>What the code relies on of the generator: \<open>gen_range(0..upper)\<close> is below \<open>upper\<close>.\<close>

definition gen_in_range :: "(64 word \<Rightarrow> weight \<Rightarrow> weight) \<Rightarrow> bool" where
  "gen_in_range gen \<longleftrightarrow> (\<forall>seed upper. 0 < upper \<longrightarrow> gen seed upper < upper)"

section \<open>Binary search\<close>

lemma bsearch_loop_inv:
  assumes "sorted xs" and "0 < sz" and "base + sz \<le> length xs"
    and "base = 0 \<or> xs ! base \<le> x" and "\<forall>i. base + sz \<le> i \<and> i < length xs \<longrightarrow> x < xs ! i"
  shows "bsearch_loop xs x base sz < length xs \<and>
    (bsearch_loop xs x base sz = 0 \<or> xs ! bsearch_loop xs x base sz \<le> x) \<and>
    (\<forall>i. bsearch_loop xs x base sz < i \<and> i < length xs \<longrightarrow> x < xs ! i)"
  using assms
proof (induction xs x base sz rule: bsearch_loop.induct)
  case (1 xs x base sz)
  show ?case
  proof (cases "1 < sz")
    case False
    with "1.prems" show ?thesis
      by (subst (1 2 3 4) bsearch_loop.simps) auto
  next
    case True
    define half where "half = sz div 2"
    define base' where "base' = (if x < xs ! (base + half) then base else base + half)"
    have half: "0 < half" "half < sz"
      using True by (auto simp: half_def)
    have eq: "bsearch_loop xs x base sz = bsearch_loop xs x base' (sz - half)"
      using True by (subst bsearch_loop.simps) (simp add: half_def base'_def Let_def)
    have b1: "base' = 0 \<or> xs ! base' \<le> x"
      using "1.prems"(4) by (auto simp: base'_def)
    have b2: "x < xs ! i" if i: "base' + (sz - half) \<le> i" "i < length xs" for i
    proof (cases "x < xs ! (base + half)")
      case True
      have "base + half \<le> i"
        using i half True by (simp add: base'_def half_def)
      then have "xs ! (base + half) \<le> xs ! i"
        using "1.prems"(1) i(2) by (simp add: sorted_nth_mono)
      with True show ?thesis by simp
    next
      case False
      with i half "1.prems"(5) show ?thesis
        by (simp add: base'_def)
    qed
    have b3: "base' + (sz - half) \<le> length xs"
      using "1.prems"(3) half by (auto simp: base'_def)
    show ?thesis
      unfolding eq using b1 b2 b3 half
      by (intro "1.IH" [OF True half_def refl, folded base'_def, OF "1.prems"(1)]) auto
  qed
qed

lemma slice_binary_search_spec:
  assumes "sorted xs"
  shows "case slice_binary_search xs x of
      Inl i \<Rightarrow> i < length xs \<and> xs ! i = x
    | Inr i \<Rightarrow> i \<le> length xs \<and> (\<forall>j<i. xs ! j < x) \<and> (\<forall>j. i \<le> j \<and> j < length xs \<longrightarrow> x < xs ! j)"
proof (cases "xs = []")
  case True
  then show ?thesis by (simp add: slice_binary_search_def)
next
  case False
  define b where "b = bsearch_loop xs x 0 (length xs)"
  have b: "b < length xs" "b = 0 \<or> xs ! b \<le> x" "\<forall>i. b < i \<and> i < length xs \<longrightarrow> x < xs ! i"
    using bsearch_loop_inv [OF assms, of "length xs" 0 x] False unfolding b_def by fastforce+
  have up: "xs ! j \<le> xs ! b" if "j \<le> b" for j
    using assms that b(1) by (simp add: sorted_nth_mono)
  consider "xs ! b = x" | "xs ! b < x" | "x < xs ! b" "b = 0"
    using b(2) by fastforce
  then show ?thesis
  proof cases
    case 1
    then show ?thesis
      using False b(1) by (simp add: slice_binary_search_def b_def Let_def)
  next
    case 2
    then have "xs ! j < x" if "j \<le> b" for j
      using up [OF that] by simp
    with 2 b False show ?thesis
      by (auto simp: slice_binary_search_def b_def [symmetric] Let_def less_Suc_eq_le Suc_le_eq)
  next
    case 3
    then have "x < xs ! j" if "j < length xs" for j
      using b(3) that by (cases "j = b") auto
    moreover from 3 have "slice_binary_search xs x = Inr 0"
      using False by (auto simp: slice_binary_search_def b_def [symmetric] Let_def)
    ultimately show ?thesis by simp
  qed
qed

lemma takeWhile_rev_upt:
  fixes P :: "nat \<Rightarrow> bool" and i :: nat
  defines "low \<equiv> (let js = takeWhile P (rev [0..<i]) in if js = [] then i else last js)"
  shows "low \<le> i \<and> (\<forall>j. low \<le> j \<and> j < i \<longrightarrow> P j) \<and> (low = 0 \<or> \<not> P (low - 1))"
  unfolding low_def
proof (induction i)
  case 0
  then show ?case by simp
next
  case (Suc i)
  then show ?case
    by (cases "P i") (auto simp: Let_def less_Suc_eq split: if_splits)
qed

lemma lowest_unique:
  fixes m :: "'a::linorder list"
  assumes "x \<le> m ! i" "\<forall>j<i. m ! j < x" "x \<le> m ! k" "\<forall>j<k. m ! j < x"
  shows "i = k"
proof (rule ccontr)
  assume "i \<noteq> k"
  then consider "i < k" | "k < i" by linarith
  then show False
    using assms by cases (auto dest: leD)
qed

text \<open>The search returns the lowest index of an entry at least \<open>x\<close>, if there is one.\<close>

lemma vmap_binary_search_lowest:
  assumes "sorted m" and "length m \<le> 2 ^ 32"
  shows "vmap_binary_search m x = Some i \<longleftrightarrow>
    i < length m \<and> x \<le> m ! i \<and> (\<forall>j<i. m ! j < x)"
proof (cases "slice_binary_search m x")
  case (Inl k)
  with slice_binary_search_spec [OF assms(1), of x] have k: "k < length m" "m ! k = x"
    by auto
  define low where
    "low = (let js = takeWhile (\<lambda>j. m ! j = x) (rev [0..<k]) in if js = [] then k else last js)"
  have low: "low \<le> k" "\<forall>j. low \<le> j \<and> j < k \<longrightarrow> m ! j = x" "low = 0 \<or> m ! (low - 1) \<noteq> x"
    using takeWhile_rev_upt [of "\<lambda>j. m ! j = x" k, folded low_def] by blast+
  have at_low: "m ! low = x"
    using low(1,2) k(2) by (cases "low = k") auto
  have below: "m ! j < x" if "j < low" for j
  proof -
    have "m ! j \<le> m ! (low - 1)" and "m ! (low - 1) \<le> m ! low"
      using assms(1) that k(1) low(1) by (auto intro!: sorted_nth_mono)
    with that low(3) at_low show ?thesis by auto
  qed
  have "vmap_binary_search m x = Some low"
    using Inl low(1) k(1) assms(2) by (simp add: vmap_binary_search_def low_def Let_def)
  moreover have "i = low" if "x \<le> m ! i" "\<forall>j<i. m ! j < x" for i
    using that below at_low by (intro lowest_unique [of x m]) auto
  moreover have "low < length m"
    using low(1) k(1) by simp
  ultimately show ?thesis
    using at_low below by auto
next
  case (Inr k)
  with slice_binary_search_spec [OF assms(1), of x]
  have k: "k \<le> length m" "\<forall>j<k. m ! j < x" "\<forall>j. k \<le> j \<and> j < length m \<longrightarrow> x < m ! j"
    by auto
  have result: "vmap_binary_search m x = (if k < length m then Some k else None)"
    using Inr assms(2) by (simp add: vmap_binary_search_def as_u32_id)
  show ?thesis
  proof (cases "k < length m")
    case True
    with k(3) have at_k: "x \<le> m ! k" by (simp add: less_imp_le)
    have "i = k" if "x \<le> m ! i" "\<forall>j<i. m ! j < x"
      by (rule lowest_unique [OF that at_k k(2)])
    with True at_k k(2) result show ?thesis by auto
  next
    case False
    with k(1,2) have "\<not> (i < length m \<and> x \<le> m ! i)" by (auto dest: leD)
    with False result show ?thesis by auto
  qed
qed

section \<open>The leader of a slot\<close>

lemma cumulate_Some:
  assumes "cumulate cums ws = Some cs" and "cums = [] \<longrightarrow> acc = 0" and "cums \<noteq> [] \<longrightarrow> acc = unat (last cums)"
  shows "length cs = length cums + length ws \<and> take (length cums) cs = cums \<and>
    (\<forall>i<length ws. unat (cs ! (length cums + i)) = acc + (\<Sum>w\<leftarrow>take (Suc i) ws. unat w))"
  using assms
proof (induction ws arbitrary: cums acc)
  case Nil
  then show ?case by simp
next
  case (Cons w ws)
  from Cons.prems(1) obtain s where
    s: "weight_checked_add (if cums = [] then 0 else last cums) w = Some s"
    and rest: "cumulate (cums @ [s]) ws = Some cs"
    by (auto simp: Option.bind_eq_Some_conv)
  have acc: "unat s = acc + unat w"
    using weight_checked_add_Some [OF s] Cons.prems(2,3) by (auto split: if_splits)
  have IH0: "length cs = length (cums @ [s]) + length ws \<and> take (length (cums @ [s])) cs = cums @ [s] \<and>
    (\<forall>i<length ws. unat (cs ! (length (cums @ [s]) + i)) = unat s + (\<Sum>w\<leftarrow>take (Suc i) ws. unat w))"
    by (rule Cons.IH [OF rest]) simp_all
  have one: "length (cums @ [s]) = Suc (length cums)" by simp
  note IH = IH0 [unfolded one, THEN conjunct1]
    IH0 [unfolded one, THEN conjunct2, THEN conjunct1]
    IH0 [unfolded one, THEN conjunct2, THEN conjunct2]
  have "take (length cums) (take (Suc (length cums)) cs) = cums"
    unfolding IH(2) by simp
  then have 1: "take (length cums) cs = cums"
    by simp
  have "take (Suc (length cums)) cs ! length cums = s"
    unfolding IH(2) by simp
  then have 2: "cs ! length cums = s"
    by simp
  have "unat (cs ! (length cums + i)) = acc + (\<Sum>w\<leftarrow>take (Suc i) (w # ws). unat w)"
    if "i < length (w # ws)" for i
    using that 2 IH(3) acc by (cases i) auto
  with 1 IH(1) show ?case by simp
qed

lemma cumulate_Nil:
  assumes "cumulate [] ws = Some cs"
  shows "length cs = length ws"
    and "i < length ws \<Longrightarrow> unat (cs ! i) = (\<Sum>w\<leftarrow>take (Suc i) ws. unat w)"
    and "sorted cs"
    and "ws \<noteq> [] \<Longrightarrow> unat (last cs) = (\<Sum>w\<leftarrow>ws. unat w)"
proof -
  note * = cumulate_Some [OF assms, of 0]
  then show len: "length cs = length ws" by simp
  from * have nth: "unat (cs ! i) = (\<Sum>w\<leftarrow>take (Suc i) ws. unat w)" if "i < length ws" for i
    using that by simp
  then show "i < length ws \<Longrightarrow> unat (cs ! i) = (\<Sum>w\<leftarrow>take (Suc i) ws. unat w)" .
  have "unat (cs ! i) \<le> unat (cs ! Suc i)" if "Suc i < length cs" for i
    using that nth len by (simp add: take_Suc_conv_app_nth)
  then show "sorted cs"
    by (simp add: sorted_iff_nth_Suc word_le_nat_alt)
  show "unat (last cs) = (\<Sum>w\<leftarrow>ws. unat w)" if "ws \<noteq> []"
  proof -
    from that len have "cs \<noteq> []" by auto
    with that nth [of "length ws - 1"] len show ?thesis by (simp add: last_conv_nth)
  qed
qed

text \<open>
  The entry the search selects is one with positive weight: the weight units up to the previous
  entry's sum are all below the number drawn.
\<close>

lemma cumulate_search:
  assumes "cumulate [] ws = Some cs" and "length ws \<le> 2 ^ 32" and "0 < r" and "r \<le> last cs"
    and "ws \<noteq> []"
  shows "\<exists>i < length ws. vmap_binary_search cs r = Some i \<and> ws ! i \<noteq> 0"
proof -
  note cs = cumulate_Nil [OF assms(1)]
  have ne: "cs \<noteq> []"
    using cs(1) assms(5) by auto
  let ?P = "\<lambda>i. i < length cs \<and> r \<le> cs ! i"
  have ex: "?P (length cs - 1)"
    using ne assms(4) by (simp add: last_conv_nth)
  define i where "i = (LEAST i. ?P i)"
  have i: "?P i"
    unfolding i_def using ex by (rule LeastI)
  have low: "cs ! j < r" if "j < i" for j
    using not_less_Least [of j ?P] that i by (auto simp: i_def)
  have "vmap_binary_search cs r = Some i"
    using vmap_binary_search_lowest [OF cs(3)] cs(1) assms(2) i low by simp
  moreover have "ws ! i \<noteq> 0"
  proof (cases i)
    case 0
    have "0 < unat r" and "unat r \<le> unat (cs ! 0)"
      using i 0 assms(3) by (simp_all add: word_less_nat_alt word_le_nat_alt)
    with 0 cs(2) [of 0] i cs(1) show ?thesis
      by (cases ws) auto
  next
    case (Suc k)
    with low [of k] i have "cs ! k < cs ! i" by auto
    then have "unat (cs ! k) < unat (cs ! i)"
      by (simp add: word_less_nat_alt)
    with cs(2) [of i] cs(2) [of k] i cs(1) Suc show ?thesis
      by (auto simp: take_Suc_conv_app_nth)
  qed
  ultimately show ?thesis
    using i cs(1) by auto
qed

lemma leader_prng_range:
  assumes "gen_in_range gen" and "0 < upper"
  shows "\<exists>r. leader_prng gen upper seed = Some r \<and> 0 < r \<and> r \<le> upper"
proof -
  let ?r = "weight_saturating_add (gen seed upper) 1"
  have lt: "unat (gen seed upper) < unat upper"
    using assms by (simp add: word_less_nat_alt gen_in_range_def)
  moreover have "unat upper < 2 ^ 64"
    using unsigned_less [of upper] by simp
  ultimately have "unat ?r = Suc (unat (gen seed upper))"
    by (simp add: unat_weight_saturating_add)
  with lt have "0 < unat ?r" and "unat ?r \<le> unat upper" by simp_all
  moreover have "upper \<noteq> 0"
    using assms(2) by auto
  ultimately show ?thesis
    by (simp add: leader_prng_def word_less_nat_alt word_le_nat_alt)
qed

text \<open>
  With a generator that stays in range and some validator that may propose and has positive
  weight, the sequence exists and every slot has such a validator as its leader.
\<close>

definition leader_ok :: "(64 word \<Rightarrow> weight \<Rightarrow> weight) \<Rightarrow> leader_sequence \<Rightarrow> nat \<Rightarrow> bool" where
  "leader_ok gen ls n \<longleftrightarrow> (\<forall>slot. \<exists>i < n. leader gen ls slot = Some i)"

lemma leader_of_new:
  assumes new: "leader_sequence_new seed ws can = Some ls"
    and len: "length ws \<le> 2 ^ 32" "length can = length ws"
    and gen: "gen_in_range gen"
    and may: "\<exists>i < length ws. can ! i \<and> ws ! i \<noteq> 0"
  shows "\<exists>i < length ws. leader gen ls slot = Some i \<and> can ! i \<and> ws ! i \<noteq> 0"
proof -
  let ?wl = "map (\<lambda>(idx, w). if can ! idx then w else 0) (enumerate 0 ws)"
  from new obtain cw cwl where cw: "cumulate [] ws = Some cw" and pos: "cw \<noteq> []" "0 < last cw"
    and cwl: "cumulate [] ?wl = Some cwl"
    and ls: "ls = \<lparr>cumulative_w = cw, cumulative_w_leaders = cwl, ls_leaders = can, ls_seed = seed\<rparr>"
    by (auto simp: leader_sequence_new_def Option.bind_eq_Some_conv split: if_splits)
  have ne: "ws \<noteq> []" "?wl \<noteq> []"
    using may by (auto simp: enumerate_eq_zip)
  from leader_prng_range [OF gen pos(2)] obtain r where
    r: "leader_prng gen (last cw) (seed + slot) = Some r" "0 < r" "r \<le> last cw"
    by blast
  from cumulate_search [OF cw len(1) r(2,3) ne(1)] obtain i where
    i: "i < length ws" "vmap_binary_search cw r = Some i" "ws ! i \<noteq> 0"
    by blast
  show ?thesis
  proof (cases "can ! i")
    case True
    with i r pos len(2) show ?thesis
      by (auto simp: leader_def ls ls_total_weight_def vmap_get_def)
  next
    case False
    from may obtain k where k: "k < length ws" "can ! k" "ws ! k \<noteq> 0"
      by blast
    have nth: "?wl ! k = (if can ! k then ws ! k else 0)" if "k < length ws" for k
      using that by (simp add: nth_enumerate_eq)
    have "ws ! k \<in> set ?wl"
      using k nth [OF k(1)] by (metis length_enumerate length_map nth_mem)
    then have "unat (ws ! k) \<in> set (map unat ?wl)"
      unfolding set_map by (rule imageI)
    then have "unat (ws ! k) \<le> (\<Sum>w\<leftarrow>?wl. unat w)"
      by (intro member_le_sum_list) auto
    also have "\<dots> = unat (last cwl)"
      using cumulate_Nil(4) [OF cwl ne(2)] by simp
    finally have "unat (ws ! k) \<le> unat (last cwl)" .
    moreover have "0 < unat (ws ! k)"
      using k(3) by (simp add: unat_gt_0)
    ultimately have "0 < last cwl"
      by (simp add: word_less_nat_alt)
    from leader_prng_range [OF gen this] obtain r' where
      r': "leader_prng gen (last cwl) (seed + slot + 1) = Some r'" "0 < r'" "r' \<le> last cwl"
      by blast
    from cumulate_search [OF cwl _ r'(2,3) ne(2)] len obtain i' where
      i': "i' < length ws" "vmap_binary_search cwl r' = Some i'" "?wl ! i' \<noteq> 0"
      by auto
    have "cwl \<noteq> []"
      using cumulate_Nil(1) [OF cwl] ne by auto
    moreover have "can ! i'" "ws ! i' \<noteq> 0"
      using i'(3) nth [OF i'(1)] by (auto split: if_splits)
    ultimately show ?thesis
      using i r r' i' pos len(2) False
      by (auto simp: leader_def ls ls_total_weight_def vmap_get_def)
  qed
qed

lemma leader_ok_new:
  assumes "leader_sequence_new seed ws can = Some ls"
    and "length ws \<le> 2 ^ 32" "length can = length ws"
    and "gen_in_range gen"
    and "\<exists>i < length ws. can ! i \<and> ws ! i \<noteq> 0"
  shows "leader_ok gen ls (length ws)"
  using leader_of_new [OF assms] by (auto simp: leader_ok_def)

end
