(* ===== verification/Zug_Types.thy ===== *)
theory Zug_Types
  imports Leader_Sequence
begin

text \<open>
  The data of the Zug protocol: \<open>protocols/zug/message.rs\<close>, \<open>proposal.rs\<close>, \<open>fault.rs\<close>,
  \<open>params.rs\<close> and \<open>config.rs\<close>, and the types \<open>consensus_protocol.rs\<close> exchanges with the era
  supervisor.

  The associated types of the trait \<open>Context\<close> are type variables: \<open>'v\<close> is \<open>ConsensusValue\<close>,
  \<open>'h\<close> is \<open>Hash\<close>, \<open>'s\<close> is \<open>Signature\<close>, \<open>'i\<close> is \<open>InstanceId\<close>, \<open>'k\<close> is \<open>ValidatorId\<close> and
  \<open>'x\<close> is \<open>ValidatorSecret\<close>. The functions of \<open>Context\<close>, and the other code that is not part of
  the protocol (the random number generator, the disk, the libm function \<open>exp2\<close>), are the fields of
  the record \<open>ctx\<close>, over which all operations are parametric. Timestamps and time differences are
  natural numbers of milliseconds with the saturation of \<open>types/src/timestamp.rs\<close> written out. A
  \<open>BTreeSet\<close> of validator indices is the list of its elements in ascending order. Messages are not
  serialized: a \<open>SerializedMessage\<close> is the message it contains, or nothing if it does not
  deserialize.
\<close>

type_synonym round_id = nat

type_synonym timestamp = nat

type_synonym node_id = nat

section \<open>Messages (zug/message.rs) and proposals (zug/proposal.rs)\<close>

datatype 'h content = Echo 'h | Vote bool

fun contradicts :: "'h content \<Rightarrow> 'h content \<Rightarrow> bool" where
  "contradicts (Vote vote0) (Vote vote1) = (vote0 \<noteq> vote1)"
| "contradicts (Echo hash0) (Echo hash1) = (hash0 \<noteq> hash1)"
| "contradicts _ _ = False"

record ('h, 'i, 's) signed_message =
  sm_round_id :: round_id
  sm_instance_id :: 'i
  sm_content :: "'h content"
  sm_validator_idx :: nat
  sm_signature :: 's

record 'v proposal =
  p_timestamp :: timestamp
  p_block :: "'v option"
  p_parent :: "round_id option"
  p_inactive :: "nat list option"

record ('v, 'h) hashed_proposal =
  hp_hash :: 'h
  hp_inner :: "'v proposal"

text \<open>The accessors of \<open>HashedProposal\<close>.\<close>

abbreviation maybe_block :: "('v, 'h) hashed_proposal \<Rightarrow> 'v option" where
  "maybe_block hp \<equiv> p_block (hp_inner hp)"

abbreviation maybe_parent_round_id :: "('v, 'h) hashed_proposal \<Rightarrow> round_id option" where
  "maybe_parent_round_id hp \<equiv> p_parent (hp_inner hp)"

abbreviation hp_timestamp :: "('v, 'h) hashed_proposal \<Rightarrow> timestamp" where
  "hp_timestamp hp \<equiv> p_timestamp (hp_inner hp)"

abbreviation hp_inactive :: "('v, 'h) hashed_proposal \<Rightarrow> nat list option" where
  "hp_inactive hp \<equiv> p_inactive (hp_inner hp)"

record ('h, 'i) sync_request =
  sr_round_id :: round_id
  sr_proposal_hash :: "'h option"
  sr_has_proposal :: bool
  sr_first_validator_idx :: nat
  sr_echoes :: "128 word"
  sr_true_votes :: "128 word"
  sr_false_votes :: "128 word"
  sr_active :: "128 word"
  sr_faulty :: "128 word"
  sr_instance_id :: 'i
  sr_sync_id :: nat

definition new_empty_round ::
  "round_id \<Rightarrow> nat \<Rightarrow> 128 word \<Rightarrow> 128 word \<Rightarrow> 'i \<Rightarrow> nat \<Rightarrow> ('h, 'i) sync_request" where
  "new_empty_round round_id first_validator_idx faulty active instance_id sync_id =
     \<lparr>sr_round_id = round_id, sr_proposal_hash = None, sr_has_proposal = False,
      sr_first_validator_idx = first_validator_idx, sr_echoes = 0, sr_true_votes = 0,
      sr_false_votes = 0, sr_active = active, sr_faulty = faulty, sr_instance_id = instance_id,
      sr_sync_id = sync_id\<rparr>"

record ('v, 'h, 'i, 's) sync_response =
  rs_round_id :: round_id
  rs_proposal_or_hash :: "('v proposal + 'h) option"
  rs_echo_sigs :: "(nat \<times> 's) list"
  rs_true_vote_sigs :: "(nat \<times> 's) list"
  rs_false_vote_sigs :: "(nat \<times> 's) list"
  rs_signed_messages :: "('h, 'i, 's) signed_message list"
  rs_evidence :: "(('h, 'i, 's) signed_message \<times> 'h content \<times> 's) list"
  rs_instance_id :: 'i
  rs_sync_id :: nat

datatype ('v, 'h, 'i, 's) message =
  SyncResponse "('v, 'h, 'i, 's) sync_response"
| ProposalMsg round_id 'i "'v proposal" "('h, 'i, 's) signed_message"
| Signed "('h, 'i, 's) signed_message"
| Evidence "('h, 'i, 's) signed_message" "'h content" 's

fun message_instance_id :: "('v, 'h, 'i, 's) message \<Rightarrow> 'i" where
  "message_instance_id (SyncResponse r) = rs_instance_id r"
| "message_instance_id (ProposalMsg _ instance_id _ _) = instance_id"
| "message_instance_id (Signed m) = sm_instance_id m"
| "message_instance_id (Evidence m _ _) = sm_instance_id m"

section \<open>Faults, parameters and configuration\<close>

datatype ('h, 'i, 's) fault =
  Banned
| Direct "('h, 'i, 's) signed_message" "'h content" 's
| Indirect

fun is_direct :: "('h, 'i, 's) fault \<Rightarrow> bool" where
  "is_direct (Direct _ _ _) = True"
| "is_direct _ = False"

record 'i params =
  instance_id :: 'i
  min_block_time :: nat
  start_timestamp :: timestamp
  end_height :: nat
  end_timestamp :: timestamp
  ftt :: weight

record zug_config =
  sync_state_interval :: "nat option"
  log_participation_interval :: "nat option"
  proposal_timeout :: nat
  proposal_grace_period :: nat
  proposal_timeout_inertia :: nat
  clock_tolerance :: nat

section \<open>What the protocol exchanges with the era supervisor (consensus_protocol.rs)\<close>

record 'v block_context =
  bc_timestamp :: timestamp
  bc_ancestor_values :: "'v list"

record 'v proposed_block =
  pb_value :: 'v
  pb_context :: "'v block_context"

record ('v, 'k) finalized_block =
  fb_value :: 'v
  fb_timestamp :: timestamp
  fb_relative_height :: nat
  fb_equivocators :: "'k list"
  fb_terminal_block_data :: "'k list option"
  fb_proposer :: 'k

datatype ('v, 'h, 's, 'i, 'k) outcome =
  CreatedGossipMessage "('v, 'h, 'i, 's) message"
| CreatedTargetedMessage "('v, 'h, 'i, 's) message" node_id
| CreatedMessageToRandomPeer "('v, 'h, 'i, 's) message"
| CreatedRequestToRandomValidator "('h, 'i) sync_request"
| ScheduleTimer timestamp nat
| QueueAction nat
| CreateNewBlock "'v block_context" timestamp
| FinalizedBlock "('v, 'k) finalized_block"
| ValidateConsensusValue node_id "'v proposed_block"
| NewEvidence 'k
| SendEvidence node_id 'k
| WeAreFaulty
| DoppelgangerDetected
| FttExceeded
| Disconnect node_id
| HandledProposedBlock "'v proposed_block"

section \<open>Write-ahead log entries (ZugWalEntry)\<close>

datatype ('v, 'h, 'i, 's) wal_entry =
  WalSignedMessage "('h, 'i, 's) signed_message"
| WalProposal "'v proposal" round_id
| WalEvidence "('h, 'i, 's) signed_message" "'h content" 's

section \<open>The context: code the protocol calls\<close>

text \<open>
  \<open>cx_hash_proposal\<close> is \<open>C::hash\<close> of the serialized proposal and \<open>cx_hash_fields\<close> that of the
  serialized fields of a signed message; \<open>cx_sign\<close> and \<open>cx_verify\<close> are \<open>ValidatorSecret::sign\<close> and
  \<open>Context::verify_signature\<close>; \<open>cx_needs_validation\<close> is \<open>ConsensusValueT::needs_validation\<close>;
  \<open>cx_gen\<close> is the generator of the leader sequence; \<open>cx_wal_write log e\<close> says whether appending
  \<open>e\<close> to a log file with the entries \<open>log\<close> succeeds; \<open>cx_exp2\<close> is \<open>f64::exp2\<close>.
\<close>

record ('v, 'h, 's, 'i, 'k, 'x) ctx =
  cx_hash_proposal :: "'v proposal \<Rightarrow> 'h"
  cx_hash_fields :: "round_id \<Rightarrow> 'i \<Rightarrow> 'h content \<Rightarrow> nat \<Rightarrow> 'h"
  cx_sign :: "'x \<Rightarrow> 'h \<Rightarrow> 's"
  cx_verify :: "'h \<Rightarrow> 'k \<Rightarrow> 's \<Rightarrow> bool"
  cx_needs_validation :: "'v \<Rightarrow> bool"
  cx_gen :: "64 word \<Rightarrow> weight \<Rightarrow> weight"
  cx_wal_write :: "('v, 'h, 'i, 's) wal_entry list \<Rightarrow> ('v, 'h, 'i, 's) wal_entry \<Rightarrow> bool"
  cx_exp2 :: "rat \<Rightarrow> rat"

definition hashed_proposal_new ::
  "('v, 'h, 's, 'i, 'k, 'x) ctx \<Rightarrow> 'v proposal \<Rightarrow> ('v, 'h) hashed_proposal" where
  "hashed_proposal_new cx p = \<lparr>hp_hash = cx_hash_proposal cx p, hp_inner = p\<rparr>"

definition proposal_dummy :: "timestamp \<Rightarrow> round_id \<Rightarrow> 'v proposal" where
  "proposal_dummy ts parent_round_id =
     \<lparr>p_timestamp = ts, p_block = None, p_parent = Some parent_round_id, p_inactive = None\<rparr>"

definition proposal_with_block :: "'v proposed_block \<Rightarrow> round_id option \<Rightarrow> nat list \<Rightarrow> 'v proposal" where
  "proposal_with_block pb parent inactive =
     \<lparr>p_timestamp = bc_timestamp (pb_context pb), p_block = Some (pb_value pb),
      p_parent = parent,
      p_inactive = map_option (\<lambda>_. inactive) parent\<rparr>"

definition sign_new ::
  "('v, 'h, 's, 'i, 'k, 'x) ctx \<Rightarrow> round_id \<Rightarrow> 'i \<Rightarrow> 'h content \<Rightarrow> nat \<Rightarrow> 'x \<Rightarrow> ('h, 'i, 's) signed_message"
  where
  "sign_new cx round_id inst content validator_idx secret =
     \<lparr>sm_round_id = round_id, sm_instance_id = inst, sm_content = content,
      sm_validator_idx = validator_idx,
      sm_signature = cx_sign cx secret (cx_hash_fields cx round_id inst content validator_idx)\<rparr>"

definition sm_with ::
  "('h, 'i, 's) signed_message \<Rightarrow> 'h content \<Rightarrow> 's \<Rightarrow> ('h, 'i, 's) signed_message" where
  "sm_with m content signature = m\<lparr>sm_content := content, sm_signature := signature\<rparr>"

definition verify_signature ::
  "('v, 'h, 's, 'i, 'k, 'x) ctx \<Rightarrow> ('h, 'i, 's) signed_message \<Rightarrow> 'k \<Rightarrow> bool" where
  "verify_signature cx m validator_id =
     cx_verify cx
       (cx_hash_fields cx (sm_round_id m) (sm_instance_id m) (sm_content m) (sm_validator_idx m))
       validator_id (sm_signature m)"

text \<open>What the protocol relies on: distinct proposals have distinct hashes.\<close>

definition collision_free :: "('v, 'h, 's, 'i, 'k, 'x) ctx \<Rightarrow> bool" where
  "collision_free cx \<longleftrightarrow> inj (cx_hash_proposal cx)"

text \<open>A secret key's signatures verify under its validator ID.\<close>

definition key_pair :: "('v, 'h, 's, 'i, 'k, 'x) ctx \<Rightarrow> 'k \<Rightarrow> 'x \<Rightarrow> bool" where
  "key_pair cx validator_id secret \<longleftrightarrow> (\<forall>h. cx_verify cx h validator_id (cx_sign cx secret h))"

lemma contradicts_sym: "contradicts a b \<longleftrightarrow> contradicts b a"
  by (cases a; cases b) auto

lemma contradicts_irrefl [simp]: "\<not> contradicts a a"
  by (cases a) auto

lemma sm_with_simps [simp]:
  "sm_round_id (sm_with m c sg) = sm_round_id m" "sm_instance_id (sm_with m c sg) = sm_instance_id m"
  "sm_content (sm_with m c sg) = c" "sm_validator_idx (sm_with m c sg) = sm_validator_idx m"
  "sm_signature (sm_with m c sg) = sg"
  by (simp_all add: sm_with_def)

lemma sign_new_simps [simp]:
  "sm_round_id (sign_new cx r i c v sk) = r" "sm_instance_id (sign_new cx r i c v sk) = i"
  "sm_content (sign_new cx r i c v sk) = c" "sm_validator_idx (sign_new cx r i c v sk) = v"
  by (simp_all add: sign_new_def)

lemma verify_sign_new: "key_pair cx k sk \<Longrightarrow> verify_signature cx (sign_new cx r i c v sk) k"
  by (simp add: key_pair_def verify_signature_def sign_new_def)

lemma hashed_proposal_new_simps [simp]:
  "hp_hash (hashed_proposal_new cx p) = cx_hash_proposal cx p" "hp_inner (hashed_proposal_new cx p) = p"
  by (simp_all add: hashed_proposal_new_def)

end
