(* ===== verification/Zug_Round.thy ===== *)
theory Zug_Round
  imports Zug_Types
begin

text \<open>
  One round of the Zug protocol: \<open>protocols/zug/round.rs\<close>, method by method.

  \<open>votes rd b\<close> is \<open>votes[&b]\<close> (both entries exist from the start); the maps from hashes and
  validator indices to echo signatures are association lists. The lemmas give the effect of every
  method on the proposal, the recorded signatures and the memoized outcome, and show that each of
  them keeps the shape \<open>round_wf\<close> of a round.
\<close>

record 'h round_outcome =
  accepted_proposal_height :: "nat option"
  quorum_echoes_of :: "'h option"
  quorum_votes_of :: "bool option"

record ('v, 'h, 's) round =
  leader_idx :: nat
  proposal :: "('v, 'h) hashed_proposal option"
  echoes :: "('h \<times> (nat \<times> 's) list) list"
  votes :: "bool \<Rightarrow> 's option list"
  outcome_of :: "'h round_outcome"

definition round_outcome_default :: "'h round_outcome" where
  "round_outcome_default =
     \<lparr>accepted_proposal_height = None, quorum_echoes_of = None, quorum_votes_of = None\<rparr>"

definition round_new :: "nat \<Rightarrow> nat \<Rightarrow> ('v, 'h, 's) round" where
  "round_new validator_count lead =
     \<lparr>leader_idx = lead, proposal = None, echoes = [], votes = (\<lambda>_. replicate validator_count None),
      outcome_of = round_outcome_default\<rparr>"

definition has_proposal :: "('v, 'h, 's) round \<Rightarrow> bool" where
  "has_proposal rd \<longleftrightarrow> proposal rd \<noteq> None"

definition quorum_echoes :: "('v, 'h, 's) round \<Rightarrow> 'h option" where
  "quorum_echoes rd = quorum_echoes_of (outcome_of rd)"

definition quorum_votes :: "('v, 'h, 's) round \<Rightarrow> bool option" where
  "quorum_votes rd = quorum_votes_of (outcome_of rd)"

definition has_echoes_for_proposal :: "('v, 'h, 's) round \<Rightarrow> 'h \<Rightarrow> bool" where
  "has_echoes_for_proposal rd hash =
     (case (quorum_echoes rd, map_of (echoes rd) hash) of
        (Some quorum_hash, _) \<Rightarrow> quorum_hash = hash
      | (None, Some echo_map) \<Rightarrow> map_of echo_map (leader_idx rd) \<noteq> None
      | (None, None) \<Rightarrow> False)"

definition insert_proposal ::
  "('v, 'h) hashed_proposal \<Rightarrow> ('v, 'h, 's) round \<Rightarrow> bool \<times> ('v, 'h, 's) round" where
  "insert_proposal hp rd =
     (if has_echoes_for_proposal rd (hp_hash hp) \<and> proposal rd \<noteq> Some hp
      then (True, rd\<lparr>proposal := Some hp\<rparr>) else (False, rd))"

definition insert_echo ::
  "'h \<Rightarrow> nat \<Rightarrow> 's \<Rightarrow> ('v, 'h, 's) round \<Rightarrow> bool \<times> ('v, 'h, 's) round" where
  "insert_echo hash validator_idx signature rd =
     (let echo_map = (case map_of (echoes rd) hash of None \<Rightarrow> [] | Some m \<Rightarrow> m)
      in (map_of echo_map validator_idx = None,
          rd\<lparr>echoes :=
            AList.update hash (AList.update validator_idx signature echo_map) (echoes rd)\<rparr>))"

definition round_has_echoed :: "('v, 'h, 's) round \<Rightarrow> nat \<Rightarrow> bool" where
  "round_has_echoed rd validator_idx \<longleftrightarrow>
     list_ex (\<lambda>(_, echo_map). map_of echo_map validator_idx \<noteq> None) (echoes rd)"

definition set_quorum_echoes :: "'h \<Rightarrow> ('v, 'h, 's) round \<Rightarrow> ('v, 'h, 's) round" where
  "set_quorum_echoes hash rd =
     rd\<lparr>outcome_of := (outcome_of rd)\<lparr>quorum_echoes_of := Some hash\<rparr>,
        proposal := (case proposal rd of
                       Some hp \<Rightarrow> if hp_hash hp \<noteq> hash then None else Some hp
                     | None \<Rightarrow> None)\<rparr>"

definition insert_vote ::
  "bool \<Rightarrow> nat \<Rightarrow> 's \<Rightarrow> ('v, 'h, 's) round \<Rightarrow> (bool \<times> ('v, 'h, 's) round) option" where
  "insert_vote vote validator_idx signature rd =
     do {
       old \<leftarrow> vmap_get (votes rd vote) validator_idx;
       if old = None
       then do {
         vs \<leftarrow> vmap_set (votes rd vote) validator_idx (Some signature);
         Some (True, rd\<lparr>votes := (votes rd)(vote := vs)\<rparr>)
       }
       else Some (False, rd)
     }"

definition round_has_voted :: "('v, 'h, 's) round \<Rightarrow> nat \<Rightarrow> bool option" where
  "round_has_voted rd validator_idx =
     do {
       t \<leftarrow> vmap_get (votes rd True) validator_idx;
       if t \<noteq> None then Some True
       else do { f \<leftarrow> vmap_get (votes rd False) validator_idx; Some (f \<noteq> None) }
     }"

definition set_quorum_votes :: "bool \<Rightarrow> ('v, 'h, 's) round \<Rightarrow> ('v, 'h, 's) round" where
  "set_quorum_votes vote rd = rd\<lparr>outcome_of := (outcome_of rd)\<lparr>quorum_votes_of := Some vote\<rparr>\<rparr>"

definition remove_votes_and_echoes :: "nat \<Rightarrow> ('v, 'h, 's) round \<Rightarrow> ('v, 'h, 's) round option" where
  "remove_votes_and_echoes validator_idx rd =
     do {
       fs \<leftarrow> vmap_set (votes rd False) validator_idx None;
       ts \<leftarrow> vmap_set (votes rd True) validator_idx None;
       Some (rd\<lparr>votes := (\<lambda>b. if b then ts else fs),
                echoes := filter (\<lambda>(_, echo_map). echo_map \<noteq> [])
                  (map (\<lambda>(hash, echo_map). (hash, AList.delete validator_idx echo_map)) (echoes rd))\<rparr>)
     }"

definition set_accepted_proposal_height :: "nat \<Rightarrow> ('v, 'h, 's) round \<Rightarrow> ('v, 'h, 's) round" where
  "set_accepted_proposal_height height rd =
     rd\<lparr>outcome_of := (outcome_of rd)\<lparr>accepted_proposal_height := Some height\<rparr>\<rparr>"

definition round_accepted_proposal ::
  "('v, 'h, 's) round \<Rightarrow> (nat \<times> ('v, 'h) hashed_proposal) option" where
  "round_accepted_proposal rd =
     do {
       height \<leftarrow> accepted_proposal_height (outcome_of rd);
       hp \<leftarrow> proposal rd;
       Some (height, hp)
     }"

definition round_contains :: "('v, 'h, 's) round \<Rightarrow> 'h content \<Rightarrow> nat \<Rightarrow> bool option" where
  "round_contains rd content validator_idx =
     (case content of
        Echo hash \<Rightarrow>
          Some (case map_of (echoes rd) hash of
                  Some echo_map \<Rightarrow> map_of echo_map validator_idx \<noteq> None
                | None \<Rightarrow> False)
      | Vote vote \<Rightarrow> map_option (\<lambda>v. v \<noteq> None) (vmap_get (votes rd vote) validator_idx))"

definition prune_skipped :: "('v, 'h, 's) round \<Rightarrow> ('v, 'h, 's) round" where
  "prune_skipped rd =
     rd\<lparr>proposal := None, outcome_of := (outcome_of rd)\<lparr>accepted_proposal_height := None\<rparr>\<rparr>"

section \<open>The signatures a round holds\<close>

text \<open>
  \<open>holds rd c v sg\<close>: the round stores the signature \<open>sg\<close> of validator \<open>v\<close> for the content \<open>c\<close>.
\<close>

fun holds :: "('v, 'h, 's) round \<Rightarrow> 'h content \<Rightarrow> nat \<Rightarrow> 's \<Rightarrow> bool" where
  "holds rd (Echo hash) v sg \<longleftrightarrow>
     (case map_of (echoes rd) hash of Some echo_map \<Rightarrow> map_of echo_map v = Some sg | None \<Rightarrow> False)"
| "holds rd (Vote vote) v sg \<longleftrightarrow> v < length (votes rd vote) \<and> votes rd vote ! v = Some sg"

definition signers :: "('v, 'h, 's) round \<Rightarrow> 'h content \<Rightarrow> nat set" where
  "signers rd c = {v. \<exists>sg. holds rd c v sg}"

text \<open>The shape of a round of \<open>n\<close> validators.\<close>

definition round_wf :: "nat \<Rightarrow> ('v, 'h, 's) round \<Rightarrow> bool" where
  "round_wf n rd \<longleftrightarrow>
     leader_idx rd < n \<and>
     alist_ok (echoes rd) \<and>
     (\<forall>h m. map_of (echoes rd) h = Some m \<longrightarrow> alist_ok m \<and> alist_keys m \<subseteq> {..<n}) \<and>
     (\<forall>b. length (votes rd b) = n)"

lemma round_wf_leader: "round_wf n rd \<Longrightarrow> leader_idx rd < n"
  by (simp add: round_wf_def)

lemma round_wf_votes: "round_wf n rd \<Longrightarrow> length (votes rd b) = n"
  by (simp add: round_wf_def)

lemma round_wf_echoes: "round_wf n rd \<Longrightarrow> alist_ok (echoes rd)"
  by (simp add: round_wf_def)

lemma round_wf_echo_map:
  "round_wf n rd \<Longrightarrow> map_of (echoes rd) h = Some m \<Longrightarrow> alist_ok m \<and> alist_keys m \<subseteq> {..<n}"
  by (simp add: round_wf_def)

lemma signers_Echo:
  "map_of (echoes rd) h = Some m \<Longrightarrow> signers rd (Echo h) = alist_keys m"
  by (auto simp: signers_def hash_map.lookup_keys)

lemma signers_Vote: "signers rd (Vote b) = {v. v < length (votes rd b) \<and> votes rd b ! v \<noteq> None}"
  by (auto simp: signers_def)

lemma signers_Echo_None: "map_of (echoes rd) h = None \<Longrightarrow> signers rd (Echo h) = {}"
  by (simp add: signers_def)

lemma signers_less: "round_wf n rd \<Longrightarrow> signers rd c \<subseteq> {..<n}"
proof (cases c)
  case (Echo h)
  assume "round_wf n rd"
  with Echo show ?thesis
    by (cases "map_of (echoes rd) h") (simp_all add: signers_Echo signers_Echo_None round_wf_echo_map)
next
  case (Vote b)
  assume "round_wf n rd"
  with Vote show ?thesis
    by (auto simp: signers_Vote round_wf_votes)
qed

lemma round_has_echoed_iff:
  assumes "round_wf n rd"
  shows "round_has_echoed rd v \<longleftrightarrow> (\<exists>h. v \<in> signers rd (Echo h))"
proof -
  have "(\<exists>(h, m) \<in> set (echoes rd). map_of m v \<noteq> None) \<longleftrightarrow>
    (\<exists>h m. map_of (echoes rd) h = Some m \<and> map_of m v \<noteq> None)"
    using round_wf_echoes [OF assms] by (auto simp: alist_ok_def)
  then show ?thesis
    by (force simp: round_has_echoed_def list_ex_iff signers_def split: option.splits)
qed

lemma round_has_voted_iff:
  assumes "round_wf n rd" and "v < n"
  shows "round_has_voted rd v = Some (\<exists>b. v \<in> signers rd (Vote b))"
proof -
  have "(\<exists>b. v \<in> signers rd (Vote b)) \<longleftrightarrow> votes rd True ! v \<noteq> None \<or> votes rd False ! v \<noteq> None"
    using assms round_wf_votes [OF assms(1)] by (auto simp: signers_Vote ex_bool_eq)
  then show ?thesis
    using assms round_wf_votes [OF assms(1)] by (simp add: round_has_voted_def vmap_get_def)
qed

lemma round_contains_iff:
  assumes "round_wf n rd" and "v < n"
  shows "round_contains rd c v = Some (v \<in> signers rd c)"
proof (cases c)
  case (Echo h)
  then show ?thesis
    by (cases "map_of (echoes rd) h") (simp_all add: round_contains_def signers_def)
next
  case (Vote b)
  then show ?thesis
    using assms round_wf_votes [OF assms(1), of b] by (simp add: round_contains_def vmap_get_def signers_def)
qed

section \<open>The effect of the methods\<close>

lemma round_new_wf: "l < n \<Longrightarrow> round_wf n (round_new n l)"
  by (simp add: round_wf_def round_new_def)

lemma round_new_simps [simp]:
  "leader_idx (round_new n l) = l" "proposal (round_new n l) = None" "echoes (round_new n l) = []"
  "votes (round_new n l) b = replicate n None"
  "quorum_echoes (round_new n l) = None" "quorum_votes (round_new n l) = None"
  "accepted_proposal_height (outcome_of (round_new n l)) = None"
  by (simp_all add: round_new_def quorum_echoes_def quorum_votes_def round_outcome_default_def)

lemma holds_round_new [simp]: "\<not> holds (round_new n l) c v sg"
  by (cases c) auto

lemma signers_round_new [simp]: "signers (round_new n l) c = {}"
  by (simp add: signers_def)

lemma quorum_simps [simp]:
  "quorum_echoes (rd\<lparr>echoes := es\<rparr>) = quorum_echoes rd"
  "quorum_votes (rd\<lparr>echoes := es\<rparr>) = quorum_votes rd"
  "quorum_echoes (rd\<lparr>votes := vs\<rparr>) = quorum_echoes rd"
  "quorum_votes (rd\<lparr>votes := vs\<rparr>) = quorum_votes rd"
  "quorum_echoes (rd\<lparr>proposal := p\<rparr>) = quorum_echoes rd"
  "quorum_votes (rd\<lparr>proposal := p\<rparr>) = quorum_votes rd"
  by (simp_all add: quorum_echoes_def quorum_votes_def)

lemma holds_cong:
  assumes "echoes rd' = echoes rd" and "votes rd' = votes rd"
  shows "holds rd' = holds rd"
proof (intro ext)
  fix c v sg
  show "holds rd' c v sg = holds rd c v sg"
    using assms by (cases c) simp_all
qed

lemma signers_cong: "echoes rd' = echoes rd \<Longrightarrow> votes rd' = votes rd \<Longrightarrow> signers rd' = signers rd"
  using holds_cong [of rd' rd] by (simp add: signers_def fun_eq_iff)

lemma round_wf_cong:
  "leader_idx rd' = leader_idx rd \<Longrightarrow> echoes rd' = echoes rd \<Longrightarrow> votes rd' = votes rd \<Longrightarrow>
    round_wf n rd' = round_wf n rd"
  by (simp add: round_wf_def)

paragraph \<open>Echoes.\<close>

lemma insert_echo_new: "fst (insert_echo h v sg rd) \<longleftrightarrow> v \<notin> signers rd (Echo h)"
  by (cases "map_of (echoes rd) h") (auto simp: insert_echo_def signers_def)

lemma insert_echo_simps [simp]:
  "leader_idx (snd (insert_echo h v sg rd)) = leader_idx rd"
  "proposal (snd (insert_echo h v sg rd)) = proposal rd"
  "votes (snd (insert_echo h v sg rd)) = votes rd"
  "outcome_of (snd (insert_echo h v sg rd)) = outcome_of rd"
  "quorum_echoes (snd (insert_echo h v sg rd)) = quorum_echoes rd"
  "quorum_votes (snd (insert_echo h v sg rd)) = quorum_votes rd"
  by (simp_all add: insert_echo_def Let_def)

lemma holds_insert_echo:
  "holds (snd (insert_echo h v sg rd)) c w sg' \<longleftrightarrow>
    (if c = Echo h \<and> w = v then sg' = sg else holds rd c w sg')"
proof (cases c)
  case (Echo h')
  then show ?thesis
    by (cases "map_of (echoes rd) h") (auto simp: insert_echo_def)
next
  case (Vote b)
  then show ?thesis by simp
qed

lemma signers_insert_echo:
  "signers (snd (insert_echo h v sg rd)) c =
    (if c = Echo h then insert v (signers rd c) else signers rd c)"
  by (auto simp: signers_def holds_insert_echo)

lemma round_wf_insert_echo:
  assumes "round_wf n rd" and "v < n"
  shows "round_wf n (snd (insert_echo h v sg rd))"
proof -
  define old where "old = (case map_of (echoes rd) h of None \<Rightarrow> [] | Some m \<Rightarrow> m)"
  have "alist_ok old \<and> alist_keys old \<subseteq> {..<n}"
    using round_wf_echo_map [OF assms(1), of h]
    by (cases "map_of (echoes rd) h") (simp_all add: old_def)
  then have upd: "alist_ok (AList.update v sg old) \<and> alist_keys (AList.update v sg old) \<subseteq> {..<n}"
    using assms(2) by simp
  have lookup: "map_of (echoes (snd (insert_echo h v sg rd))) h' =
    (if h' = h then Some (AList.update v sg old) else map_of (echoes rd) h')" for h'
    by (simp add: insert_echo_def Let_def old_def)
  have "alist_ok m \<and> alist_keys m \<subseteq> {..<n}"
    if "map_of (echoes (snd (insert_echo h v sg rd))) h' = Some m" for h' m
    using that upd round_wf_echo_map [OF assms(1), of h' m] unfolding lookup
    by (cases "h' = h") simp_all
  moreover have "alist_ok (echoes (snd (insert_echo h v sg rd)))"
    using round_wf_echoes [OF assms(1)] by (simp add: insert_echo_def Let_def)
  ultimately show ?thesis
    using assms by (simp add: round_wf_def)
qed

lemma map_of_insert_echo: "map_of (echoes (snd (insert_echo h v sg rd))) h \<noteq> None"
  by (simp add: insert_echo_def Let_def)

paragraph \<open>Votes.\<close>

definition with_vote :: "bool \<Rightarrow> nat \<Rightarrow> 's \<Rightarrow> ('v, 'h, 's) round \<Rightarrow> ('v, 'h, 's) round" where
  "with_vote b v sg rd = rd\<lparr>votes := (votes rd)(b := (votes rd b)[v := Some sg])\<rparr>"

lemma insert_vote_eq:
  assumes "round_wf n rd" and "v < n"
  shows "insert_vote b v sg rd =
    Some (if v \<in> signers rd (Vote b) then (False, rd) else (True, with_vote b v sg rd))"
  using assms
  by (auto simp: insert_vote_def vmap_get_def vmap_set_def signers_Vote round_wf_votes with_vote_def)

lemma with_vote_simps [simp]:
  "leader_idx (with_vote b v sg rd) = leader_idx rd"
  "proposal (with_vote b v sg rd) = proposal rd"
  "echoes (with_vote b v sg rd) = echoes rd"
  "outcome_of (with_vote b v sg rd) = outcome_of rd"
  "quorum_echoes (with_vote b v sg rd) = quorum_echoes rd"
  "quorum_votes (with_vote b v sg rd) = quorum_votes rd"
  by (simp_all add: with_vote_def)

lemma holds_with_vote:
  assumes "round_wf n rd" and "v < n"
  shows "holds (with_vote b v sg rd) c w sg' \<longleftrightarrow>
    (if c = Vote b \<and> w = v then sg' = sg else holds rd c w sg')"
  using assms by (cases c) (auto simp: with_vote_def round_wf_votes nth_list_update)

lemma signers_with_vote:
  assumes "round_wf n rd" and "v < n"
  shows "signers (with_vote b v sg rd) c = (if c = Vote b then insert v (signers rd c) else signers rd c)"
  using holds_with_vote [OF assms] by (auto simp: signers_def)

lemma round_wf_with_vote: "round_wf n rd \<Longrightarrow> round_wf n (with_vote b v sg rd)"
  by (simp add: round_wf_def with_vote_def)

paragraph \<open>Removing a validator.\<close>

definition without :: "nat \<Rightarrow> ('v, 'h, 's) round \<Rightarrow> ('v, 'h, 's) round" where
  "without v rd =
     rd\<lparr>votes := (\<lambda>b. (votes rd b)[v := None]),
        echoes := filter (\<lambda>(_, m). m \<noteq> []) (map (\<lambda>(h, m). (h, AList.delete v m)) (echoes rd))\<rparr>"

lemma remove_votes_and_echoes_eq:
  assumes "round_wf n rd" and "v < n"
  shows "remove_votes_and_echoes v rd = Some (without v rd)"
proof -
  have "(\<lambda>b. if b then (votes rd True)[v := None] else (votes rd False)[v := None]) =
    (\<lambda>b. (votes rd b)[v := None])"
    by auto
  then show ?thesis
    using assms by (simp add: remove_votes_and_echoes_def vmap_set_def round_wf_votes without_def)
qed

lemma without_simps [simp]:
  "leader_idx (without v rd) = leader_idx rd"
  "proposal (without v rd) = proposal rd"
  "outcome_of (without v rd) = outcome_of rd"
  "quorum_echoes (without v rd) = quorum_echoes rd"
  "quorum_votes (without v rd) = quorum_votes rd"
  by (simp_all add: without_def quorum_echoes_def quorum_votes_def)

lemma map_of_echoes_without:
  assumes "round_wf n rd"
  shows "map_of (echoes (without v rd)) h =
    (case map_of (echoes rd) h of
       None \<Rightarrow> None
     | Some m \<Rightarrow> if AList.delete v m = [] then None else Some (AList.delete v m))"
proof -
  have "alist_ok (map (\<lambda>(h, m). (h, AList.delete v m)) (echoes rd))"
    using round_wf_echoes [OF assms] by simp
  then show ?thesis
    by (cases "map_of (echoes rd) h") (simp_all add: without_def map_of_filter_snd map_of_map_snd)
qed

lemma delete_all_but:
  assumes "AList.delete v m = []" and "w \<noteq> v"
  shows "map_of m w = None"
proof -
  have "map_of (AList.delete v m) w = map_of m w"
    using assms(2) by simp
  with assms(1) show ?thesis by simp
qed

lemma holds_without:
  assumes "round_wf n rd"
  shows "holds (without v rd) c w sg \<longleftrightarrow> w \<noteq> v \<and> holds rd c w sg"
proof (cases c)
  case (Echo h)
  then show ?thesis
    by (cases "map_of (echoes rd) h")
      (auto simp: map_of_echoes_without [OF assms] dest: delete_all_but split: if_splits)
next
  case (Vote b)
  then show ?thesis
    using assms by (cases "w = v") (auto simp: without_def round_wf_votes)
qed

lemma signers_without: "round_wf n rd \<Longrightarrow> signers (without v rd) c = signers rd c - {v}"
  by (auto simp: signers_def holds_without)

lemma round_wf_without:
  assumes "round_wf n rd"
  shows "round_wf n (without v rd)"
proof -
  have "alist_ok m \<and> alist_keys m \<subseteq> {..<n}" if "map_of (echoes (without v rd)) h = Some m" for h m
    using that round_wf_echo_map [OF assms, of h]
    by (cases "map_of (echoes rd) h") (auto simp: map_of_echoes_without [OF assms] split: if_splits)
  moreover have "alist_ok (echoes (without v rd))"
    using round_wf_echoes [OF assms] by (simp add: without_def)
  ultimately show ?thesis
    using assms by (simp add: round_wf_def without_def)
qed

paragraph \<open>The outcome.\<close>

lemma set_quorum_echoes_simps [simp]:
  "leader_idx (set_quorum_echoes h rd) = leader_idx rd"
  "echoes (set_quorum_echoes h rd) = echoes rd"
  "votes (set_quorum_echoes h rd) = votes rd"
  "quorum_echoes (set_quorum_echoes h rd) = Some h"
  "quorum_votes (set_quorum_echoes h rd) = quorum_votes rd"
  "accepted_proposal_height (outcome_of (set_quorum_echoes h rd)) = accepted_proposal_height (outcome_of rd)"
  by (simp_all add: set_quorum_echoes_def quorum_echoes_def quorum_votes_def)

lemma proposal_set_quorum_echoes:
  "proposal (set_quorum_echoes h rd) = Some hp \<longleftrightarrow> proposal rd = Some hp \<and> hp_hash hp = h"
  by (auto simp: set_quorum_echoes_def split: option.splits)

lemma set_quorum_votes_simps [simp]:
  "leader_idx (set_quorum_votes b rd) = leader_idx rd"
  "proposal (set_quorum_votes b rd) = proposal rd"
  "echoes (set_quorum_votes b rd) = echoes rd"
  "votes (set_quorum_votes b rd) = votes rd"
  "quorum_echoes (set_quorum_votes b rd) = quorum_echoes rd"
  "quorum_votes (set_quorum_votes b rd) = Some b"
  "accepted_proposal_height (outcome_of (set_quorum_votes b rd)) = accepted_proposal_height (outcome_of rd)"
  by (simp_all add: set_quorum_votes_def quorum_echoes_def quorum_votes_def)

lemma set_accepted_proposal_height_simps [simp]:
  "leader_idx (set_accepted_proposal_height k rd) = leader_idx rd"
  "proposal (set_accepted_proposal_height k rd) = proposal rd"
  "echoes (set_accepted_proposal_height k rd) = echoes rd"
  "votes (set_accepted_proposal_height k rd) = votes rd"
  "quorum_echoes (set_accepted_proposal_height k rd) = quorum_echoes rd"
  "quorum_votes (set_accepted_proposal_height k rd) = quorum_votes rd"
  "accepted_proposal_height (outcome_of (set_accepted_proposal_height k rd)) = Some k"
  by (simp_all add: set_accepted_proposal_height_def quorum_echoes_def quorum_votes_def)

lemma prune_skipped_simps [simp]:
  "leader_idx (prune_skipped rd) = leader_idx rd"
  "proposal (prune_skipped rd) = None"
  "echoes (prune_skipped rd) = echoes rd"
  "votes (prune_skipped rd) = votes rd"
  "quorum_echoes (prune_skipped rd) = quorum_echoes rd"
  "quorum_votes (prune_skipped rd) = quorum_votes rd"
  "accepted_proposal_height (outcome_of (prune_skipped rd)) = None"
  by (simp_all add: prune_skipped_def quorum_echoes_def quorum_votes_def)

lemma prune_round_new [simp]: "prune_skipped (round_new n l) = round_new n l"
  by (simp add: prune_skipped_def round_new_def round_outcome_default_def)

lemma round_accepted_proposal_Some:
  "round_accepted_proposal rd = Some (k, hp) \<longleftrightarrow>
    accepted_proposal_height (outcome_of rd) = Some k \<and> proposal rd = Some hp"
  by (auto simp: round_accepted_proposal_def Option.bind_eq_Some_conv)

lemma round_accepted_proposal_new [simp]: "round_accepted_proposal (round_new n l) = None"
  by (simp add: round_accepted_proposal_def)

end
