(* ===== verification/Zug_State.thy ===== *)
theory Zug_State
  imports Zug_Round
begin

unbundle bit_operations_syntax

text \<open>
  The state of a Zug instance and the read-only part of \<open>protocols/zug.rs\<close>: the constructor, the
  accessors, quorums and the walk from a round to its ancestors.

  The state record has the fields of \<open>struct Zug\<close> in their order. \<open>f64\<close> arithmetic is exact
  rational arithmetic. An open write-ahead log is the list of entries in its file. Methods that can
  panic (out-of-range validator indices, a leader drawn from a sequence without leaders) or walk a
  chain of parents return an option, whose \<open>None\<close> is the panic or the endless walk.
\<close>

record 'x active_validator =
  av_idx :: nat
  av_secret :: 'x

record ('v, 'h, 's, 'i, 'k, 'x) zug =
  params :: "'i params"
  proposal_timeout_millis :: rat
  validators :: "'k validators"
  active_validator :: "'x active_validator option"
  evidence_only :: bool
  proposals_waiting_for_parent ::
    "(round_id \<times> (('v, 'h) hashed_proposal \<times> (round_id \<times> node_id) list) list) list"
  proposals_waiting_for_validation ::
    "('v proposed_block \<times> (round_id \<times> ('v, 'h) hashed_proposal \<times> node_id) list) list"
  pending_proposal :: "('v block_context \<times> round_id \<times> round_id option) option"
  leader_sequence :: leader_sequence
  rounds :: "(round_id \<times> ('v, 'h, 's) round) list"
  faults :: "(nat \<times> ('h, 'i, 's) fault) list"
  config :: zug_config
  active :: "('h, 'i, 's) signed_message option list"
  first_non_finalized_round_id :: round_id
  maybe_dirty_round_id :: "round_id option"
  current_round :: round_id
  current_round_start :: timestamp
  progress_detected :: bool
  paused :: bool
  next_scheduled_update :: timestamp
  write_wal :: "('v, 'h, 'i, 's) wal_entry list option"
  sent_sync_requests :: "(nat \<times> timestamp) list"

section \<open>Construction\<close>

definition new_with_params ::
  "'k validators \<Rightarrow> 'i params \<Rightarrow> zug_config \<Rightarrow> rat option \<Rightarrow> 64 word \<Rightarrow>
     ('v, 'h, 's, 'i, 'k, 'x) zug option" where
  "new_with_params vs ps cfg prev_timeout seed =
     do {
       let weights = validator_weights vs;
       let timeout =
         (case prev_timeout of
            Some t \<Rightarrow> t
          | None \<Rightarrow> of_nat (proposal_timeout cfg) * (of_nat (proposal_grace_period cfg) / 100 + 1));
       can_propose \<leftarrow> for_each (\<lambda>vidx m. vmap_set m vidx False) (iter_cannot_propose_idx vs)
         (map (\<lambda>_. True) weights);
       ls \<leftarrow> leader_sequence_new seed weights can_propose;
       Some
         \<lparr>params = ps,
          proposal_timeout_millis = timeout,
          validators = vs,
          active_validator = None,
          evidence_only = False,
          proposals_waiting_for_parent = [],
          proposals_waiting_for_validation = [],
          pending_proposal = None,
          leader_sequence = ls,
          rounds = [],
          faults = map (\<lambda>idx. (idx, Banned)) (iter_banned_idx vs),
          config = cfg,
          active = map (\<lambda>_. None) weights,
          first_non_finalized_round_id = 0,
          maybe_dirty_round_id = None,
          current_round = 0,
          current_round_start = u64_max,
          progress_detected = False,
          paused = False,
          next_scheduled_update = u64_max,
          write_wal = None,
          sent_sync_requests = []\<rparr>
     }"

text \<open>The fields of \<open>Chainspec::core_config\<close> that the constructor reads.\<close>

record core_config =
  minimum_block_time :: nat
  minimum_era_height :: nat
  era_duration :: nat
  finality_threshold_fraction :: "nat \<times> nat"

definition zug_new ::
  "'i \<Rightarrow> ('k::linorder \<times> nat) list \<Rightarrow> 'k list \<Rightarrow> 'k list \<Rightarrow> core_config \<Rightarrow> zug_config \<Rightarrow> rat option \<Rightarrow>
     timestamp \<Rightarrow> 64 word \<Rightarrow> ('v, 'h, 's, 'i, 'k, 'x) zug option" where
  "zug_new inst validator_stakes faulty inactive core cfg prev_timeout era_start_time seed =
     do {
       vs \<leftarrow> common_validators faulty inactive validator_stakes;
       t \<leftarrow> common_ftt (finality_threshold_fraction core) vs;
       new_with_params vs
         \<lparr>instance_id = inst,
          min_block_time = minimum_block_time core,
          start_timestamp = era_start_time,
          end_height = minimum_era_height core,
          end_timestamp = sat_add64 era_start_time (era_duration core),
          ftt = t\<rparr>
         cfg prev_timeout seed
     }"

section \<open>Rounds\<close>

definition our_idx :: "('v, 'h, 's, 'i, 'k, 'x) zug \<Rightarrow> nat option" where
  "our_idx z = map_option av_idx (active_validator z)"

definition zround :: "('v, 'h, 's, 'i, 'k, 'x) zug \<Rightarrow> round_id \<Rightarrow> ('v, 'h, 's) round option" where
  "zround z r = map_of (rounds z) r"

definition accepted_proposal ::
  "('v, 'h, 's, 'i, 'k, 'x) zug \<Rightarrow> round_id \<Rightarrow> (nat \<times> ('v, 'h) hashed_proposal) option" where
  "accepted_proposal z r = Option.bind (zround z r) round_accepted_proposal"

definition has_accepted_proposal :: "('v, 'h, 's, 'i, 'k, 'x) zug \<Rightarrow> round_id \<Rightarrow> bool" where
  "has_accepted_proposal z r \<longleftrightarrow> accepted_proposal z r \<noteq> None"

definition accepted_switch_block :: "('v, 'h, 's, 'i, 'k, 'x) zug \<Rightarrow> round_id \<Rightarrow> bool" where
  "accepted_switch_block z r =
     (case accepted_proposal z r of
        None \<Rightarrow> False
      | Some (height, hp) \<Rightarrow>
          maybe_block hp \<noteq> None \<and>
          end_height (params z) \<le> sat_add64 height 1 \<and>
          end_timestamp (params z) \<le> hp_timestamp hp)"

definition accepted_dummy_proposal :: "('v, 'h, 's, 'i, 'k, 'x) zug \<Rightarrow> round_id \<Rightarrow> bool" where
  "accepted_dummy_proposal z r =
     (case accepted_proposal z r of
        None \<Rightarrow> False
      | Some (_, hp) \<Rightarrow> maybe_block hp = None)"

definition finalized_switch_block :: "('v, 'h, 's, 'i, 'k, 'x) zug \<Rightarrow> bool" where
  "finalized_switch_block z =
     (case first_non_finalized_round_id z of
        0 \<Rightarrow> False
      | Suc r \<Rightarrow> accepted_switch_block z r \<or> accepted_dummy_proposal z r)"

definition has_echoed :: "('v, 'h, 's, 'i, 'k, 'x) zug \<Rightarrow> round_id \<Rightarrow> nat \<Rightarrow> bool" where
  "has_echoed z r validator_idx =
     (case zround z r of None \<Rightarrow> False | Some rd \<Rightarrow> round_has_echoed rd validator_idx)"

definition has_voted :: "('v, 'h, 's, 'i, 'k, 'x) zug \<Rightarrow> round_id \<Rightarrow> nat \<Rightarrow> bool option" where
  "has_voted z r validator_idx =
     (case zround z r of None \<Rightarrow> Some False | Some rd \<Rightarrow> round_has_voted rd validator_idx)"

definition is_skippable_round :: "('v, 'h, 's, 'i, 'k, 'x) zug \<Rightarrow> round_id \<Rightarrow> bool" where
  "is_skippable_round z r \<longleftrightarrow> Option.bind (zround z r) quorum_votes = Some False"

definition is_committed_round :: "('v, 'h, 's, 'i, 'k, 'x) zug \<Rightarrow> round_id \<Rightarrow> bool" where
  "is_committed_round z r \<longleftrightarrow> Option.bind (zround z r) quorum_votes = Some True"

definition zug_leader ::
  "('v, 'h, 's, 'i, 'k, 'x) ctx \<Rightarrow> ('v, 'h, 's, 'i, 'k, 'x) zug \<Rightarrow> round_id \<Rightarrow> nat option" where
  "zug_leader cx z r =
     (case zround z r of
        Some rd \<Rightarrow> Some (leader_idx rd)
      | None \<Rightarrow> leader (cx_gen cx) (leader_sequence z) (word_of_nat r))"

definition put_round ::
  "round_id \<Rightarrow> ('v, 'h, 's) round \<Rightarrow> ('v, 'h, 's, 'i, 'k, 'x) zug \<Rightarrow> ('v, 'h, 's, 'i, 'k, 'x) zug" where
  "put_round r rd z = z\<lparr>rounds := AList.update r rd (rounds z)\<rparr>"

text \<open>
  \<open>round_mut\<close> returns the round, creating it in the state if it does not exist; the caller writes
  the modified round back with \<open>put_round\<close>.
\<close>

definition round_mut ::
  "('v, 'h, 's, 'i, 'k, 'x) ctx \<Rightarrow> round_id \<Rightarrow> ('v, 'h, 's, 'i, 'k, 'x) zug \<Rightarrow>
     (('v, 'h, 's) round \<times> ('v, 'h, 's, 'i, 'k, 'x) zug) option" where
  "round_mut cx r z =
     (case zround z r of
        Some rd \<Rightarrow> Some (rd, z)
      | None \<Rightarrow>
          do {
            l \<leftarrow> leader (cx_gen cx) (leader_sequence z) (word_of_nat r);
            let rd = round_new (vs_len (validators z)) l;
            Some (rd, put_round r rd z)
          })"

definition create_round ::
  "('v, 'h, 's, 'i, 'k, 'x) ctx \<Rightarrow> round_id \<Rightarrow> ('v, 'h, 's, 'i, 'k, 'x) zug \<Rightarrow>
     ('v, 'h, 's, 'i, 'k, 'x) zug option" where
  "create_round cx r z = map_option snd (round_mut cx r z)"

definition mark_dirty ::
  "round_id \<Rightarrow> ('v, 'h, 's, 'i, 'k, 'x) zug \<Rightarrow> ('v, 'h, 's, 'i, 'k, 'x) zug" where
  "mark_dirty r z =
     (if r \<le> current_round z \<and>
         (case maybe_dirty_round_id z of None \<Rightarrow> True | Some d \<Rightarrow> r < d)
      then z\<lparr>maybe_dirty_round_id := Some r\<rparr> else z)"

text \<open>\<open>rounds.keys().last()\<close>: the highest key of the \<open>BTreeMap\<close>.\<close>

definition last_round_id :: "('v, 'h, 's, 'i, 'k, 'x) zug \<Rightarrow> round_id option" where
  "last_round_id z = (if rounds z = [] then None else Some (foldr max (map fst (rounds z)) 0))"

section \<open>Quorums\<close>

text \<open>Summing wraps at 64 bits.\<close>

fun sum_weights :: "'k validators \<Rightarrow> nat list \<Rightarrow> weight option" where
  "sum_weights vs [] = Some 0"
| "sum_weights vs (vidx # vidxs) =
     do { w \<leftarrow> weight_at vs vidx; t \<leftarrow> sum_weights vs vidxs; Some (w + t) }"

definition is_faulty :: "('v, 'h, 's, 'i, 'k, 'x) zug \<Rightarrow> nat \<Rightarrow> bool" where
  "is_faulty z vidx \<longleftrightarrow> map_of (faults z) vidx \<noteq> None"

definition faulty_weight :: "('v, 'h, 's, 'i, 'k, 'x) zug \<Rightarrow> weight option" where
  "faulty_weight z = sum_weights (validators z) (map fst (faults z))"

definition quorum_threshold :: "('v, 'h, 's, 'i, 'k, 'x) zug \<Rightarrow> weight" where
  "quorum_threshold z =
     (let tw = total_weight (validators z); t = ftt (params z);
          sum = tw + t; sum_overflow = (2 ^ 64 \<le> unat tw + unat t)
      in if sum_overflow then (sum div 2) OR push_bit 63 1 else sum div 2)"

fun is_quorum_loop ::
  "('v, 'h, 's, 'i, 'k, 'x) zug \<Rightarrow> weight \<Rightarrow> weight \<Rightarrow> nat list \<Rightarrow> bool option" where
  "is_quorum_loop z threshold acc [] = Some False"
| "is_quorum_loop z threshold acc (vidx # vidxs) =
     (if is_faulty z vidx then is_quorum_loop z threshold acc vidxs
      else do {
        w \<leftarrow> weight_at (validators z) vidx;
        let acc' = weight_saturating_add acc w;
        if threshold < acc' then Some True else is_quorum_loop z threshold acc' vidxs
      })"

definition is_quorum :: "('v, 'h, 's, 'i, 'k, 'x) zug \<Rightarrow> nat list \<Rightarrow> bool option" where
  "is_quorum z vidxs =
     do {
       sum \<leftarrow> faulty_weight z;
       let threshold = quorum_threshold z;
       if threshold < sum then Some True else is_quorum_loop z threshold sum vidxs
     }"

section \<open>Ancestors\<close>

text \<open>
  The loop of \<open>ancestor_values\<close>: \<open>None\<close> if it never ends, \<open>Some None\<close> if some round on the way
  has no accepted proposal.
\<close>

partial_function (option) ancestor_values_loop ::
  "('v, 'h, 's, 'i, 'k, 'x) zug \<Rightarrow> round_id \<Rightarrow> 'v list \<Rightarrow> 'v list option option" where
  "ancestor_values_loop z r acc =
     (case accepted_proposal z r of
        None \<Rightarrow> Some None
      | Some (_, hp) \<Rightarrow>
          (let acc' = acc @ (case maybe_block hp of None \<Rightarrow> [] | Some b \<Rightarrow> [b])
           in case maybe_parent_round_id hp of
                None \<Rightarrow> Some (Some acc')
              | Some q \<Rightarrow> ancestor_values_loop z q acc'))"

declare ancestor_values_loop.simps [code]

definition ancestor_values ::
  "('v, 'h, 's, 'i, 'k, 'x) zug \<Rightarrow> round_id \<Rightarrow> 'v list option option" where
  "ancestor_values z r = ancestor_values_loop z r []"

text \<open>
  \<open>suitable_parent_round\<close> walks down from the round before the current one, remembering the
  accepted proposal that can be built on soonest.
\<close>

fun suitable_parent_loop ::
  "('v, 'h, 's, 'i, 'k, 'x) zug \<Rightarrow> timestamp \<Rightarrow> (round_id option \<times> timestamp) option \<Rightarrow> round_id \<Rightarrow>
     (round_id option \<times> timestamp) option" where
  "suitable_parent_loop z now maybe_parent 0 = Some (None, start_timestamp (params z))"
| "suitable_parent_loop z now maybe_parent (Suc r) =
     (let below = (\<lambda>mp. if \<not> is_skippable_round z r then mp
                        else suitable_parent_loop z now mp r)
      in case accepted_proposal z r of
           Some (_, parent) \<Rightarrow>
             (let ts = sat_add64 (hp_timestamp parent) (min_block_time (params z))
              in if ts \<le> now then Some (Some r, ts)
                 else below (case maybe_parent of
                               None \<Rightarrow> Some (Some r, ts)
                             | Some (_, ts2) \<Rightarrow> if ts < ts2 then Some (Some r, ts) else maybe_parent))
         | None \<Rightarrow> below maybe_parent)"

definition suitable_parent_round ::
  "('v, 'h, 's, 'i, 'k, 'x) zug \<Rightarrow> timestamp \<Rightarrow> (round_id option \<times> timestamp) option" where
  "suitable_parent_round z now = suitable_parent_loop z now None (current_round z)"

section \<open>Faults seen in messages\<close>

fun find_echo :: "'h \<Rightarrow> nat \<Rightarrow> ('h \<times> (nat \<times> 's) list) list \<Rightarrow> ('h content \<times> 's) option" where
  "find_echo hash validator_idx [] = None"
| "find_echo hash validator_idx ((hash2, echo_map) # es) =
     (if hash2 = hash then find_echo hash validator_idx es
      else case map_of echo_map validator_idx of
             Some sg \<Rightarrow> Some (Echo hash2, sg)
           | None \<Rightarrow> find_echo hash validator_idx es)"

definition detect_fault ::
  "('v, 'h, 's, 'i, 'k, 'x) zug \<Rightarrow> ('h, 'i, 's) signed_message \<Rightarrow> ('h content \<times> 's) option option" where
  "detect_fault z m =
     (case zround z (sm_round_id m) of
        None \<Rightarrow> Some None
      | Some rd \<Rightarrow>
          (case sm_content m of
             Echo hash \<Rightarrow> Some (find_echo hash (sm_validator_idx m) (echoes rd))
           | Vote vote \<Rightarrow>
               do {
                 v \<leftarrow> vmap_get (votes rd (\<not> vote)) (sm_validator_idx m);
                 Some (map_option (\<lambda>sg. (Vote (\<not> vote), sg)) v)
               }))"

section \<open>Timeouts\<close>

text \<open>The cast from \<open>f64\<close> to \<open>u64\<close> truncates and saturates.\<close>

definition f64_as_u64 :: "rat \<Rightarrow> nat" where
  "f64_as_u64 x = min (nat \<lfloor>x\<rfloor>) u64_max"

definition zug_proposal_timeout :: "('v, 'h, 's, 'i, 'k, 'x) zug \<Rightarrow> nat" where
  "zug_proposal_timeout z = f64_as_u64 (proposal_timeout_millis z)"

definition update_proposal_timeout ::
  "('v, 'h, 's, 'i, 'k, 'x) ctx \<Rightarrow> timestamp \<Rightarrow> ('v, 'h, 's, 'i, 'k, 'x) zug \<Rightarrow>
     ('v, 'h, 's, 'i, 'k, 'x) zug" where
  "update_proposal_timeout cx now z =
     (let proposal_delay_millis = of_nat (now - current_round_start z);
          grace_period_factor = of_nat (proposal_grace_period (config z)) / 100 + 1;
          target_timeout = proposal_delay_millis * grace_period_factor;
          inertia = of_nat (proposal_timeout_inertia (config z));
          ft = of_nat (unat (ftt (params z))) / of_nat (unat (total_weight (validators z)));
          old = proposal_timeout_millis z
      in if old < target_timeout
         then z\<lparr>proposal_timeout_millis :=
                min (old * cx_exp2 cx (1 / (inertia * (1 - ft)))) target_timeout\<rparr>
         else z\<lparr>proposal_timeout_millis :=
                max (old * cx_exp2 cx (- 1 / (inertia * (1 + ft))))
                  (max (of_nat (proposal_timeout (config z))) target_timeout)\<rparr>)"

end
