(* ===== verification/Zug_Quorum.thy ===== *)
theory Zug_Quorum
  imports Zug_State
begin

text \<open>
  Quorums (\<open>quorum_threshold\<close>, \<open>faulty_weight\<close>, \<open>sum_weights\<close> and \<open>is_quorum\<close> of
  \<open>protocols/zug.rs\<close>) against their specification over natural numbers: the threshold is half of the
  total weight plus the fault tolerance threshold although their sum may overflow, the sums are
  exact, and \<open>is_quorum\<close> decides whether the given validators and the faulty ones together exceed the
  threshold. The locale \<open>quorum_system\<close> is what the safety argument needs of quorums; it is
  interpreted on the weights of a validator set.
\<close>

section \<open>Quorum systems\<close>

text \<open>
  A finite set of members with weights, and sets of members heavier than half of the total weight
  plus a tolerated weight. Any two of them share more than the tolerated weight.
\<close>

locale quorum_system =
  fixes members :: "'a set"
    and weight_of :: "'a \<Rightarrow> nat"
    and tolerated :: nat
    and is_quorum_set :: "'a set \<Rightarrow> bool"
  assumes finite_members: "finite members"
    and quorum_members: "is_quorum_set Q \<Longrightarrow> Q \<subseteq> members"
    and quorum_heavy: "is_quorum_set Q \<Longrightarrow> sum weight_of members + tolerated < 2 * sum weight_of Q"
begin

lemma quorum_intersection_weight:
  assumes "is_quorum_set P" and "is_quorum_set Q"
  shows "tolerated < sum weight_of (P \<inter> Q)"
proof -
  have fin: "finite P" "finite Q"
    using assms quorum_members finite_members finite_subset by blast+
  have "sum weight_of (P \<union> Q) \<le> sum weight_of members"
    using assms quorum_members finite_members by (intro sum_mono2) auto
  moreover have "sum weight_of (P \<union> Q) + sum weight_of (P \<inter> Q) = sum weight_of P + sum weight_of Q"
    by (rule sum.union_inter [OF fin])
  moreover have "sum weight_of members + tolerated < 2 * sum weight_of P"
    and "sum weight_of members + tolerated < 2 * sum weight_of Q"
    using assms by (simp_all add: quorum_heavy)
  ultimately show ?thesis by linarith
qed

text \<open>If the faulty members weigh no more than what is tolerated, two quorums share a correct one.\<close>

lemma quorum_correct_member:
  assumes "is_quorum_set P" and "is_quorum_set Q"
    and "sum weight_of (B \<inter> members) \<le> tolerated"
  shows "\<exists>v \<in> P \<inter> Q. v \<notin> B"
proof (rule ccontr)
  assume "\<not> ?thesis"
  then have "P \<inter> Q \<subseteq> B \<inter> members"
    using assms(1) quorum_members by blast
  then have "sum weight_of (P \<inter> Q) \<le> sum weight_of (B \<inter> members)"
    using finite_members by (intro sum_mono2) auto
  with quorum_intersection_weight [OF assms(1,2)] assms(3) show False by simp
qed

end

section \<open>Sums of weights\<close>

definition weight_of_set :: "'k validators \<Rightarrow> nat set \<Rightarrow> nat" where
  "weight_of_set vs S = (\<Sum>v \<in> S. weight_nat vs v)"

lemma weight_of_set_mono:
  "finite T \<Longrightarrow> S \<subseteq> T \<Longrightarrow> weight_of_set vs S \<le> weight_of_set vs T"
  unfolding weight_of_set_def by (rule sum_mono2) auto

lemma weight_of_set_le_total:
  assumes "validators_wf vs" and "S \<subseteq> {..<vs_len vs}"
  shows "weight_of_set vs S \<le> unat (total_weight vs)"
  using weight_of_set_mono [of "{..<vs_len vs}" S vs] assms
  by (simp add: weight_of_set_def validators_wf_def)

lemma unat_less_64: "unat (w :: 64 word) < 2 ^ 64"
proof -
  have "unat w < 2 ^ LENGTH(64)" by (rule unsigned_less)
  then show ?thesis by simp
qed

lemma weight_of_set_less:
  assumes "validators_wf vs" and "S \<subseteq> {..<vs_len vs}"
  shows "weight_of_set vs S < 2 ^ 64"
  using weight_of_set_le_total [OF assms] unat_less_64 [of "total_weight vs"] by simp

lemma sum_weights_exact:
  assumes "validators_wf vs" and "distinct vidxs" and "set vidxs \<subseteq> {..<vs_len vs}"
  shows "wp (sum_weights vs vidxs) (\<lambda>w. unat w = weight_of_set vs (set vidxs))"
  using assms(2,3)
proof (induction vidxs)
  case Nil
  then show ?case by (simp add: weight_of_set_def)
next
  case (Cons v vidxs)
  have set: "weight_of_set vs (insert v (set vidxs)) = weight_nat vs v + weight_of_set vs (set vidxs)"
    using Cons.prems by (simp add: weight_of_set_def)
  have "weight_of_set vs (insert v (set vidxs)) < 2 ^ 64"
    using assms(1) Cons.prems by (intro weight_of_set_less) auto
  then have no_overflow: "weight_nat vs v + weight_of_set vs (set vidxs) < 2 ^ 64"
    by (simp only: set)
  have "wp (sum_weights vs vidxs) (\<lambda>w. unat w = weight_of_set vs (set vidxs))"
    using Cons by simp
  then have "wp (sum_weights vs vidxs)
    (\<lambda>t. unat (v_weight (validators_vec vs ! v) + t) = weight_of_set vs (insert v (set vidxs)))"
    by (rule wp_mono) (use no_overflow in \<open>simp add: set unat_word_ariths weight_nat_def\<close>)
  then show ?case
    using Cons.prems by (simp add: weight_at_def vs_len_def)
qed

section \<open>The threshold\<close>

lemma unat_div2_or_high:
  assumes "2 ^ 64 \<le> unat (a :: 64 word) + unat b"
  shows "unat (((a + b) div 2) OR push_bit 63 1) = (unat a + unat b) div 2"
proof -
  let ?x = "(a + b) div 2"
  have x: "unat ?x = (unat a + unat b - 2 ^ 64) div 2"
    using assms unat_less_64 [of a] unat_less_64 [of b]
    by (simp add: unat_div unat_word_ariths mod_if)
  have high: "bit (push_bit 63 1 :: 64 word) n \<longleftrightarrow> n = 63" for n
    unfolding bit_push_bit_iff bit_1_iff by auto
  have "?x = drop_bit 1 (a + b)"
    by (simp add: drop_bit_eq_div)
  then have "\<not> bit ?x 63"
    by (simp add: bit_drop_bit_eq) (auto dest: bit_imp_le_length)
  then have "?x AND push_bit 63 1 = 0"
    by (intro bit_word_eqI) (auto simp only: bit_and_iff high bit_0_eq bot_apply bot_bool_def)
  then have "?x OR push_bit 63 1 = ?x + push_bit 63 1"
    by (rule disjunctive_add_eq_or [symmetric])
  moreover have "unat (push_bit 63 1 :: 64 word) = 2 ^ 63"
    by simp
  moreover have "unat ?x < 2 ^ 63"
    using x unat_less_64 [of a] unat_less_64 [of b] by simp
  ultimately have "unat (?x OR push_bit 63 1) = unat ?x + 2 ^ 63"
    by (simp add: unat_word_ariths)
  with x assms show ?thesis by simp
qed

lemma unat_quorum_threshold:
  "unat (quorum_threshold z) = (unat (total_weight (validators z)) + unat (ftt (params z))) div 2"
proof (cases "2 ^ 64 \<le> unat (total_weight (validators z)) + unat (ftt (params z))")
  case True
  then show ?thesis
    using unat_div2_or_high [OF True] by (simp add: quorum_threshold_def)
next
  case False
  then show ?thesis
    by (simp add: quorum_threshold_def unat_word_ariths unat_div)
qed

section \<open>Quorums of a state\<close>

abbreviation nvals :: "('v, 'h, 's, 'i, 'k, 'x) zug \<Rightarrow> nat" where
  "nvals z \<equiv> vs_len (validators z)"

definition faulty_set :: "('v, 'h, 's, 'i, 'k, 'x) zug \<Rightarrow> nat set" where
  "faulty_set z = alist_keys (faults z)"

lemma is_faulty_iff: "is_faulty z v \<longleftrightarrow> v \<in> faulty_set z"
  by (simp add: is_faulty_def faulty_set_def hash_map.lookup_keys)

lemma finite_faulty_set [simp]: "finite (faulty_set z)"
  by (simp add: faulty_set_def)

text \<open>The specification of \<open>is_quorum\<close>.\<close>

definition quorum :: "('v, 'h, 's, 'i, 'k, 'x) zug \<Rightarrow> nat set \<Rightarrow> bool" where
  "quorum z S \<longleftrightarrow> unat (quorum_threshold z) < weight_of_set (validators z) (faulty_set z \<union> S)"

definition faults_wf :: "('v, 'h, 's, 'i, 'k, 'x) zug \<Rightarrow> bool" where
  "faults_wf z \<longleftrightarrow> alist_ok (faults z) \<and> faulty_set z \<subseteq> {..<nvals z}"

lemma faulty_weight_exact:
  assumes "validators_wf (validators z)" and "faults_wf z"
  shows "wp (faulty_weight z) (\<lambda>w. unat w = weight_of_set (validators z) (faulty_set z))"
  using sum_weights_exact [OF assms(1), of "map fst (faults z)"] assms(2)
  by (simp add: faulty_weight_def faults_wf_def faulty_set_def alist_ok_def alist_keys_def)

lemma is_quorum_loop_exact:
  assumes "validators_wf (validators z)" and "distinct vidxs" and "set vidxs \<subseteq> {..<nvals z}"
    and "finite S" and "S \<subseteq> {..<nvals z}" and "faulty_set z \<subseteq> S" and "S \<inter> set vidxs \<subseteq> faulty_set z"
    and "unat acc = weight_of_set (validators z) S" and "acc \<le> t"
  shows "wp (is_quorum_loop z t acc vidxs)
    (\<lambda>b. b \<longleftrightarrow> unat t < weight_of_set (validators z) (S \<union> set vidxs))"
  using assms(2-)
proof (induction vidxs arbitrary: acc S)
  case Nil
  then show ?case by (simp add: word_le_nat_alt)
next
  case (Cons v vidxs)
  note prems = Cons.prems
  show ?case
  proof (cases "is_faulty z v")
    case True
    then have "S \<union> set (v # vidxs) = S \<union> set vidxs"
      using prems(5) by (auto simp: is_faulty_iff)
    with True Cons.IH [of S acc] prems show ?thesis by auto
  next
    case False
    then have v: "v \<notin> S" "v < nvals z"
      using prems(2,6) by (auto simp: is_faulty_iff)
    let ?acc = "weight_saturating_add acc (v_weight (validators_vec (validators z) ! v))"
    have "weight_of_set (validators z) (insert v S) =
      weight_nat (validators z) v + weight_of_set (validators z) S"
      using v(1) prems(3) by (simp add: weight_of_set_def)
    moreover have "weight_of_set (validators z) (insert v S) < 2 ^ 64"
      using assms(1) v prems(4) by (intro weight_of_set_less) auto
    ultimately have acc: "unat ?acc = weight_of_set (validators z) (insert v S)"
      using prems(7) by (simp add: unat_weight_saturating_add weight_nat_def)
    show ?thesis
    proof (cases "t < ?acc")
      case True
      have "weight_of_set (validators z) (insert v S) \<le>
        weight_of_set (validators z) (S \<union> set (v # vidxs))"
        using prems(3) by (intro weight_of_set_mono) auto
      with True False v acc show ?thesis
        by (simp add: weight_at_def vs_len_def word_less_nat_alt)
    next
      case le: False
      have "wp (is_quorum_loop z t ?acc vidxs)
        (\<lambda>b. b \<longleftrightarrow> unat t < weight_of_set (validators z) (insert v S \<union> set vidxs))"
        using prems v le acc by (intro Cons.IH) auto
      with le False v show ?thesis
        by (simp add: weight_at_def vs_len_def)
    qed
  qed
qed

lemma is_quorum_exact:
  assumes "validators_wf (validators z)" and "faults_wf z"
    and "distinct vidxs" and "set vidxs \<subseteq> {..<nvals z}"
  shows "is_quorum z vidxs = Some (quorum z (set vidxs))"
proof -
  obtain w where w: "faulty_weight z = Some w" "unat w = weight_of_set (validators z) (faulty_set z)"
    using faulty_weight_exact [OF assms(1,2)] by (auto elim: wpE)
  have sub: "faulty_set z \<subseteq> {..<nvals z}"
    using assms(2) by (simp add: faults_wf_def)
  show ?thesis
  proof (cases "quorum_threshold z < w")
    case True
    have "weight_of_set (validators z) (faulty_set z) \<le>
      weight_of_set (validators z) (faulty_set z \<union> set vidxs)"
      by (intro weight_of_set_mono) auto
    with True w show ?thesis
      by (simp add: is_quorum_def quorum_def word_less_nat_alt)
  next
    case False
    with is_quorum_loop_exact [OF assms(1,3,4) finite_faulty_set sub order_refl _ w(2), of "quorum_threshold z"]
    have "wp (is_quorum_loop z (quorum_threshold z) w vidxs) (\<lambda>b. b = quorum z (set vidxs))"
      by (simp add: quorum_def)
    with False w(1) show ?thesis
      by (auto simp: is_quorum_def elim: wpE)
  qed
qed

section \<open>Intersection of quorums\<close>

definition quorum_set :: "'k validators \<Rightarrow> nat \<Rightarrow> nat set \<Rightarrow> bool" where
  "quorum_set vs t Q \<longleftrightarrow>
     Q \<subseteq> {..<vs_len vs} \<and> (weight_of_set vs {..<vs_len vs} + t) div 2 < weight_of_set vs Q"

interpretation validator_quorums: quorum_system "{..<vs_len vs}" "weight_nat vs" t "quorum_set vs t"
  for vs t
  by unfold_locales (auto simp: quorum_set_def weight_of_set_def)

lemma quorum_set_quorum:
  assumes "validators_wf (validators z)" and "faults_wf z" and "S \<subseteq> {..<nvals z}" and "quorum z S"
  shows "quorum_set (validators z) (unat (ftt (params z))) (faulty_set z \<union> S)"
  using assms by (simp add: quorum_set_def quorum_def faults_wf_def unat_quorum_threshold
      validators_wf_def weight_of_set_def)

lemma quorum_mono:
  assumes "quorum z S" and "finite S'" and "faulty_set z \<union> S \<subseteq> faulty_set z' \<union> S'"
    and "validators z' = validators z" and "params z' = params z"
  shows "quorum z' S'"
proof -
  have "weight_of_set (validators z) (faulty_set z \<union> S) \<le>
    weight_of_set (validators z) (faulty_set z' \<union> S')"
    using assms(2,3) by (intro weight_of_set_mono) auto
  with assms(1,4,5) show ?thesis
    by (simp add: quorum_def quorum_threshold_def)
qed

end
