(* ===== verification/Zug_Ops.thy ===== *)
theory Zug_Ops
  imports Zug_State
begin

text \<open>
  The state-changing operations of \<open>protocols/zug.rs\<close> below the message handlers: the write-ahead
  log, adding signed contents, quorum detection, accepting, proposing and finalizing.

  Every operation takes the state and returns it updated, together with the outcomes it emits; the
  option is the panic monad of the prelude. The order of the effects, the early returns and the
  short-circuiting of the source are kept.
\<close>

section \<open>The write-ahead log and signed messages\<close>

definition record_entry ::
  "('v, 'h, 's, 'i, 'k, 'x) ctx \<Rightarrow> ('v, 'h, 'i, 's) wal_entry \<Rightarrow> ('v, 'h, 's, 'i, 'k, 'x) zug \<Rightarrow>
     bool \<times> ('v, 'h, 's, 'i, 'k, 'x) zug" where
  "record_entry cx e z =
     (case write_wal z of
        None \<Rightarrow> (False, z)
      | Some entries \<Rightarrow>
          if cx_wal_write cx entries e then (True, z\<lparr>write_wal := Some (entries @ [e])\<rparr>)
          else (False, z\<lparr>active_validator := None, write_wal := None\<rparr>))"

definition check_new_echo_quorum ::
  "('v, 'h, 's, 'i, 'k, 'x) ctx \<Rightarrow> round_id \<Rightarrow> 'h \<Rightarrow> ('v, 'h, 's, 'i, 'k, 'x) zug \<Rightarrow>
     (bool \<times> ('v, 'h, 's, 'i, 'k, 'x) zug) option" where
  "check_new_echo_quorum cx r hash z =
     (case zround z r of
        None \<Rightarrow> Some (False, z)
      | Some rd \<Rightarrow>
          if quorum_echoes rd \<noteq> None then Some (False, z)
          else do {
            echo_map \<leftarrow> map_of (echoes rd) hash;
            q \<leftarrow> is_quorum z (map fst echo_map);
            if q then do {
              (rd', z) \<leftarrow> round_mut cx r z;
              Some (True, put_round r (set_quorum_echoes hash rd') z)
            }
            else Some (False, z)
          })"

definition check_new_vote_quorum ::
  "('v, 'h, 's, 'i, 'k, 'x) ctx \<Rightarrow> round_id \<Rightarrow> bool \<Rightarrow> ('v, 'h, 's, 'i, 'k, 'x) zug \<Rightarrow>
     (bool \<times> ('v, 'h, 's, 'i, 'k, 'x) zug) option" where
  "check_new_vote_quorum cx r vote z =
     (case zround z r of
        None \<Rightarrow> Some (False, z)
      | Some rd \<Rightarrow>
          if quorum_votes rd \<noteq> None then Some (False, z)
          else do {
            q \<leftarrow> is_quorum z (keys_some (votes rd vote));
            if q then do {
              (rd', z) \<leftarrow> round_mut cx r z;
              Some (True, put_round r (set_quorum_votes vote rd') z)
            }
            else Some (False, z)
          })"

text \<open>Keeping the latest signed message of a validator, the first part of \<open>add_content\<close>.\<close>

definition note_active ::
  "('h, 'i, 's) signed_message \<Rightarrow> ('v, 'h, 's, 'i, 'k, 'x) zug \<Rightarrow> ('v, 'h, 's, 'i, 'k, 'x) zug option" where
  "note_active m z =
     do {
       old \<leftarrow> vmap_get (active z) (sm_validator_idx m);
       case old of
         None \<Rightarrow>
           (let z' = mark_dirty (first_non_finalized_round_id z) z
            in Some (z'\<lparr>active := (active z')[sm_validator_idx m := Some m]\<rparr>))
       | Some old_msg \<Rightarrow>
           if sm_round_id old_msg < sm_round_id m
           then Some (z\<lparr>active := (active z)[sm_validator_idx m := Some m]\<rparr>)
           else Some z
     }"

definition add_content ::
  "('v, 'h, 's, 'i, 'k, 'x) ctx \<Rightarrow> ('h, 'i, 's) signed_message \<Rightarrow> ('v, 'h, 's, 'i, 'k, 'x) zug \<Rightarrow>
     (bool \<times> ('v, 'h, 's, 'i, 'k, 'x) zug) option" where
  "add_content cx m z =
     do {
       z \<leftarrow> note_active m z;
       let r = sm_round_id m;
       (rd, z) \<leftarrow> round_mut cx r z;
       case sm_content m of
         Echo hash \<Rightarrow>
           (let (is_new, rd') = insert_echo hash (sm_validator_idx m) (sm_signature m) rd;
                z = put_round r rd' z
            in if is_new then do {
                 (q, z) \<leftarrow> check_new_echo_quorum cx r hash (z\<lparr>progress_detected := True\<rparr>);
                 Some (True, if q then mark_dirty r z else z)
               }
               else Some (False, z))
       | Vote vote \<Rightarrow>
           do {
             (is_new, rd') \<leftarrow> insert_vote vote (sm_validator_idx m) (sm_signature m) rd;
             let z = put_round r rd' z;
             if is_new then do {
               (q, z) \<leftarrow> check_new_vote_quorum cx r vote (z\<lparr>progress_detected := True\<rparr>);
               Some (True, if q then mark_dirty r z else z)
             }
             else Some (False, z)
           }
     }"

definition create_message ::
  "('v, 'h, 's, 'i, 'k, 'x) ctx \<Rightarrow> round_id \<Rightarrow> 'h content \<Rightarrow> ('v, 'h, 's, 'i, 'k, 'x) zug \<Rightarrow>
     (('h, 'i, 's) signed_message option \<times> ('v, 'h, 's, 'i, 'k, 'x) zug) option" where
  "create_message cx r content z =
     (case active_validator z of
        None \<Rightarrow> Some (None, z)
      | Some av \<Rightarrow>
          if paused z then Some (None, z)
          else do {
            already_signed \<leftarrow>
              (case content of
                 Echo _ \<Rightarrow> Some (has_echoed z r (av_idx av))
               | Vote _ \<Rightarrow> has_voted z r (av_idx av));
            if already_signed then Some (None, z)
            else do {
              let m = sign_new cx r (instance_id (params z)) content (av_idx av) (av_secret av);
              let (recorded, z) = record_entry cx (WalSignedMessage m) z;
              if recorded then do {
                (added, z) \<leftarrow> add_content cx m z;
                Some (if added then Some m else None, z)
              }
              else Some (None, z)
            }
          })"

definition create_and_gossip_message ::
  "('v, 'h, 's, 'i, 'k, 'x) ctx \<Rightarrow> round_id \<Rightarrow> 'h content \<Rightarrow> ('v, 'h, 's, 'i, 'k, 'x) zug \<Rightarrow>
     (('v, 'h, 's, 'i, 'k) outcome list \<times> ('v, 'h, 's, 'i, 'k, 'x) zug) option" where
  "create_and_gossip_message cx r content z =
     do {
       (maybe_signed_msg, z) \<leftarrow> create_message cx r content z;
       Some (case maybe_signed_msg of
               None \<Rightarrow> []
             | Some m \<Rightarrow> [CreatedGossipMessage (Signed m)], z)
     }"

definition schedule_update ::
  "timestamp \<Rightarrow> ('v, 'h, 's, 'i, 'k, 'x) zug \<Rightarrow>
     ('v, 'h, 's, 'i, 'k) outcome list \<times> ('v, 'h, 's, 'i, 'k, 'x) zug" where
  "schedule_update ts z =
     (if ts < next_scheduled_update z
      then ([ScheduleTimer ts 1], z\<lparr>next_scheduled_update := ts\<rparr>) else ([], z))"

section \<open>Accepting proposals\<close>

text \<open>Whether a validator is called active by the proposal without any message or fault to show it.\<close>

definition claims_unseen_active ::
  "('v, 'h, 's, 'i, 'k, 'x) zug \<Rightarrow> nat list \<Rightarrow> nat \<Rightarrow> bool option" where
  "claims_unseen_active z inactive idx =
     (if idx \<in> set inactive then Some False
      else do {
        a \<leftarrow> vmap_get (active z) idx;
        Some (a = None \<and> \<not> is_faulty z idx)
      })"

fun any_unseen_active ::
  "('v, 'h, 's, 'i, 'k, 'x) zug \<Rightarrow> nat list \<Rightarrow> nat list \<Rightarrow> bool option" where
  "any_unseen_active z inactive [] = Some False"
| "any_unseen_active z inactive (idx # idxs) =
     do {
       b \<leftarrow> claims_unseen_active z inactive idx;
       if b then Some True else any_unseen_active z inactive idxs
     }"

definition update_accepted_proposal ::
  "('v, 'h, 's, 'i, 'k, 'x) ctx \<Rightarrow> round_id \<Rightarrow> ('v, 'h, 's, 'i, 'k, 'x) zug \<Rightarrow>
     (bool \<times> ('v, 'h, 's, 'i, 'k, 'x) zug) option" where
  "update_accepted_proposal cx r z =
     (if has_accepted_proposal z r then Some (False, z)
      else case Option.bind (zround z r) proposal of
        None \<Rightarrow> Some (False, z)
      | Some hp \<Rightarrow>
          if Option.bind (zround z r) quorum_echoes \<noteq> Some (hp_hash hp) then Some (False, z)
          else do {
            unseen \<leftarrow>
              (case hp_inactive hp of
                 None \<Rightarrow> Some False
               | Some inactive \<Rightarrow> any_unseen_active z inactive (map fst (enumerate_ids (validators z))));
            if unseen then Some (False, z)
            else case (case maybe_parent_round_id hp of
                         None \<Rightarrow> Some (0, 0)
                       | Some parent_round_id \<Rightarrow>
                           map_option
                             (\<lambda>(parent_height, _). (sat_add32 parent_round_id 1, sat_add64 parent_height 1))
                             (accepted_proposal z parent_round_id)) of
              None \<Rightarrow> Some (False, z)
            | Some (first_skipped_round_id, rel_height) \<Rightarrow>
                if list_ex (\<lambda>r'. \<not> is_skippable_round z r') [first_skipped_round_id..<r]
                then Some (False, z)
                else do {
                  (rd, z) \<leftarrow> round_mut cx r z;
                  Some (True, put_round r (set_accepted_proposal_height rel_height rd) z)
                }
          })"

text \<open>
  \<open>log_proposal\<close> only logs, but computes the leader of the round, which can panic.
\<close>

definition log_proposal ::
  "('v, 'h, 's, 'i, 'k, 'x) ctx \<Rightarrow> round_id \<Rightarrow> ('v, 'h, 's, 'i, 'k, 'x) zug \<Rightarrow> unit option" where
  "log_proposal cx r z = map_option (\<lambda>_. ()) (zug_leader cx z r)"

text \<open>
  Inserting a proposal and, if it is new, recording it and marking the round: the block that
  \<open>validate_proposal\<close> and \<open>resolve_validity\<close> share.
\<close>

definition add_proposal ::
  "('v, 'h, 's, 'i, 'k, 'x) ctx \<Rightarrow> round_id \<Rightarrow> ('v, 'h) hashed_proposal \<Rightarrow> ('v, 'h, 's, 'i, 'k, 'x) zug \<Rightarrow>
     (bool \<times> ('v, 'h, 's, 'i, 'k, 'x) zug) option" where
  "add_proposal cx r hp z =
     do {
       (rd, z) \<leftarrow> round_mut cx r z;
       let (inserted, rd') = insert_proposal hp rd;
       let z = put_round r rd' z;
       if inserted
       then let z = snd (record_entry cx (WalProposal (hp_inner hp) r) z)
            in Some (True, mark_dirty r (z\<lparr>progress_detected := True\<rparr>))
       else Some (False, z)
     }"

text \<open>The checks of \<open>validate_proposal\<close> that reject a proposal.\<close>

definition rejects_proposal :: "('v, 'h, 's, 'i, 'k, 'x) zug \<Rightarrow> ('v, 'h) hashed_proposal \<Rightarrow> bool" where
  "rejects_proposal z hp =
     (hp_timestamp hp < start_timestamp (params z) \<or>
      (case Option.bind (maybe_parent_round_id hp) (accepted_proposal z) of
         None \<Rightarrow> False
       | Some (_, parent) \<Rightarrow>
           hp_timestamp hp < sat_add64 (hp_timestamp parent) (min_block_time (params z)) \<or>
           (case (hp_inactive hp, hp_inactive parent) of
              (Some inactive, Some parent_inactive) \<Rightarrow> \<not> set inactive \<subseteq> set parent_inactive
            | _ \<Rightarrow> False)))"

definition validate_proposal ::
  "('v, 'h, 's, 'i, 'k, 'x) ctx \<Rightarrow> round_id \<Rightarrow> ('v, 'h) hashed_proposal \<Rightarrow> 'v list \<Rightarrow> node_id \<Rightarrow>
     ('v, 'h, 's, 'i, 'k, 'x) zug \<Rightarrow>
     (('v, 'h, 's, 'i, 'k) outcome list \<times> ('v, 'h, 's, 'i, 'k, 'x) zug) option" where
  "validate_proposal cx r hp ancestors sender z =
     (if rejects_proposal z hp then Some ([], z)
      else
        let context = \<lparr>bc_timestamp = hp_timestamp hp, bc_ancestor_values = ancestors\<rparr>
        in case maybe_block hp of
             Some block \<Rightarrow>
               let pb = \<lparr>pb_value = block, pb_context = context\<rparr>
               in if cx_needs_validation cx block
                  then do {
                    log_proposal cx r z;
                    let waiting = (case map_of (proposals_waiting_for_validation z) pb of
                                     None \<Rightarrow> [] | Some w \<Rightarrow> w);
                    let z' = z\<lparr>proposals_waiting_for_validation :=
                               AList.update pb (List.insert (r, hp, sender) waiting)
                                 (proposals_waiting_for_validation z)\<rparr>;
                    Some (if (r, hp, sender) \<in> set waiting then []
                          else [ValidateConsensusValue sender pb], z')
                  }
                  else do {
                    log_proposal cx r z;
                    (inserted, z) \<leftarrow> add_proposal cx r hp z;
                    Some (if inserted then [HandledProposedBlock pb] else [], z)
                  }
           | None \<Rightarrow>
               do {
                 log_proposal cx r z;
                 (inserted, z) \<leftarrow> add_proposal cx r hp z;
                 Some ([], z)
               })"

section \<open>Finalizing\<close>

definition prune_rounds ::
  "('v, 'h, 's, 'i, 'k, 'x) ctx \<Rightarrow> round_id list \<Rightarrow> ('v, 'h, 's, 'i, 'k, 'x) zug \<Rightarrow>
     ('v, 'h, 's, 'i, 'k, 'x) zug option" where
  "prune_rounds cx =
     for_each (\<lambda>r z. do { (rd, z) \<leftarrow> round_mut cx r z; Some (put_round r (prune_skipped rd) z) })"

definition terminal_block_data_of ::
  "('v, 'h, 's, 'i, 'k, 'x) zug \<Rightarrow> round_id \<Rightarrow> ('v, 'h) hashed_proposal \<Rightarrow> 'k list option" where
  "terminal_block_data_of z r hp =
     (if accepted_switch_block z r
      then Some (case hp_inactive hp of
                   None \<Rightarrow> []
                 | Some inactive \<Rightarrow> List.map_filter (id_at (validators z)) inactive)
      else None)"

text \<open>
  The parent is finalized first, then the skipped rounds are pruned and the block is announced. The
  recursion follows parents, so that not returning is \<open>None\<close>.
\<close>

partial_function (option) finalize_round ::
  "('v, 'h, 's, 'i, 'k, 'x) ctx \<Rightarrow> round_id \<Rightarrow> ('v, 'h, 's, 'i, 'k, 'x) zug \<Rightarrow>
     (('v, 'h, 's, 'i, 'k) outcome list \<times> ('v, 'h, 's, 'i, 'k, 'x) zug) option" where
  "finalize_round cx r z =
     (if r < first_non_finalized_round_id z then Some ([], z)
      else case accepted_proposal z r of
        None \<Rightarrow> Some ([], z)
      | Some (relative_height, hp) \<Rightarrow>
          Option.bind
            (case maybe_parent_round_id hp of
               None \<Rightarrow> Some ([], z)
             | Some parent_round_id \<Rightarrow> finalize_round cx parent_round_id z)
            (\<lambda>(os, z).
              Option.bind (prune_rounds cx [first_non_finalized_round_id z..<r] z) (\<lambda>z.
                let z = z\<lparr>first_non_finalized_round_id := sat_add32 r 1\<rparr>
                in case maybe_block hp of
                     None \<Rightarrow> Some (os, z)
                   | Some block \<Rightarrow>
                       Option.bind (zug_leader cx z r) (\<lambda>l.
                         Option.bind (id_at (validators z) l) (\<lambda>proposer.
                           Some (os @ [FinalizedBlock
                             \<lparr>fb_value = block,
                              fb_timestamp = hp_timestamp hp,
                              fb_relative_height = relative_height,
                              fb_equivocators = [],
                              fb_terminal_block_data = terminal_block_data_of z r hp,
                              fb_proposer = proposer\<rparr>], z))))))"

declare finalize_round.simps [code]

section \<open>Proposing\<close>

definition create_echo_and_proposal ::
  "('v, 'h, 's, 'i, 'k, 'x) ctx \<Rightarrow> 'v proposal \<Rightarrow> ('v, 'h, 's, 'i, 'k, 'x) zug \<Rightarrow>
     (('v, 'h, 's, 'i, 'k) outcome list \<times> ('v, 'h, 's, 'i, 'k, 'x) zug) option" where
  "create_echo_and_proposal cx p z =
     do {
       let r = current_round z;
       let hp = hashed_proposal_new cx p;
       (maybe_echo, z) \<leftarrow> create_message cx r (Echo (hp_hash hp)) z;
       case maybe_echo of
         None \<Rightarrow> Some ([], z)
       | Some echo \<Rightarrow>
           (let prop_msg = ProposalMsg r (instance_id (params z)) p echo;
                (recorded, z) = record_entry cx (WalProposal (hp_inner hp) r) z
            in if \<not> recorded then Some ([], z)
               else do {
                 (rd, z) \<leftarrow> round_mut cx r z;
                 let (inserted, rd') = insert_proposal hp rd;
                 let z = put_round r rd' z;
                 if inserted then Some ([CreatedGossipMessage prop_msg], mark_dirty r z)
                 else Some ([], z)
               })
     }"

definition request_new_block ::
  "round_id option \<Rightarrow> timestamp \<Rightarrow> 'v list \<Rightarrow> ('v, 'h, 's, 'i, 'k, 'x) zug \<Rightarrow>
     ('v, 'h, 's, 'i, 'k) outcome list \<times> ('v, 'h, 's, 'i, 'k, 'x) zug" where
  "request_new_block maybe_parent now ancestors z =
     (let context = \<lparr>bc_timestamp = now, bc_ancestor_values = ancestors\<rparr>
      in ([CreateNewBlock context (sat_add64 now (f64_as_u64 (proposal_timeout_millis z)))],
          z\<lparr>pending_proposal := Some (context, current_round z, maybe_parent)\<rparr>))"

definition propose_if_leader ::
  "('v, 'h, 's, 'i, 'k, 'x) ctx \<Rightarrow> round_id option \<Rightarrow> timestamp \<Rightarrow> ('v, 'h, 's, 'i, 'k, 'x) zug \<Rightarrow>
     (('v, 'h, 's, 'i, 'k) outcome list \<times> ('v, 'h, 's, 'i, 'k, 'x) zug) option" where
  "propose_if_leader cx maybe_parent now z =
     (case active_validator z of
        None \<Rightarrow> Some ([], z)
      | Some av \<Rightarrow>
          do {
            l \<leftarrow> zug_leader cx z (current_round z);
            if av_idx av \<noteq> l then Some ([], z)
            else if (case pending_proposal z of
                       Some (_, r, _) \<Rightarrow> r = current_round z | None \<Rightarrow> False)
            then Some ([], z)
            else do {
              (rd, z) \<leftarrow> round_mut cx (current_round z) z;
              if has_proposal rd then Some ([], z)
              else case maybe_parent of
                None \<Rightarrow> Some (request_new_block None now [] z)
              | Some parent_round_id \<Rightarrow>
                  if accepted_switch_block z parent_round_id \<or> accepted_dummy_proposal z parent_round_id
                  then create_echo_and_proposal cx (proposal_dummy now parent_round_id) z
                  else do {
                    ancestors \<leftarrow> ancestor_values z parent_round_id;
                    vs \<leftarrow> ancestors;
                    Some (request_new_block maybe_parent now vs z)
                  }
            }
          })"

section \<open>Updating\<close>

text \<open>Descendants of a proposal that has just been accepted can be validated.\<close>

definition validate_waiting ::
  "('v, 'h, 's, 'i, 'k, 'x) ctx \<Rightarrow> round_id \<Rightarrow> ('v, 'h, 's, 'i, 'k, 'x) zug \<Rightarrow>
     (('v, 'h, 's, 'i, 'k) outcome list \<times> ('v, 'h, 's, 'i, 'k, 'x) zug) option" where
  "validate_waiting cx r z =
     (case map_of (proposals_waiting_for_parent z) r of
        None \<Rightarrow> Some ([], z)
      | Some proposals \<Rightarrow>
          do {
            let z = z\<lparr>proposals_waiting_for_parent := AList.delete r (proposals_waiting_for_parent z)\<rparr>;
            ancestors \<leftarrow> ancestor_values z r;
            vs \<leftarrow> ancestors;
            emit_each
              (\<lambda>(hp, rounds_and_senders).
                emit_each (\<lambda>(pr, sender). validate_proposal cx pr hp vs sender) rounds_and_senders)
              proposals z
          })"

text \<open>Voting on the round that is current, because of a timeout or a faulty leader.\<close>

definition vote_on_current_round ::
  "('v, 'h, 's, 'i, 'k, 'x) ctx \<Rightarrow> round_id \<Rightarrow> timestamp \<Rightarrow> bool \<Rightarrow> ('v, 'h, 's, 'i, 'k, 'x) zug \<Rightarrow>
     (('v, 'h, 's, 'i, 'k) outcome list \<times> bool \<times> ('v, 'h, 's, 'i, 'k, 'x) zug) option" where
  "vote_on_current_round cx r now voted z =
     (if sat_add64 (current_round_start z) (zug_proposal_timeout z) \<le> now
      then do {
        (os, z) \<leftarrow> create_and_gossip_message cx r (Vote False) z;
        Some (os, True, if os \<noteq> [] then update_proposal_timeout cx now z else z)
      }
      else do {
        l \<leftarrow> zug_leader cx z r;
        if is_faulty z l
        then do {
          (os, z) \<leftarrow> create_and_gossip_message cx r (Vote False) z;
          Some (os, True, z)
        }
        else Some ([], voted, z)
      })"

text \<open>Moving on to the next round, or starting to propose in the current one.\<close>

definition advance_or_propose ::
  "('v, 'h, 's, 'i, 'k, 'x) ctx \<Rightarrow> round_id \<Rightarrow> timestamp \<Rightarrow> bool \<Rightarrow> ('v, 'h, 's, 'i, 'k, 'x) zug \<Rightarrow>
     (('v, 'h, 's, 'i, 'k) outcome list \<times> ('v, 'h, 's, 'i, 'k, 'x) zug) option" where
  "advance_or_propose cx r now voted z =
     (if is_skippable_round z r \<or> has_accepted_proposal z r
      then do {
        let z = z\<lparr>current_round_start := u64_max, current_round := sat_add32 (current_round z) 1\<rparr>;
        zug_leader cx z (current_round z);
        Some ([], z)
      }
      else case suitable_parent_round z now of
        None \<Rightarrow> Some ([], z)
      | Some (maybe_parent, ts) \<Rightarrow>
          if now < ts then Some (schedule_update ts z)
          else if now < current_round_start z
          then do {
            (os, z) \<leftarrow> propose_if_leader cx maybe_parent now (z\<lparr>current_round_start := now\<rparr>);
            let current_timeout = sat_add64 (current_round_start z) (zug_proposal_timeout z);
            let (os', z) = (if now < current_timeout then schedule_update current_timeout z else ([], z));
            Some (os @ os', z)
          }
          else if \<not> voted then Some (schedule_update (sat_add64 now (zug_proposal_timeout z)) z)
          else Some ([], z))"

definition update_round ::
  "('v, 'h, 's, 'i, 'k, 'x) ctx \<Rightarrow> round_id \<Rightarrow> timestamp \<Rightarrow> ('v, 'h, 's, 'i, 'k, 'x) zug \<Rightarrow>
     (('v, 'h, 's, 'i, 'k) outcome list \<times> ('v, 'h, 's, 'i, 'k, 'x) zug) option" where
  "update_round cx r now z =
     do {
       z \<leftarrow> create_round cx r z;
       rd \<leftarrow> zround z r;
       (os1, z) \<leftarrow>
         (case proposal rd of
            None \<Rightarrow> Some ([], z)
          | Some hp \<Rightarrow> create_and_gossip_message cx r (Echo (hp_hash hp)) z);
       (accepted, z) \<leftarrow> update_accepted_proposal cx r z;
       (os2, z) \<leftarrow>
         (if accepted
          then do {
            let z = (if r = current_round z then update_proposal_timeout cx now z else z);
            (os, z) \<leftarrow> create_and_gossip_message cx r (Vote True) z;
            (os', z) \<leftarrow> validate_waiting cx r z;
            Some (os @ os', z)
          }
          else Some ([], z));
       (os3, z) \<leftarrow>
         (if r = current_round z
          then do {
            (os, voted, z) \<leftarrow> vote_on_current_round cx r now accepted z;
            (os', z) \<leftarrow> advance_or_propose cx r now voted z;
            Some (os @ os', z)
          }
          else Some ([], z));
       (os4, z) \<leftarrow>
         (if has_accepted_proposal z r \<and> is_committed_round z r
          then finalize_round cx r z else Some ([], z));
       Some (os1 @ os2 @ os3 @ os4, z)
     }"

text \<open>
  The loop \<open>for round_id in dirty_round_id..\<close>: a round ID is a \<open>u32\<close>, so that the loop has always
  reached the current round at \<open>u32::MAX\<close>.
\<close>

function update_from ::
  "('v, 'h, 's, 'i, 'k, 'x) ctx \<Rightarrow> timestamp \<Rightarrow> round_id \<Rightarrow> ('v, 'h, 's, 'i, 'k, 'x) zug \<Rightarrow>
     (('v, 'h, 's, 'i, 'k) outcome list \<times> ('v, 'h, 's, 'i, 'k, 'x) zug) option" where
  "update_from cx now r z =
     Option.bind (update_round cx r now z) (\<lambda>(os, z).
       if current_round z \<le> r \<or> u32_max \<le> r then Some (os, z)
       else Option.bind (update_from cx now (Suc r) z) (\<lambda>(os', z). Some (os @ os', z)))"
  by pat_completeness auto
termination
  by (relation "measure (\<lambda>(cx, now, r, z). u32_max - r)") auto

declare update_from.simps [simp del]

definition update ::
  "('v, 'h, 's, 'i, 'k, 'x) ctx \<Rightarrow> timestamp \<Rightarrow> ('v, 'h, 's, 'i, 'k, 'x) zug \<Rightarrow>
     (('v, 'h, 's, 'i, 'k) outcome list \<times> ('v, 'h, 's, 'i, 'k, 'x) zug) option" where
  "update cx now z =
     (if finalized_switch_block z then Some ([], z)
      else do {
        fw \<leftarrow> faulty_weight z;
        if ftt (params z) < fw then Some ([], z)
        else do {
          (os, z) \<leftarrow>
            (case maybe_dirty_round_id z of
               None \<Rightarrow> Some ([], z)
             | Some dirty_round_id \<Rightarrow> update_from cx now dirty_round_id z);
          Some (os, z\<lparr>maybe_dirty_round_id := None\<rparr>)
        }
      })"

section \<open>Faults\<close>

fun any_new_echo_quorum ::
  "('v, 'h, 's, 'i, 'k, 'x) ctx \<Rightarrow> round_id \<Rightarrow> 'h list \<Rightarrow> ('v, 'h, 's, 'i, 'k, 'x) zug \<Rightarrow>
     (bool \<times> ('v, 'h, 's, 'i, 'k, 'x) zug) option" where
  "any_new_echo_quorum cx r [] z = Some (False, z)"
| "any_new_echo_quorum cx r (hash # hashes) z =
     do {
       (b, z) \<leftarrow> check_new_echo_quorum cx r hash z;
       if b then Some (True, z) else any_new_echo_quorum cx r hashes z
     }"

definition recompute_quorums ::
  "('v, 'h, 's, 'i, 'k, 'x) ctx \<Rightarrow> round_id \<Rightarrow> ('v, 'h, 's, 'i, 'k, 'x) zug \<Rightarrow>
     ('v, 'h, 's, 'i, 'k, 'x) zug option" where
  "recompute_quorums cx r z =
     (case zround z r of
        None \<Rightarrow> Some z
      | Some rd \<Rightarrow>
          do {
            z \<leftarrow>
              (if quorum_echoes rd = None
               then do {
                 (b, z) \<leftarrow> any_new_echo_quorum cx r (map fst (echoes rd)) z;
                 Some (if b then mark_dirty r z else z)
               }
               else Some z);
            (t, z) \<leftarrow> check_new_vote_quorum cx r True z;
            if t then Some (mark_dirty r z)
            else do {
              (f, z) \<leftarrow> check_new_vote_quorum cx r False z;
              Some (if f then mark_dirty r z else z)
            }
          })"

text \<open>\<open>for round in rounds.values_mut()\<close>.\<close>

definition remove_from_rounds ::
  "nat \<Rightarrow> ('v, 'h, 's, 'i, 'k, 'x) zug \<Rightarrow> ('v, 'h, 's, 'i, 'k, 'x) zug option" where
  "remove_from_rounds validator_idx z =
     for_each
       (\<lambda>r z. do {
          rd \<leftarrow> zround z r;
          rd' \<leftarrow> remove_votes_and_echoes validator_idx rd;
          Some (put_round r rd' z)
        })
       (map fst (rounds z)) z"

definition handle_fault_no_wal ::
  "('v, 'h, 's, 'i, 'k, 'x) ctx \<Rightarrow> ('h, 'i, 's) signed_message \<Rightarrow> 'k \<Rightarrow> 'h content \<Rightarrow> 's \<Rightarrow> timestamp \<Rightarrow>
     ('v, 'h, 's, 'i, 'k, 'x) zug \<Rightarrow>
     (('v, 'h, 's, 'i, 'k) outcome list \<times> ('v, 'h, 's, 'i, 'k, 'x) zug) option" where
  "handle_fault_no_wal cx m validator_id content2 signature2 now z =
     do {
       let v = sm_validator_idx m;
       let z = z\<lparr>faults := AList.update v (Direct m content2 signature2) (faults z)\<rparr>;
       let z = (if our_idx z = Some v then z\<lparr>active_validator := None\<rparr> else z);
       a \<leftarrow> vmap_set (active z) v None;
       let z = z\<lparr>active := a, progress_detected := True\<rparr>;
       fw \<leftarrow> faulty_weight z;
       if ftt (params z) < fw then Some ([NewEvidence validator_id, FttExceeded], z)
       else do {
         z \<leftarrow> remove_from_rounds v z;
         z \<leftarrow> for_each (recompute_quorums cx)
           [first_non_finalized_round_id z..<
              Suc (case last_round_id z of None \<Rightarrow> 0 | Some l \<Rightarrow> l)] z;
         (os, z) \<leftarrow> update cx now z;
         Some (NewEvidence validator_id # os, z)
       }
     }"

definition handle_fault ::
  "('v, 'h, 's, 'i, 'k, 'x) ctx \<Rightarrow> ('h, 'i, 's) signed_message \<Rightarrow> 'k \<Rightarrow> 'h content \<Rightarrow> 's \<Rightarrow> timestamp \<Rightarrow>
     ('v, 'h, 's, 'i, 'k, 'x) zug \<Rightarrow>
     (('v, 'h, 's, 'i, 'k) outcome list \<times> ('v, 'h, 's, 'i, 'k, 'x) zug) option" where
  "handle_fault cx m validator_id content2 signature2 now z =
     handle_fault_no_wal cx m validator_id content2 signature2 now
       (snd (record_entry cx (WalEvidence m content2 signature2) z))"

end
