(* ===== verification/Zug_Invariant.thy ===== *)
theory Zug_Invariant
  imports Zug_Quorum Zug_Ops
begin

text \<open>
  The invariant of a Zug instance. It is a conjunction of properties of groups of fields, stated over
  those fields, so that an operation has to be looked at only where it writes:

  \<^item> \<open>static_inv\<close>: the validator set is well-formed and every round has a leader;
  \<^item> \<open>round_inv\<close>, for every round: its shape, the validity of every signature it holds, the hash and
    parent of its proposal, and that its memoized quorums are backed by the signatures it holds
    together with the faulty validators;
  \<^item> \<open>faults_inv\<close> and \<open>active_inv\<close>: evidence and latest messages are validly signed;
  \<^item> \<open>chain_inv\<close>: an accepted proposal extends an accepted proposal, and all rounds between them are
    skippable;
  \<^item> \<open>final_inv\<close> and \<open>prefix_inv\<close>: the last finalized round is accepted and committed, and every
    round before the current one is accepted or skippable;
  \<^item> \<open>bounds_inv\<close>, \<open>waiting_inv\<close>, \<open>pending_inv\<close> and \<open>own_inv\<close>: the round counters, the proposals put
    aside, and our own key;
  \<^item> \<open>wal_inv\<close>: every entry of the write-ahead log can be replayed.
\<close>

section \<open>Views of the rounds\<close>

type_synonym ('v, 'h, 's) rounds = "(round_id \<times> ('v, 'h, 's) round) list"

definition acc :: "('v, 'h, 's) rounds \<Rightarrow> round_id \<Rightarrow> (nat \<times> ('v, 'h) hashed_proposal) option" where
  "acc rds r = Option.bind (map_of rds r) round_accepted_proposal"

definition voted :: "('v, 'h, 's) rounds \<Rightarrow> round_id \<Rightarrow> bool option" where
  "voted rds r = Option.bind (map_of rds r) quorum_votes"

abbreviation skippable :: "('v, 'h, 's) rounds \<Rightarrow> round_id \<Rightarrow> bool" where
  "skippable rds r \<equiv> voted rds r = Some False"

abbreviation committed :: "('v, 'h, 's) rounds \<Rightarrow> round_id \<Rightarrow> bool" where
  "committed rds r \<equiv> voted rds r = Some True"

lemma accepted_proposal_acc: "accepted_proposal z r = acc (rounds z) r"
  by (simp add: accepted_proposal_def acc_def zround_def)

lemma has_accepted_proposal_acc: "has_accepted_proposal z r \<longleftrightarrow> acc (rounds z) r \<noteq> None"
  by (simp add: has_accepted_proposal_def accepted_proposal_acc)

lemma is_skippable_round_iff: "is_skippable_round z r \<longleftrightarrow> skippable (rounds z) r"
  by (simp add: is_skippable_round_def voted_def zround_def)

lemma is_committed_round_iff: "is_committed_round z r \<longleftrightarrow> committed (rounds z) r"
  by (simp add: is_committed_round_def voted_def zround_def)

lemma acc_update [simp]:
  "acc (AList.update r rd rds) x = (if x = r then round_accepted_proposal rd else acc rds x)"
  by (simp add: acc_def)

lemma voted_update [simp]:
  "voted (AList.update r rd rds) x = (if x = r then quorum_votes rd else voted rds x)"
  by (simp add: voted_def)

lemma acc_Nil [simp]: "acc [] r = None"
  by (simp add: acc_def)

lemma voted_Nil [simp]: "voted [] r = None"
  by (simp add: voted_def)

lemma acc_round: "map_of rds r = Some rd \<Longrightarrow> acc rds r = round_accepted_proposal rd"
  by (simp add: acc_def)

lemma voted_round: "map_of rds r = Some rd \<Longrightarrow> voted rds r = quorum_votes rd"
  by (simp add: voted_def)

lemma acc_no_round: "map_of rds r = None \<Longrightarrow> acc rds r = None"
  by (simp add: acc_def)

lemma voted_no_round: "map_of rds r = None \<Longrightarrow> voted rds r = None"
  by (simp add: voted_def)

lemma put_round_simps [simp]:
  "params (put_round r rd z) = params z"
  "proposal_timeout_millis (put_round r rd z) = proposal_timeout_millis z"
  "validators (put_round r rd z) = validators z"
  "active_validator (put_round r rd z) = active_validator z"
  "evidence_only (put_round r rd z) = evidence_only z"
  "proposals_waiting_for_parent (put_round r rd z) = proposals_waiting_for_parent z"
  "proposals_waiting_for_validation (put_round r rd z) = proposals_waiting_for_validation z"
  "pending_proposal (put_round r rd z) = pending_proposal z"
  "leader_sequence (put_round r rd z) = leader_sequence z"
  "rounds (put_round r rd z) = AList.update r rd (rounds z)"
  "faults (put_round r rd z) = faults z"
  "config (put_round r rd z) = config z"
  "active (put_round r rd z) = active z"
  "first_non_finalized_round_id (put_round r rd z) = first_non_finalized_round_id z"
  "maybe_dirty_round_id (put_round r rd z) = maybe_dirty_round_id z"
  "current_round (put_round r rd z) = current_round z"
  "current_round_start (put_round r rd z) = current_round_start z"
  "paused (put_round r rd z) = paused z"
  "next_scheduled_update (put_round r rd z) = next_scheduled_update z"
  "write_wal (put_round r rd z) = write_wal z"
  by (simp_all add: put_round_def)

lemma zround_put_round [simp]: "zround (put_round r rd z) x = (if x = r then Some rd else zround z x)"
  by (simp add: zround_def)

section \<open>Validity of signatures\<close>

definition mk_msg :: "round_id \<Rightarrow> 'i \<Rightarrow> 'h content \<Rightarrow> nat \<Rightarrow> 's \<Rightarrow> ('h, 'i, 's) signed_message" where
  "mk_msg r inst c v sg =
     \<lparr>sm_round_id = r, sm_instance_id = inst, sm_content = c, sm_validator_idx = v, sm_signature = sg\<rparr>"

definition msg_valid ::
  "('v, 'h, 's, 'i, 'k, 'x) ctx \<Rightarrow> 'k validators \<Rightarrow> 'i \<Rightarrow> ('h, 'i, 's) signed_message \<Rightarrow> bool" where
  "msg_valid cx vs inst m \<longleftrightarrow>
     sm_instance_id m = inst \<and>
     (\<exists>k. id_at vs (sm_validator_idx m) = Some k \<and> verify_signature cx m k)"

lemma mk_msg_eq:
  "sm_instance_id m = inst \<Longrightarrow>
    mk_msg (sm_round_id m) inst (sm_content m) (sm_validator_idx m) (sm_signature m) = m"
  by (simp add: mk_msg_def)

lemma mk_msg_simps [simp]:
  "sm_round_id (mk_msg r inst c v sg) = r" "sm_instance_id (mk_msg r inst c v sg) = inst"
  "sm_content (mk_msg r inst c v sg) = c" "sm_validator_idx (mk_msg r inst c v sg) = v"
  "sm_signature (mk_msg r inst c v sg) = sg"
  by (simp_all add: mk_msg_def)

lemma msg_valid_less: "msg_valid cx vs inst m \<Longrightarrow> sm_validator_idx m < vs_len vs"
  by (auto simp: msg_valid_def dest: id_at_SomeD)

section \<open>The conjuncts\<close>

definition static_inv ::
  "('v, 'h, 's, 'i, 'k, 'x) ctx \<Rightarrow> 'k validators \<Rightarrow> 'i params \<Rightarrow> leader_sequence \<Rightarrow> bool" where
  "static_inv cx vs ps ls \<longleftrightarrow>
     validators_wf vs \<and> leader_ok (cx_gen cx) ls (vs_len vs) \<and> ftt ps < total_weight vs"

text \<open>The validators in \<open>S\<close> and the faulty ones in \<open>F\<close> form a quorum.\<close>

definition backed :: "'k validators \<Rightarrow> weight \<Rightarrow> nat set \<Rightarrow> nat set \<Rightarrow> bool" where
  "backed vs t F S \<longleftrightarrow> (unat (total_weight vs) + unat t) div 2 < weight_of_set vs (F \<union> S)"

lemma quorum_backed: "quorum z S \<longleftrightarrow> backed (validators z) (ftt (params z)) (alist_keys (faults z)) S"
  by (simp add: quorum_def backed_def unat_quorum_threshold faulty_set_def)

lemma backed_mono:
  assumes "backed vs t F S" and "F \<union> S \<subseteq> F' \<union> S'" and "finite F'" and "finite S'"
  shows "backed vs t F' S'"
  using assms weight_of_set_mono [of "F' \<union> S'" "F \<union> S" vs] by (simp add: backed_def)

definition proposal_inv ::
  "('v, 'h, 's, 'i, 'k, 'x) ctx \<Rightarrow> round_id \<Rightarrow> ('v, 'h) hashed_proposal \<Rightarrow> bool" where
  "proposal_inv cx r hp \<longleftrightarrow>
     hp_hash hp = cx_hash_proposal cx (hp_inner hp) \<and>
     (\<forall>q. maybe_parent_round_id hp = Some q \<longrightarrow> q < r)"

definition round_inv ::
  "('v, 'h, 's, 'i, 'k, 'x) ctx \<Rightarrow> 'k validators \<Rightarrow> 'i params \<Rightarrow> leader_sequence \<Rightarrow> nat set \<Rightarrow>
     round_id \<Rightarrow> ('v, 'h, 's) round \<Rightarrow> bool" where
  "round_inv cx vs ps ls F r rd \<longleftrightarrow>
     r \<le> u32_max \<and>
     round_wf (vs_len vs) rd \<and>
     leader (cx_gen cx) ls (word_of_nat r) = Some (leader_idx rd) \<and>
     (\<forall>c v sg. holds rd c v sg \<longrightarrow> msg_valid cx vs (instance_id ps) (mk_msg r (instance_id ps) c v sg)) \<and>
     (\<forall>hp. proposal rd = Some hp \<longrightarrow> proposal_inv cx r hp \<and>
        (\<forall>h. quorum_echoes rd = Some h \<longrightarrow> hp_hash hp = h)) \<and>
     (accepted_proposal_height (outcome_of rd) \<noteq> None \<longrightarrow> proposal rd \<noteq> None \<and> quorum_echoes rd \<noteq> None) \<and>
     (\<forall>h. quorum_echoes rd = Some h \<longrightarrow> backed vs (ftt ps) F (signers rd (Echo h))) \<and>
     (\<forall>b. quorum_votes rd = Some b \<longrightarrow> backed vs (ftt ps) F (signers rd (Vote b)))"

definition rounds_inv ::
  "('v, 'h, 's, 'i, 'k, 'x) ctx \<Rightarrow> 'k validators \<Rightarrow> 'i params \<Rightarrow> leader_sequence \<Rightarrow> nat set \<Rightarrow>
     ('v, 'h, 's) rounds \<Rightarrow> bool" where
  "rounds_inv cx vs ps ls F rds \<longleftrightarrow>
     alist_ok rds \<and> (\<forall>r rd. map_of rds r = Some rd \<longrightarrow> round_inv cx vs ps ls F r rd)"

definition evidence_valid ::
  "('v, 'h, 's, 'i, 'k, 'x) ctx \<Rightarrow> 'k validators \<Rightarrow> 'i \<Rightarrow> ('h, 'i, 's) signed_message \<Rightarrow> 'h content \<Rightarrow> 's \<Rightarrow> bool"
  where
  "evidence_valid cx vs inst m c2 sg2 \<longleftrightarrow>
     msg_valid cx vs inst m \<and> msg_valid cx vs inst (sm_with m c2 sg2) \<and> contradicts (sm_content m) c2"

definition faults_inv ::
  "('v, 'h, 's, 'i, 'k, 'x) ctx \<Rightarrow> 'k validators \<Rightarrow> 'i \<Rightarrow> (nat \<times> ('h, 'i, 's) fault) list \<Rightarrow> bool" where
  "faults_inv cx vs inst fs \<longleftrightarrow>
     alist_ok fs \<and> alist_keys fs \<subseteq> {..<vs_len vs} \<and>
     (\<forall>v m c2 sg2. map_of fs v = Some (Direct m c2 sg2) \<longrightarrow>
        sm_validator_idx m = v \<and> evidence_valid cx vs inst m c2 sg2)"

definition active_inv ::
  "('v, 'h, 's, 'i, 'k, 'x) ctx \<Rightarrow> 'k validators \<Rightarrow> 'i \<Rightarrow> ('h, 'i, 's) signed_message option list \<Rightarrow> bool" where
  "active_inv cx vs inst ms \<longleftrightarrow>
     length ms = vs_len vs \<and>
     (\<forall>v m. v < length ms \<longrightarrow> ms ! v = Some m \<longrightarrow> sm_validator_idx m = v \<and> msg_valid cx vs inst m)"

definition extends ::
  "('v, 'h, 's) rounds \<Rightarrow> round_id \<Rightarrow> nat \<Rightarrow> ('v, 'h) hashed_proposal \<Rightarrow> bool" where
  "extends rds r k hp \<longleftrightarrow>
     k \<le> r \<and>
     (case maybe_parent_round_id hp of
        None \<Rightarrow> k = 0 \<and> (\<forall>x<r. skippable rds x)
      | Some q \<Rightarrow>
          q < r \<and> (\<exists>k' hp'. acc rds q = Some (k', hp') \<and> k = Suc k') \<and>
          (\<forall>x. q < x \<and> x < r \<longrightarrow> skippable rds x))"

definition chain_inv :: "('v, 'h, 's) rounds \<Rightarrow> bool" where
  "chain_inv rds \<longleftrightarrow> (\<forall>r k hp. acc rds r = Some (k, hp) \<longrightarrow> extends rds r k hp)"

definition final_inv :: "('v, 'h, 's) rounds \<Rightarrow> bool \<Rightarrow> round_id \<Rightarrow> round_id \<Rightarrow> bool" where
  "final_inv rds evidence cur fnf \<longleftrightarrow>
     evidence \<or> cur = u32_max \<or> fnf = 0 \<or>
     (acc rds (fnf - 1) \<noteq> None \<and> committed rds (fnf - 1))"

definition prefix_inv :: "('v, 'h, 's) rounds \<Rightarrow> bool \<Rightarrow> round_id \<Rightarrow> bool" where
  "prefix_inv rds evidence cur \<longleftrightarrow>
     evidence \<or> (\<forall>x<cur. skippable rds x \<or> acc rds x \<noteq> None)"

definition bounds_inv :: "round_id \<Rightarrow> round_id option \<Rightarrow> round_id \<Rightarrow> bool" where
  "bounds_inv cur dirty fnf \<longleftrightarrow>
     cur \<le> u32_max \<and> fnf \<le> cur \<and> (\<forall>d. dirty = Some d \<longrightarrow> d \<le> cur)"

definition waiting_parent_inv ::
  "('v, 'h, 's, 'i, 'k, 'x) ctx \<Rightarrow>
     (round_id \<times> (('v, 'h) hashed_proposal \<times> (round_id \<times> node_id) list) list) list \<Rightarrow> bool" where
  "waiting_parent_inv cx w \<longleftrightarrow>
     (\<forall>q m hp l r s. map_of w q = Some m \<longrightarrow> (hp, l) \<in> set m \<longrightarrow> (r, s) \<in> set l \<longrightarrow>
        proposal_inv cx r hp \<and> r \<le> u32_max \<and> maybe_parent_round_id hp = Some q)"

definition waiting_validation_inv ::
  "('v, 'h, 's, 'i, 'k, 'x) ctx \<Rightarrow>
     ('v proposed_block \<times> (round_id \<times> ('v, 'h) hashed_proposal \<times> node_id) list) list \<Rightarrow> bool" where
  "waiting_validation_inv cx w \<longleftrightarrow>
     (\<forall>pb l r hp s. map_of w pb = Some l \<longrightarrow> (r, hp, s) \<in> set l \<longrightarrow> proposal_inv cx r hp \<and> r \<le> u32_max)"

definition pending_inv :: "('v block_context \<times> round_id \<times> round_id option) option \<Rightarrow> bool" where
  "pending_inv p \<longleftrightarrow> (\<forall>c r q. p = Some (c, r, Some q) \<longrightarrow> q < r)"

definition own_inv ::
  "('v, 'h, 's, 'i, 'k, 'x) ctx \<Rightarrow> 'k validators \<Rightarrow> 'x active_validator option \<Rightarrow> bool" where
  "own_inv cx vs av \<longleftrightarrow>
     (\<forall>a. av = Some a \<longrightarrow> (\<exists>k. id_at vs (av_idx a) = Some k \<and> key_pair cx k (av_secret a)))"

text \<open>What the write-ahead log holds is fit to be replayed.\<close>

fun entry_valid ::
  "('v, 'h, 's, 'i, 'k, 'x) ctx \<Rightarrow> 'k validators \<Rightarrow> 'i \<Rightarrow> ('v, 'h, 'i, 's) wal_entry \<Rightarrow> bool" where
  "entry_valid cx vs inst (WalSignedMessage m) \<longleftrightarrow> msg_valid cx vs inst m \<and> sm_round_id m \<le> u32_max"
| "entry_valid cx vs inst (WalProposal p r) \<longleftrightarrow> r \<le> u32_max \<and> (\<forall>q. p_parent p = Some q \<longrightarrow> q < r)"
| "entry_valid cx vs inst (WalEvidence m c2 sg2) \<longleftrightarrow> evidence_valid cx vs inst m c2 sg2"

definition wal_inv ::
  "('v, 'h, 's, 'i, 'k, 'x) ctx \<Rightarrow> 'k validators \<Rightarrow> 'i \<Rightarrow> ('v, 'h, 'i, 's) wal_entry list option \<Rightarrow> bool" where
  "wal_inv cx vs inst w \<longleftrightarrow> (\<forall>es. w = Some es \<longrightarrow> list_all (entry_valid cx vs inst) es)"

lemma wal_inv_simps [simp]:
  "wal_inv cx vs inst None"
  "wal_inv cx vs inst (Some (es @ [e])) \<longleftrightarrow> wal_inv cx vs inst (Some es) \<and> entry_valid cx vs inst e"
  by (auto simp: wal_inv_def)

definition zug_inv ::
  "('v, 'h, 's, 'i, 'k, 'x) ctx \<Rightarrow> ('v, 'h, 's, 'i, 'k, 'x) zug \<Rightarrow> bool" where
  "zug_inv cx z \<longleftrightarrow>
     collision_free cx \<and>
     static_inv cx (validators z) (params z) (leader_sequence z) \<and>
     rounds_inv cx (validators z) (params z) (leader_sequence z) (alist_keys (faults z)) (rounds z) \<and>
     faults_inv cx (validators z) (instance_id (params z)) (faults z) \<and>
     active_inv cx (validators z) (instance_id (params z)) (active z) \<and>
     chain_inv (rounds z) \<and>
     final_inv (rounds z) (evidence_only z) (current_round z) (first_non_finalized_round_id z) \<and>
     prefix_inv (rounds z) (evidence_only z) (current_round z) \<and>
     bounds_inv (current_round z) (maybe_dirty_round_id z) (first_non_finalized_round_id z) \<and>
     waiting_parent_inv cx (proposals_waiting_for_parent z) \<and>
     waiting_validation_inv cx (proposals_waiting_for_validation z) \<and>
     pending_inv (pending_proposal z) \<and>
     own_inv cx (validators z) (active_validator z) \<and>
     wal_inv cx (validators z) (instance_id (params z)) (write_wal z)"

end
