(* ===== verification/Zug_Step.thy ===== *)
theory Zug_Step
  imports Zug_Invariant
begin

text \<open>
  The elementary steps every operation of a Zug instance is composed of, and the invariant along
  them.

  \<open>micro cx z fins msgs z'\<close> says that one elementary step takes \<open>z\<close> to \<open>z'\<close>, finalizing the blocks
  \<open>fins\<close> and signing the messages \<open>msgs\<close>. The rules are the abstract protocol: add a valid echo or
  vote, note a quorum, insert a proposal, accept it, finalize a committed round with its ancestors,
  move to the next round, record a fault, forget a faulty validator's messages. The other rules cover
  the bookkeeping fields. Opening the write-ahead log is not among them: only \<open>open_wal\<close> does that.
  Operations are shown to be sequences of such steps in \<open>Zug_Simulation\<close>, so
  that an invariant has to be checked only here.
\<close>

section \<open>The chain of a round\<close>

text \<open>The rounds of an accepted proposal and its ancestors, oldest first.\<close>

function chain_ids :: "('v, 'h, 's) rounds \<Rightarrow> round_id \<Rightarrow> round_id list" where
  "chain_ids rds r =
     (case acc rds r of
        None \<Rightarrow> []
      | Some (_, hp) \<Rightarrow>
          (case maybe_parent_round_id hp of
             None \<Rightarrow> [r]
           | Some q \<Rightarrow> if q < r then chain_ids rds q @ [r] else [r]))"
  by pat_completeness auto
termination
  by (relation "measure snd") auto

declare chain_ids.simps [simp del]

text \<open>The block a finalized proposal is announced as; a dummy proposal has none.\<close>

definition block_for ::
  "('v, 'h, 's, 'i, 'k, 'x) ctx \<Rightarrow> 'k validators \<Rightarrow> 'i params \<Rightarrow> leader_sequence \<Rightarrow> round_id \<Rightarrow> nat \<Rightarrow>
     ('v, 'h) hashed_proposal \<Rightarrow> ('v, 'k) finalized_block list" where
  "block_for cx vs ps ls r k hp =
     (case maybe_block hp of
        None \<Rightarrow> []
      | Some block \<Rightarrow>
          (case Option.bind (leader (cx_gen cx) ls (word_of_nat r)) (id_at vs) of
             None \<Rightarrow> []
           | Some proposer \<Rightarrow>
               [\<lparr>fb_value = block,
                 fb_timestamp = hp_timestamp hp,
                 fb_relative_height = k,
                 fb_equivocators = [],
                 fb_terminal_block_data =
                   (if end_height ps \<le> sat_add64 k 1 \<and> end_timestamp ps \<le> hp_timestamp hp
                    then Some (case hp_inactive hp of
                                 None \<Rightarrow> []
                               | Some inactive \<Rightarrow> List.map_filter (id_at vs) inactive)
                    else None),
                 fb_proposer = proposer\<rparr>]))"

definition chain_blocks ::
  "('v, 'h, 's, 'i, 'k, 'x) ctx \<Rightarrow> 'k validators \<Rightarrow> 'i params \<Rightarrow> leader_sequence \<Rightarrow> ('v, 'h, 's) rounds \<Rightarrow>
     round_id list \<Rightarrow> ('v, 'k) finalized_block list" where
  "chain_blocks cx vs ps ls rds rs =
     concat (map (\<lambda>r. case acc rds r of None \<Rightarrow> [] | Some (k, hp) \<Rightarrow> block_for cx vs ps ls r k hp) rs)"

text \<open>
  The rounds after \<open>finalize_round\<close>: those from \<open>fnf\<close> to below \<open>r\<close> that are not ancestors of \<open>r\<close> are
  pruned, and created if they did not exist.
\<close>

definition pruned ::
  "('v, 'h, 's, 'i, 'k, 'x) ctx \<Rightarrow> 'k validators \<Rightarrow> leader_sequence \<Rightarrow> round_id set \<Rightarrow>
     ('v, 'h, 's) rounds \<Rightarrow> ('v, 'h, 's) rounds \<Rightarrow> bool" where
  "pruned cx vs ls X rds rds' \<longleftrightarrow>
     alist_ok rds' \<and>
     (\<forall>x. map_of rds' x =
        (if x \<in> X
         then Some (case map_of rds x of
                      Some rd \<Rightarrow> prune_skipped rd
                    | None \<Rightarrow> round_new (vs_len vs) (the (leader (cx_gen cx) ls (word_of_nat x))))
         else map_of rds x))"

section \<open>Elementary steps\<close>

inductive micro ::
  "('v, 'h, 's, 'i, 'k, 'x) ctx \<Rightarrow> ('v, 'h, 's, 'i, 'k, 'x) zug \<Rightarrow> ('v, 'k) finalized_block list \<Rightarrow>
     ('h, 'i, 's) signed_message list \<Rightarrow> ('v, 'h, 's, 'i, 'k, 'x) zug \<Rightarrow> bool"
  for cx where
  mi_create_round:
    "zround z r = None \<Longrightarrow> r \<le> u32_max \<Longrightarrow> leader (cx_gen cx) (leader_sequence z) (word_of_nat r) = Some l \<Longrightarrow>
     micro cx z [] [] (put_round r (round_new (nvals z) l) z)"
| mi_echo:
    "zround z r = Some rd \<Longrightarrow>
     msg_valid cx (validators z) (instance_id (params z)) (mk_msg r (instance_id (params z)) (Echo h) v sg) \<Longrightarrow>
     micro cx z [] [] (put_round r (snd (insert_echo h v sg rd)) z)"
| mi_vote:
    "zround z r = Some rd \<Longrightarrow>
     msg_valid cx (validators z) (instance_id (params z)) (mk_msg r (instance_id (params z)) (Vote b) v sg) \<Longrightarrow>
     v \<notin> signers rd (Vote b) \<Longrightarrow>
     micro cx z [] [] (put_round r (with_vote b v sg rd) z)"
| mi_sign_echo:
    "zround z r = Some rd \<Longrightarrow> our_idx z = Some v \<Longrightarrow> \<not> round_has_echoed rd v \<Longrightarrow>
     m = mk_msg r (instance_id (params z)) (Echo h) v sg \<Longrightarrow>
     msg_valid cx (validators z) (instance_id (params z)) m \<Longrightarrow>
     write_wal z = Some entries \<Longrightarrow> WalSignedMessage m \<in> set entries \<Longrightarrow>
     micro cx z [] [m] (put_round r (snd (insert_echo h v sg rd)) z)"
| mi_sign_vote:
    "zround z r = Some rd \<Longrightarrow> our_idx z = Some v \<Longrightarrow> round_has_voted rd v = Some False \<Longrightarrow>
     m = mk_msg r (instance_id (params z)) (Vote b) v sg \<Longrightarrow>
     msg_valid cx (validators z) (instance_id (params z)) m \<Longrightarrow>
     write_wal z = Some entries \<Longrightarrow> WalSignedMessage m \<in> set entries \<Longrightarrow>
     micro cx z [] [m] (put_round r (with_vote b v sg rd) z)"
| mi_quorum_echoes:
    "zround z r = Some rd \<Longrightarrow> quorum_echoes rd = None \<Longrightarrow> quorum z (signers rd (Echo h)) \<Longrightarrow>
     micro cx z [] [] (put_round r (set_quorum_echoes h rd) z)"
| mi_quorum_votes:
    "zround z r = Some rd \<Longrightarrow> quorum_votes rd = None \<Longrightarrow> quorum z (signers rd (Vote b)) \<Longrightarrow>
     micro cx z [] [] (put_round r (set_quorum_votes b rd) z)"
| mi_proposal:
    "zround z r = Some rd \<Longrightarrow> has_echoes_for_proposal rd (hp_hash hp) \<Longrightarrow> proposal_inv cx r hp \<Longrightarrow>
     micro cx z [] [] (put_round r (rd\<lparr>proposal := Some hp\<rparr>) z)"
| mi_accept:
    "zround z r = Some rd \<Longrightarrow> proposal rd = Some hp \<Longrightarrow> quorum_echoes rd = Some (hp_hash hp) \<Longrightarrow>
     acc (rounds z) r = None \<Longrightarrow> extends (rounds z) r k hp \<Longrightarrow>
     micro cx z [] [] (put_round r (set_accepted_proposal_height k rd) z)"
| mi_finalize:
    "acc (rounds z) r \<noteq> None \<Longrightarrow> committed (rounds z) r \<Longrightarrow>
     first_non_finalized_round_id z \<le> r \<Longrightarrow> r < current_round z \<or> current_round z = u32_max \<Longrightarrow>
     pruned cx (validators z) (leader_sequence z)
       ({first_non_finalized_round_id z..<r} - set (chain_ids (rounds z) r)) (rounds z) rds \<Longrightarrow>
     fins = chain_blocks cx (validators z) (params z) (leader_sequence z) (rounds z)
       (filter (\<lambda>x. first_non_finalized_round_id z \<le> x) (chain_ids (rounds z) r)) \<Longrightarrow>
     micro cx z fins [] (z\<lparr>rounds := rds, first_non_finalized_round_id := sat_add32 r 1\<rparr>)"
| mi_advance:
    "skippable (rounds z) (current_round z) \<or> acc (rounds z) (current_round z) \<noteq> None \<Longrightarrow>
     micro cx z [] [] (z\<lparr>current_round := sat_add32 (current_round z) 1\<rparr>)"
| mi_dirty:
    "(\<And>r. d = Some r \<Longrightarrow> r \<le> current_round z) \<Longrightarrow>
     micro cx z [] [] (z\<lparr>maybe_dirty_round_id := d\<rparr>)"
| mi_active:
    "msg_valid cx (validators z) (instance_id (params z)) m \<Longrightarrow>
     micro cx z [] [] (z\<lparr>active := (active z)[sm_validator_idx m := Some m]\<rparr>)"
| mi_fault:
    "evidence_valid cx (validators z) (instance_id (params z)) m c2 sg2 \<Longrightarrow>
     v = sm_validator_idx m \<Longrightarrow>
     av = (if our_idx z = Some v then None else active_validator z) \<Longrightarrow>
     micro cx z [] [] (z\<lparr>faults := AList.update v (Direct m c2 sg2) (faults z),
       active := (active z)[v := None], active_validator := av\<rparr>)"
| mi_remove:
    "zround z r = Some rd \<Longrightarrow> v \<in> faulty_set z \<Longrightarrow> our_idx z \<noteq> Some v \<Longrightarrow>
     micro cx z [] [] (put_round r (without v rd) z)"
| mi_mark_faulty:
    "v < nvals z \<Longrightarrow> v \<notin> faulty_set z \<Longrightarrow>
     micro cx z [] [] (z\<lparr>faults := AList.update v Indirect (faults z)\<rparr>)"
| mi_waiting_parent:
    "waiting_parent_inv cx w \<Longrightarrow> micro cx z [] [] (z\<lparr>proposals_waiting_for_parent := w\<rparr>)"
| mi_waiting_validation:
    "waiting_validation_inv cx w \<Longrightarrow> micro cx z [] [] (z\<lparr>proposals_waiting_for_validation := w\<rparr>)"
| mi_pending:
    "pending_inv p \<Longrightarrow> micro cx z [] [] (z\<lparr>pending_proposal := p\<rparr>)"
| mi_activate:
    "own_inv cx (validators z) (Some av) \<Longrightarrow> av_idx av \<notin> faulty_set z \<Longrightarrow>
     micro cx z [] [] (z\<lparr>active_validator := Some av\<rparr>)"
| mi_deactivate: "micro cx z [] [] (z\<lparr>active_validator := None\<rparr>)"
| mi_evidence_only:
    "micro cx z [] [] (z\<lparr>evidence_only := True, rounds := [], proposals_waiting_for_parent := [],
       proposals_waiting_for_validation := []\<rparr>)"
| mi_wal_append:
    "write_wal z = Some entries \<Longrightarrow> entry_valid cx (validators z) (instance_id (params z)) e \<Longrightarrow>
     micro cx z [] [] (z\<lparr>write_wal := Some (entries @ [e])\<rparr>)"
| mi_wal_close: "micro cx z [] [] (z\<lparr>write_wal := None\<rparr>)"
| mi_timeout: "micro cx z [] [] (z\<lparr>proposal_timeout_millis := t\<rparr>)"
| mi_round_start: "micro cx z [] [] (z\<lparr>current_round_start := ts\<rparr>)"
| mi_progress: "micro cx z [] [] (z\<lparr>progress_detected := b\<rparr>)"
| mi_paused: "micro cx z [] [] (z\<lparr>paused := b\<rparr>)"
| mi_schedule: "micro cx z [] [] (z\<lparr>next_scheduled_update := ts\<rparr>)"
| mi_sync_requests: "micro cx z [] [] (z\<lparr>sent_sync_requests := ids\<rparr>)"

section \<open>Preservation of the invariant\<close>

lemma static_leader:
  assumes "static_inv cx vs ps ls"
  shows "\<exists>l < vs_len vs. leader (cx_gen cx) ls slot = Some l"
  using assms by (auto simp: static_inv_def leader_ok_def)

lemma rounds_invD:
  "rounds_inv cx vs ps ls F rds \<Longrightarrow> map_of rds r = Some rd \<Longrightarrow> round_inv cx vs ps ls F r rd"
  by (simp add: rounds_inv_def)

lemma rounds_inv_update:
  "rounds_inv cx vs ps ls F rds \<Longrightarrow> round_inv cx vs ps ls F r rd \<Longrightarrow>
    rounds_inv cx vs ps ls F (AList.update r rd rds)"
  by (auto simp: rounds_inv_def)

lemma round_inv_wf: "round_inv cx vs ps ls F r rd \<Longrightarrow> round_wf (vs_len vs) rd"
  by (simp add: round_inv_def)

lemma finite_signers: "round_inv cx vs ps ls F r rd \<Longrightarrow> finite (signers rd c)"
  by (rule finite_subset [OF signers_less [OF round_inv_wf] finite_lessThan])

text \<open>Steps that leave the accepted proposal and the vote quorum of every round alone keep the chain.\<close>

lemma chain_parts_update:
  assumes "map_of rds r = Some rd \<and> round_accepted_proposal rd' = round_accepted_proposal rd \<and>
      quorum_votes rd' = quorum_votes rd \<or>
    map_of rds r = None \<and> round_accepted_proposal rd' = None \<and> quorum_votes rd' = None"
  shows "acc (AList.update r rd' rds) = acc rds" and "voted (AList.update r rd' rds) = voted rds"
  using assms by (auto simp: fun_eq_iff acc_def voted_def)

lemma chain_inv_cong:
  "acc rds' = acc rds \<Longrightarrow> voted rds' = voted rds \<Longrightarrow> chain_inv rds' = chain_inv rds"
  by (simp add: chain_inv_def extends_def cong: option.case_cong)

lemma final_inv_cong:
  "acc rds' = acc rds \<Longrightarrow> voted rds' = voted rds \<Longrightarrow> final_inv rds' = final_inv rds"
  by (simp add: final_inv_def fun_eq_iff)

lemma prefix_inv_cong:
  "acc rds' = acc rds \<Longrightarrow> voted rds' = voted rds \<Longrightarrow> prefix_inv rds' = prefix_inv rds"
  by (simp add: prefix_inv_def fun_eq_iff)

text \<open>Replacing one round by one that satisfies the invariant and has the same chain data.\<close>

lemma zug_inv_put_round:
  assumes "zug_inv cx z"
    and "round_inv cx (validators z) (params z) (leader_sequence z) (alist_keys (faults z)) r rd'"
    and "zround z r = Some rd \<and> round_accepted_proposal rd' = round_accepted_proposal rd \<and>
        quorum_votes rd' = quorum_votes rd \<or>
      zround z r = None \<and> round_accepted_proposal rd' = None \<and> quorum_votes rd' = None"
  shows "zug_inv cx (put_round r rd' z)"
proof -
  note parts = chain_parts_update [of "rounds z" r rd rd', folded zround_def, OF assms(3)]
  show ?thesis
    using assms(1,2) chain_inv_cong [OF parts] final_inv_cong [OF parts] prefix_inv_cong [OF parts]
    by (simp add: zug_inv_def rounds_inv_update)
qed

subsection \<open>Single rounds\<close>

lemma round_inv_new:
  assumes "leader (cx_gen cx) ls (word_of_nat r) = Some l" and "static_inv cx vs ps ls" and "r \<le> u32_max"
  shows "round_inv cx vs ps ls F r (round_new (vs_len vs) l)"
proof -
  have "l < vs_len vs"
    using static_leader [OF assms(2), of "word_of_nat r"] assms(1) by auto
  then show ?thesis
    using assms by (simp add: round_inv_def round_new_wf)
qed

lemma round_inv_insert_echo:
  assumes "round_inv cx vs ps ls F r rd" and "finite F"
    and "msg_valid cx vs (instance_id ps) (mk_msg r (instance_id ps) (Echo h) v sg)"
  shows "round_inv cx vs ps ls F r (snd (insert_echo h v sg rd))"
proof -
  have v: "v < vs_len vs"
    using msg_valid_less [OF assms(3)] by simp
  have fin: "finite (signers (snd (insert_echo h v sg rd)) c)" for c
    using finite_signers [OF assms(1)] by (simp add: signers_insert_echo)
  have "backed vs (ftt ps) F (signers (snd (insert_echo h v sg rd)) c)"
    if "backed vs (ftt ps) F (signers rd c)" for c
    using that by (rule backed_mono [OF _ _ assms(2) fin]) (auto simp: signers_insert_echo)
  then show ?thesis
    using assms(1,3) v by (auto simp: round_inv_def round_wf_insert_echo holds_insert_echo)
qed

lemma round_inv_with_vote:
  assumes "round_inv cx vs ps ls F r rd" and "finite F"
    and "msg_valid cx vs (instance_id ps) (mk_msg r (instance_id ps) (Vote b) v sg)"
  shows "round_inv cx vs ps ls F r (with_vote b v sg rd)"
proof -
  have v: "v < vs_len vs"
    using msg_valid_less [OF assms(3)] by simp
  note wf = round_inv_wf [OF assms(1)]
  have fin: "finite (signers (with_vote b v sg rd) c)" for c
    using finite_signers [OF assms(1)] by (simp add: signers_with_vote [OF wf v])
  have "backed vs (ftt ps) F (signers (with_vote b v sg rd) c)"
    if "backed vs (ftt ps) F (signers rd c)" for c
    using that by (rule backed_mono [OF _ _ assms(2) fin]) (auto simp: signers_with_vote [OF wf v])
  then show ?thesis
    using assms(1,3) by (auto simp: round_inv_def round_wf_with_vote holds_with_vote [OF wf v])
qed

lemma round_inv_without:
  assumes "round_inv cx vs ps ls F r rd" and "finite F" and "v \<in> F"
  shows "round_inv cx vs ps ls F r (without v rd)"
proof -
  note wf = round_inv_wf [OF assms(1)]
  have fin: "finite (signers (without v rd) c)" for c
    using finite_signers [OF assms(1)] by (simp add: signers_without [OF wf])
  have "backed vs (ftt ps) F (signers (without v rd) c)" if "backed vs (ftt ps) F (signers rd c)" for c
    using that by (rule backed_mono [OF _ _ assms(2) fin]) (use assms(3) in \<open>auto simp: signers_without [OF wf]\<close>)
  then show ?thesis
    using assms(1) by (auto simp: round_inv_def round_wf_without holds_without [OF wf])
qed

text \<open>The shape and the signatures of a round do not depend on its proposal and outcome.\<close>

lemma round_inv_outcome:
  assumes "round_inv cx vs ps ls F r rd"
    and same: "leader_idx rd' = leader_idx rd" "echoes rd' = echoes rd" "votes rd' = votes rd"
    and "\<And>hp. proposal rd' = Some hp \<Longrightarrow> proposal_inv cx r hp \<and>
      (\<forall>h. quorum_echoes rd' = Some h \<longrightarrow> hp_hash hp = h)"
    and "accepted_proposal_height (outcome_of rd') \<noteq> None \<Longrightarrow>
      proposal rd' \<noteq> None \<and> quorum_echoes rd' \<noteq> None"
    and "\<And>h. quorum_echoes rd' = Some h \<Longrightarrow>
      quorum_echoes rd = Some h \<or> backed vs (ftt ps) F (signers rd (Echo h))"
    and "\<And>b. quorum_votes rd' = Some b \<Longrightarrow>
      quorum_votes rd = Some b \<or> backed vs (ftt ps) F (signers rd (Vote b))"
  shows "round_inv cx vs ps ls F r rd'"
  unfolding round_inv_def holds_cong [OF same(2,3)] signers_cong [OF same(2,3)]
    round_wf_cong [OF same] same(1)
  using assms(1,5-) by (auto simp: round_inv_def)

lemma round_inv_set_quorum_echoes:
  assumes "round_inv cx vs ps ls F r rd" and "quorum_echoes rd = None"
    and "backed vs (ftt ps) F (signers rd (Echo h))"
  shows "round_inv cx vs ps ls F r (set_quorum_echoes h rd)"
  using assms(1)
proof (rule round_inv_outcome)
  fix hp
  assume "proposal (set_quorum_echoes h rd) = Some hp"
  with assms(1) show "proposal_inv cx r hp \<and> (\<forall>h'. quorum_echoes (set_quorum_echoes h rd) = Some h' \<longrightarrow> hp_hash hp = h')"
    by (simp add: proposal_set_quorum_echoes round_inv_def)
qed (use assms in \<open>auto simp: round_inv_def\<close>)

lemma round_inv_set_quorum_votes:
  assumes "round_inv cx vs ps ls F r rd" and "backed vs (ftt ps) F (signers rd (Vote b))"
  shows "round_inv cx vs ps ls F r (set_quorum_votes b rd)"
  using assms(1) by (rule round_inv_outcome) (use assms in \<open>auto simp: round_inv_def\<close>)

lemma has_echoes_quorum: "has_echoes_for_proposal rd h \<Longrightarrow> quorum_echoes rd = Some h' \<Longrightarrow> h' = h"
  by (simp add: has_echoes_for_proposal_def)

lemma round_inv_insert_proposal:
  assumes "round_inv cx vs ps ls F r rd" and "has_echoes_for_proposal rd (hp_hash hp)"
    and "proposal_inv cx r hp"
  shows "round_inv cx vs ps ls F r (rd\<lparr>proposal := Some hp\<rparr>)"
  using assms(1) by (rule round_inv_outcome)
    (use assms has_echoes_quorum [OF assms(2)] in \<open>auto simp: round_inv_def\<close>)

lemma round_inv_set_accepted_proposal_height:
  assumes "round_inv cx vs ps ls F r rd" and "proposal rd \<noteq> None" and "quorum_echoes rd \<noteq> None"
  shows "round_inv cx vs ps ls F r (set_accepted_proposal_height k rd)"
  using assms(1) by (rule round_inv_outcome) (use assms in \<open>auto simp: round_inv_def\<close>)

lemma round_inv_prune_skipped:
  assumes "round_inv cx vs ps ls F r rd"
  shows "round_inv cx vs ps ls F r (prune_skipped rd)"
  using assms by (rule round_inv_outcome) auto

lemma round_inv_mono:
  assumes "round_inv cx vs ps ls F r rd" and "F \<subseteq> F'" and "finite F'"
  shows "round_inv cx vs ps ls F' r rd"
proof -
  have "backed vs (ftt ps) F' (signers rd c)" if "backed vs (ftt ps) F (signers rd c)" for c
    using that by (rule backed_mono) (use assms finite_signers [OF assms(1)] in auto)
  with assms(1) show ?thesis by (auto simp: round_inv_def)
qed

lemma rounds_inv_mono:
  "rounds_inv cx vs ps ls F rds \<Longrightarrow> F \<subseteq> F' \<Longrightarrow> finite F' \<Longrightarrow> rounds_inv cx vs ps ls F' rds"
  by (auto simp: rounds_inv_def intro: round_inv_mono)

subsection \<open>Chains\<close>

lemma chain_invD: "chain_inv rds \<Longrightarrow> acc rds r = Some (k, hp) \<Longrightarrow> extends rds r k hp"
  by (simp add: chain_inv_def)

text \<open>Induction along the parents of an accepted proposal.\<close>

lemma chain_induct [consumes 2, case_names first parent]:
  assumes "chain_inv rds" and "acc rds r = Some (k, hp)"
    and first: "\<And>r hp. acc rds r = Some (0, hp) \<Longrightarrow> maybe_parent_round_id hp = None \<Longrightarrow>
      (\<And>x. x < r \<Longrightarrow> skippable rds x) \<Longrightarrow> P r 0 hp"
    and parent: "\<And>r k hp q hp'. acc rds r = Some (Suc k, hp) \<Longrightarrow> maybe_parent_round_id hp = Some q \<Longrightarrow>
      q < r \<Longrightarrow> acc rds q = Some (k, hp') \<Longrightarrow> (\<And>x. q < x \<Longrightarrow> x < r \<Longrightarrow> skippable rds x) \<Longrightarrow>
      P q k hp' \<Longrightarrow> P r (Suc k) hp"
  shows "P r k hp"
  using assms(2)
proof (induction r arbitrary: k hp rule: less_induct)
  case (less r)
  note ext = chain_invD [OF assms(1) less.prems]
  show ?case
  proof (cases "maybe_parent_round_id hp")
    case None
    with ext less.prems show ?thesis
      by (auto simp: extends_def intro: first)
  next
    case (Some q)
    with ext obtain k' hp' where q: "q < r" "acc rds q = Some (k', hp')" "k = Suc k'"
      and gap: "\<And>x. q < x \<Longrightarrow> x < r \<Longrightarrow> skippable rds x"
      by (auto simp: extends_def)
    from q less.prems show ?thesis
      using parent [OF _ Some q(1,2) gap less.IH [OF q(1,2)]] by simp
  qed
qed

lemma chain_ids_first:
  "acc rds r = Some (k, hp) \<Longrightarrow> maybe_parent_round_id hp = None \<Longrightarrow> chain_ids rds r = [r]"
  by (simp add: chain_ids.simps)

lemma chain_ids_parent:
  "acc rds r = Some (k, hp) \<Longrightarrow> maybe_parent_round_id hp = Some q \<Longrightarrow> q < r \<Longrightarrow>
    chain_ids rds r = chain_ids rds q @ [r]"
  by (subst chain_ids.simps) simp

lemma chain_ids_props:
  assumes "chain_inv rds" and "acc rds r = Some (k, hp)"
  shows "sorted_wrt (<) (chain_ids rds r) \<and> length (chain_ids rds r) = Suc k \<and>
    chain_ids rds r \<noteq> [] \<and> last (chain_ids rds r) = r \<and> set (chain_ids rds r) \<subseteq> {..r}"
  using assms
proof (induction rule: chain_induct)
  case (first r hp)
  then show ?case by (simp add: chain_ids_first)
next
  case (parent r k hp q hp')
  then show ?case
    by (auto simp: chain_ids_parent [OF parent(1-3)] sorted_wrt_append)
qed

lemma chain_ids_self:
  assumes "chain_inv rds" and "acc rds r = Some (k, hp)"
  shows "r \<in> set (chain_ids rds r)"
  using chain_ids_props [OF assms] last_in_set [of "chain_ids rds r"] by simp

lemma chain_ids_gap:
  assumes "chain_inv rds" and "acc rds r = Some (k, hp)" and "x < r" and "x \<notin> set (chain_ids rds r)"
  shows "skippable rds x"
  using assms
proof (induction rule: chain_induct)
  case (first r hp)
  then show ?case by simp
next
  case (parent r k hp q hp')
  then have "x \<noteq> q" "x \<notin> set (chain_ids rds q)"
    using chain_ids_self [OF assms(1) parent(4)]
    by (auto simp: chain_ids_parent [OF parent(1-3)])
  with parent show ?case
    by (cases "x < q") auto
qed

lemma chain_ids_acc:
  assumes "chain_inv rds" and "acc rds r = Some (k, hp)" and "x \<in> set (chain_ids rds r)"
  shows "\<exists>k' hp'. acc rds x = Some (k', hp') \<and>
    (\<forall>q. maybe_parent_round_id hp' = Some q \<longrightarrow> q \<in> set (chain_ids rds r))"
  using assms
proof (induction rule: chain_induct)
  case (first r hp)
  then show ?case by (simp add: chain_ids_first)
next
  case (parent r k hp q hp')
  have "q \<in> set (chain_ids rds q)"
    by (rule chain_ids_self [OF assms(1) parent(4)])
  with parent show ?case
    by (auto simp: chain_ids_parent [OF parent(1-3)])
qed

subsection \<open>Growing and pruning\<close>

definition grows :: "('v, 'h, 's) rounds \<Rightarrow> ('v, 'h, 's) rounds \<Rightarrow> bool" where
  "grows rds rds' \<longleftrightarrow>
     (\<forall>x p. acc rds x = Some p \<longrightarrow> acc rds' x = Some p) \<and>
     (\<forall>x b. voted rds x = Some b \<longrightarrow> voted rds' x = Some b)"

lemma extends_grows: "grows rds rds' \<Longrightarrow> extends rds r k hp \<Longrightarrow> extends rds' r k hp"
  by (fastforce simp: extends_def grows_def split: option.splits)

lemma final_inv_grows: "grows rds rds' \<Longrightarrow> final_inv rds ev cur fnf \<Longrightarrow> final_inv rds' ev cur fnf"
  by (auto simp: final_inv_def grows_def)

lemma grows_acc: "grows rds rds' \<Longrightarrow> acc rds x \<noteq> None \<Longrightarrow> acc rds' x \<noteq> None"
  by (auto simp: grows_def)

lemma grows_voted: "grows rds rds' \<Longrightarrow> voted rds x = Some b \<Longrightarrow> voted rds' x = Some b"
  by (simp add: grows_def)

lemma prefix_inv_grows:
  assumes "grows rds rds'" and "prefix_inv rds ev cur"
  shows "prefix_inv rds' ev cur"
proof (cases ev)
  case False
  have "skippable rds' x \<or> acc rds' x \<noteq> None" if "x < cur" for x
  proof (cases "skippable rds x")
    case True
    with assms(1) show ?thesis by (simp add: grows_def)
  next
    case not_skippable: False
    with assms(2) False that have "acc rds x \<noteq> None" by (auto simp: prefix_inv_def)
    with assms(1) have "acc rds' x \<noteq> None" by (rule grows_acc)
    then show ?thesis ..
  qed
  then show ?thesis by (simp add: prefix_inv_def)
qed (simp add: prefix_inv_def)

lemma chain_inv_grows:
  assumes "chain_inv rds" and "grows rds rds'"
    and "\<And>r k hp. acc rds' r = Some (k, hp) \<Longrightarrow> acc rds r = None \<Longrightarrow> extends rds r k hp"
  shows "chain_inv rds'"
  unfolding chain_inv_def
proof (intro allI impI)
  fix r k hp
  assume *: "acc rds' r = Some (k, hp)"
  have "extends rds r k hp"
  proof (cases "acc rds r")
    case None
    with * show ?thesis by (rule assms(3))
  next
    case (Some p)
    with assms(2) * have "p = (k, hp)"
      by (cases p) (auto simp: grows_def)
    with assms(1) Some show ?thesis
      by (simp add: chain_inv_def)
  qed
  with assms(2) show "extends rds' r k hp"
    by (rule extends_grows)
qed

lemma pruned_acc: "pruned cx vs ls X rds rds' \<Longrightarrow> acc rds' x = (if x \<in> X then None else acc rds x)"
  by (auto simp: pruned_def acc_def round_accepted_proposal_def split: option.splits)

lemma pruned_voted: "pruned cx vs ls X rds rds' \<Longrightarrow> voted rds' x = voted rds x"
  by (auto simp: pruned_def voted_def split: option.splits)

lemma rounds_inv_pruned:
  assumes "rounds_inv cx vs ps ls F rds" and "static_inv cx vs ps ls"
    and "pruned cx vs ls X rds rds'" and "\<And>x. x \<in> X \<Longrightarrow> x \<le> u32_max"
  shows "rounds_inv cx vs ps ls F rds'"
  unfolding rounds_inv_def
proof (intro conjI allI impI)
  show "alist_ok rds'"
    using assms(3) by (simp add: pruned_def)
  fix x rd
  assume rd: "map_of rds' x = Some rd"
  show "round_inv cx vs ps ls F x rd"
  proof (cases "x \<in> X")
    case False
    with rd assms(1,3) show ?thesis
      by (simp add: pruned_def rounds_inv_def)
  next
    case True
    obtain l where "leader (cx_gen cx) ls (word_of_nat x) = Some l"
      using static_leader [OF assms(2)] by blast
    then have "round_inv cx vs ps ls F x (round_new (vs_len vs) (the (leader (cx_gen cx) ls (word_of_nat x))))"
      using round_inv_new [OF _ assms(2) assms(4)] True by simp
    moreover have "round_inv cx vs ps ls F x (prune_skipped rd')" if "map_of rds x = Some rd'" for rd'
      using rounds_invD [OF assms(1) that] by (rule round_inv_prune_skipped)
    ultimately show ?thesis
      using rd True assms(3) by (auto simp: pruned_def split: option.splits)
  qed
qed

text \<open>
  Pruning what is not an ancestor of a committed round breaks no chain: a proposal above that round
  cannot skip it.
\<close>

lemma chain_inv_finalize:
  assumes "chain_inv rds" and "acc rds r \<noteq> None" and "committed rds r"
    and "pruned cx vs ls ({fnf..<r} - set (chain_ids rds r)) rds rds'"
  shows "chain_inv rds'"
  unfolding chain_inv_def
proof (intro allI impI)
  fix x k hp
  assume x: "acc rds' x = Some (k, hp)"
  obtain kr hr where r: "acc rds r = Some (kr, hr)"
    using assms(2) by auto
  let ?X = "{fnf..<r} - set (chain_ids rds r)"
  have x': "acc rds x = Some (k, hp)" "x \<notin> ?X"
    using x pruned_acc [OF assms(4)] by (auto split: if_splits)
  have keep: "q \<notin> ?X" if q: "maybe_parent_round_id hp = Some q" for q
  proof
    assume "q \<in> ?X"
    from chain_invD [OF assms(1) x'(1)] q have "q < x" and gap: "\<And>y. q < y \<Longrightarrow> y < x \<Longrightarrow> skippable rds y"
      by (auto simp: extends_def)
    show False
    proof (cases "x \<in> set (chain_ids rds r)")
      case True
      with chain_ids_acc [OF assms(1) r True] x'(1) q \<open>q \<in> ?X\<close> show False by auto
    next
      case False
      have "r \<in> set (chain_ids rds r)"
        by (rule chain_ids_self [OF assms(1) r])
      with False x'(2) \<open>q \<in> ?X\<close> \<open>q < x\<close> have "q < r" "r < x"
        by (auto simp: not_less order.order_iff_strict)
      with gap assms(3) show False by simp
    qed
  qed
  from chain_invD [OF assms(1) x'(1)] show "extends rds' x k hp"
    unfolding extends_def pruned_voted [OF assms(4)] pruned_acc [OF assms(4)]
    by (auto split: option.splits dest: keep)
qed

subsection \<open>Every step\<close>

lemma zug_invD:
  assumes "zug_inv cx z"
  shows "collision_free cx"
    and "static_inv cx (validators z) (params z) (leader_sequence z)"
    and "rounds_inv cx (validators z) (params z) (leader_sequence z) (alist_keys (faults z)) (rounds z)"
    and "faults_inv cx (validators z) (instance_id (params z)) (faults z)"
    and "active_inv cx (validators z) (instance_id (params z)) (active z)"
    and "chain_inv (rounds z)"
    and "bounds_inv (current_round z) (maybe_dirty_round_id z) (first_non_finalized_round_id z)"
  using assms by (simp_all add: zug_inv_def)

lemma zug_inv_round:
  assumes "zug_inv cx z" and "zround z r = Some rd"
  shows "round_inv cx (validators z) (params z) (leader_sequence z) (alist_keys (faults z)) r rd"
  using zug_invD(3) [OF assms(1)] assms(2) by (simp add: rounds_inv_def zround_def)

lemma zug_inv_validators_wf: "zug_inv cx z \<Longrightarrow> validators_wf (validators z)"
  by (simp add: zug_inv_def static_inv_def)

lemma zug_inv_faults_wf: "zug_inv cx z \<Longrightarrow> faults_wf z"
  by (simp add: zug_inv_def faults_inv_def faults_wf_def faulty_set_def)

text \<open>A round that is not yet accepted and has an echo quorum may take its proposal as accepted.\<close>

lemma zug_inv_grow_round:
  assumes inv: "zug_inv cx z" and rd: "zround z r = Some rd"
    and rd': "round_inv cx (validators z) (params z) (leader_sequence z) (alist_keys (faults z)) r rd'"
    and acc: "round_accepted_proposal rd' = round_accepted_proposal rd \<or>
      round_accepted_proposal rd = None \<and>
      (\<forall>k hp. round_accepted_proposal rd' = Some (k, hp) \<longrightarrow> extends (rounds z) r k hp)"
    and votes: "quorum_votes rd' = quorum_votes rd \<or> quorum_votes rd = None"
  shows "zug_inv cx (put_round r rd' z)"
proof -
  let ?rds = "AList.update r rd' (rounds z)"
  have old: "Zug_Invariant.acc (rounds z) r = round_accepted_proposal rd" "voted (rounds z) r = quorum_votes rd"
    using rd by (simp_all add: zround_def acc_round voted_round)
  have grow: "grows (rounds z) ?rds"
    using acc votes old by (auto simp: grows_def)
  moreover have "chain_inv ?rds"
    using zug_invD(6) [OF inv] grow acc old by (rule_tac chain_inv_grows) (auto split: if_splits)
  ultimately show ?thesis
    using inv rd' by (auto simp: zug_inv_def rounds_inv_update intro: final_inv_grows prefix_inv_grows)
qed

text \<open>A proposal that may be inserted into an accepted round is the accepted one.\<close>

lemma accepted_insert_proposal:
  assumes inv: "zug_inv cx z" and rd: "zround z r = Some rd"
    and "has_echoes_for_proposal rd (hp_hash hp)" and "proposal_inv cx r hp"
  shows "round_accepted_proposal (rd\<lparr>proposal := Some hp\<rparr>) = round_accepted_proposal rd"
proof -
  note ri = zug_inv_round [OF inv rd]
  have "hp' = hp" if k: "accepted_proposal_height (outcome_of rd) = Some k" "proposal rd = Some hp'" for k hp'
  proof -
    obtain h where h: "quorum_echoes rd = Some h"
      using ri k by (auto simp: round_inv_def)
    have "hp_hash hp' = h" "hp_hash hp' = cx_hash_proposal cx (hp_inner hp')"
      using ri k h by (auto simp: round_inv_def proposal_inv_def)
    moreover have "hp_hash hp = h" "hp_hash hp = cx_hash_proposal cx (hp_inner hp)"
      using has_echoes_quorum [OF assms(3) h] assms(4) by (auto simp: proposal_inv_def)
    ultimately have "hp_hash hp' = hp_hash hp" "hp_inner hp' = hp_inner hp"
      using zug_invD(1) [OF inv] by (auto simp: collision_free_def dest: injD)
    then show ?thesis by simp
  qed
  moreover have "accepted_proposal_height (outcome_of rd) \<noteq> None \<Longrightarrow> proposal rd \<noteq> None"
    using ri by (auto simp: round_inv_def)
  ultimately show ?thesis
    by (cases "accepted_proposal_height (outcome_of rd)"; cases "proposal rd")
      (auto simp: round_accepted_proposal_def)
qed

lemma zug_inv_insert_proposal:
  assumes inv: "zug_inv cx z" and rd: "zround z r = Some rd"
    and "has_echoes_for_proposal rd (hp_hash hp)" and "proposal_inv cx r hp"
  shows "zug_inv cx (put_round r (rd\<lparr>proposal := Some hp\<rparr>) z)"
  using round_inv_insert_proposal [OF zug_inv_round [OF inv rd] assms(3,4)] rd
    accepted_insert_proposal [OF assms]
  by (intro zug_inv_put_round [OF inv]) auto

lemma zug_inv_finalize:
  assumes inv: "zug_inv cx z" and acc: "acc (rounds z) r \<noteq> None" and com: "committed (rounds z) r"
    and r: "r < current_round z \<or> current_round z = u32_max"
    and pruned: "pruned cx (validators z) (leader_sequence z)
      ({first_non_finalized_round_id z..<r} - set (chain_ids (rounds z) r)) (rounds z) rds"
  shows "zug_inv cx (z\<lparr>rounds := rds, first_non_finalized_round_id := sat_add32 r 1\<rparr>)"
proof -
  obtain k hp where khp: "Zug_Invariant.acc (rounds z) r = Some (k, hp)"
    using acc by auto
  note chain = zug_invD(6) [OF inv] and bounds = zug_invD(7) [OF inv]
  have r_max: "r \<le> u32_max"
    using r bounds zug_invD(3) [OF inv] khp
    by (auto simp: bounds_inv_def acc_def rounds_inv_def round_inv_def Option.bind_eq_Some_conv)
  have "rounds_inv cx (validators z) (params z) (leader_sequence z) (alist_keys (faults z)) rds"
    using zug_invD(3,2) [OF inv] pruned by (rule rounds_inv_pruned) (use r_max in auto)
  moreover have "chain_inv rds"
    using chain acc com pruned by (rule chain_inv_finalize)
  moreover have "final_inv rds (evidence_only z) (current_round z) (sat_add32 r 1)"
  proof (cases "r < u32_max")
    case True
    then show ?thesis
      using acc com by (simp add: final_inv_def pruned_acc [OF pruned] pruned_voted [OF pruned])
  next
    case False
    then show ?thesis
      using r bounds by (auto simp: final_inv_def bounds_inv_def)
  qed
  moreover have "prefix_inv rds (evidence_only z) (current_round z)"
  proof -
    have "skippable (rounds z) x" if "x \<in> {first_non_finalized_round_id z..<r} - set (chain_ids (rounds z) r)" for x
      using chain_ids_gap [OF chain khp] that by auto
    then show ?thesis
      using inv by (auto simp: zug_inv_def prefix_inv_def pruned_acc [OF pruned] pruned_voted [OF pruned])
  qed
  moreover have "bounds_inv (current_round z) (maybe_dirty_round_id z) (sat_add32 r 1)"
    using bounds r by (auto simp: bounds_inv_def sat_add32_def)
  ultimately show ?thesis
    using inv by (simp add: zug_inv_def)
qed

lemma zug_inv_fault:
  assumes inv: "zug_inv cx z" and ev: "evidence_valid cx (validators z) (instance_id (params z)) m c2 sg2"
    and v: "v = sm_validator_idx m"
  shows "zug_inv cx (z\<lparr>faults := AList.update v (Direct m c2 sg2) (faults z), active := (active z)[v := None],
    active_validator := (if our_idx z = Some v then None else active_validator z)\<rparr>)"
proof -
  have "v < nvals z"
    using ev v by (auto simp: evidence_valid_def dest: msg_valid_less)
  moreover have "rounds_inv cx (validators z) (params z) (leader_sequence z) (insert v (alist_keys (faults z))) (rounds z)"
    by (rule rounds_inv_mono [OF zug_invD(3) [OF inv]]) auto
  moreover have "faults_inv cx (validators z) (instance_id (params z)) (AList.update v (Direct m c2 sg2) (faults z))"
    using zug_invD(4) [OF inv] ev v \<open>v < nvals z\<close> by (auto simp: faults_inv_def split: if_splits)
  moreover have "active_inv cx (validators z) (instance_id (params z)) ((active z)[v := None])"
    using zug_invD(5) [OF inv] \<open>v < nvals z\<close> by (auto simp: active_inv_def nth_list_update split: if_splits)
  ultimately show ?thesis
    using inv by (simp add: zug_inv_def own_inv_def)
qed

lemma zug_inv_active:
  assumes inv: "zug_inv cx z" and "msg_valid cx (validators z) (instance_id (params z)) m"
  shows "zug_inv cx (z\<lparr>active := (active z)[sm_validator_idx m := Some m]\<rparr>)"
  using assms msg_valid_less [OF assms(2)] zug_invD(5) [OF inv]
  by (auto simp: zug_inv_def active_inv_def nth_list_update split: if_splits)

lemma zug_inv_mark_faulty:
  assumes inv: "zug_inv cx z" and "v < nvals z"
  shows "zug_inv cx (z\<lparr>faults := AList.update v Indirect (faults z)\<rparr>)"
proof -
  have "rounds_inv cx (validators z) (params z) (leader_sequence z) (insert v (alist_keys (faults z))) (rounds z)"
    by (rule rounds_inv_mono [OF zug_invD(3) [OF inv]]) auto
  moreover have "faults_inv cx (validators z) (instance_id (params z)) (AList.update v Indirect (faults z))"
    using zug_invD(4) [OF inv] assms(2) by (auto simp: faults_inv_def split: if_splits)
  ultimately show ?thesis
    using inv by (simp add: zug_inv_def)
qed

lemma zug_inv_advance:
  assumes inv: "zug_inv cx z"
    and "skippable (rounds z) (current_round z) \<or> acc (rounds z) (current_round z) \<noteq> None"
  shows "zug_inv cx (z\<lparr>current_round := sat_add32 (current_round z) 1\<rparr>)"
proof -
  have bounds: "current_round z \<le> u32_max"
    using zug_invD(7) [OF inv] by (simp add: bounds_inv_def)
  have "final_inv (rounds z) (evidence_only z) (sat_add32 (current_round z) 1) (first_non_finalized_round_id z)"
    using inv by (auto simp: zug_inv_def final_inv_def sat_add32_def)
  moreover have "prefix_inv (rounds z) (evidence_only z) (sat_add32 (current_round z) 1)"
    using inv assms(2) bounds
    by (cases "current_round z = u32_max")
      (auto simp: zug_inv_def prefix_inv_def sat_add32_def less_Suc_eq)
  moreover have "bounds_inv (sat_add32 (current_round z) 1) (maybe_dirty_round_id z) (first_non_finalized_round_id z)"
    using zug_invD(7) [OF inv] by (auto simp: bounds_inv_def sat_add32_def)
  ultimately show ?thesis
    using inv by (simp add: zug_inv_def)
qed

lemma zug_inv_evidence_only:
  "zug_inv cx z \<Longrightarrow> zug_inv cx (z\<lparr>evidence_only := True, rounds := [],
    proposals_waiting_for_parent := [], proposals_waiting_for_validation := []\<rparr>)"
  by (simp add: zug_inv_def rounds_inv_def chain_inv_def final_inv_def prefix_inv_def
      waiting_parent_inv_def waiting_validation_inv_def)

lemma round_accepted_proposal_cong:
  "outcome_of rd' = outcome_of rd \<Longrightarrow> proposal rd' = proposal rd \<Longrightarrow>
    round_accepted_proposal rd' = round_accepted_proposal rd"
  by (simp add: round_accepted_proposal_def)

lemma round_accepted_proposal_set_quorum_votes [simp]:
  "round_accepted_proposal (set_quorum_votes b rd) = round_accepted_proposal rd"
  by (simp add: round_accepted_proposal_def)

lemma round_accepted_proposal_None:
  "round_inv cx vs ps ls F r rd \<Longrightarrow> quorum_echoes rd = None \<Longrightarrow>
    accepted_proposal_height (outcome_of rd) = None"
  by (auto simp: round_inv_def)

theorem micro_inv:
  assumes "micro cx z fins msgs z'" and "zug_inv cx z"
  shows "zug_inv cx z'"
  using assms
proof (induction rule: micro.induct)
  case (mi_create_round z r l)
  have "round_inv cx (validators z) (params z) (leader_sequence z) (alist_keys (faults z)) r (round_new (nvals z) l)"
    using zug_invD(2) [OF mi_create_round.prems] mi_create_round.hyps by (simp add: round_inv_new)
  with mi_create_round show ?case
    by (intro zug_inv_put_round) auto
next
  case (mi_echo z r rd h v sg)
  note ri = round_inv_insert_echo [OF zug_inv_round [OF mi_echo.prems mi_echo.hyps(1)] finite_alist_keys mi_echo.hyps(2)]
  show ?case
    using mi_echo.hyps(1)
    by (intro zug_inv_put_round [OF mi_echo.prems ri]) (auto intro: round_accepted_proposal_cong)
next
  case (mi_vote z r rd b v sg)
  note ri = round_inv_with_vote [OF zug_inv_round [OF mi_vote.prems mi_vote.hyps(1)] finite_alist_keys mi_vote.hyps(2)]
  show ?case
    using mi_vote.hyps(1)
    by (intro zug_inv_put_round [OF mi_vote.prems ri]) (auto intro: round_accepted_proposal_cong)
next
  case (mi_sign_echo z r rd v m h sg entries)
  note ri = round_inv_insert_echo [OF zug_inv_round [OF mi_sign_echo.prems mi_sign_echo.hyps(1)] finite_alist_keys
      mi_sign_echo.hyps(5) [unfolded mi_sign_echo.hyps(4)]]
  show ?case
    using mi_sign_echo.hyps(1)
    by (intro zug_inv_put_round [OF mi_sign_echo.prems ri]) (auto intro: round_accepted_proposal_cong)
next
  case (mi_sign_vote z r rd v m b sg entries)
  note ri = round_inv_with_vote [OF zug_inv_round [OF mi_sign_vote.prems mi_sign_vote.hyps(1)] finite_alist_keys
      mi_sign_vote.hyps(5) [unfolded mi_sign_vote.hyps(4)]]
  show ?case
    using mi_sign_vote.hyps(1)
    by (intro zug_inv_put_round [OF mi_sign_vote.prems ri]) (auto intro: round_accepted_proposal_cong)
next
  case (mi_quorum_echoes z r rd h)
  note ri = zug_inv_round [OF mi_quorum_echoes.prems mi_quorum_echoes.hyps(1)]
  have "accepted_proposal_height (outcome_of rd) = None"
    using ri mi_quorum_echoes.hyps(2) by (rule round_accepted_proposal_None)
  then show ?case
    using mi_quorum_echoes round_inv_set_quorum_echoes [OF ri]
    by (intro zug_inv_put_round) (auto simp: quorum_backed round_accepted_proposal_def)
next
  case (mi_quorum_votes z r rd b)
  note ri = zug_inv_round [OF mi_quorum_votes.prems mi_quorum_votes.hyps(1)]
  show ?case
    using mi_quorum_votes round_inv_set_quorum_votes [OF ri]
    by (intro zug_inv_grow_round) (auto simp: quorum_backed)
next
  case (mi_proposal z r rd hp)
  then show ?case by (intro zug_inv_insert_proposal)
next
  case (mi_accept z r rd hp k)
  note ri = zug_inv_round [OF mi_accept.prems mi_accept.hyps(1)]
  have "round_accepted_proposal rd = None"
    using mi_accept.hyps(1,4) by (simp add: acc_round zround_def)
  moreover have "round_accepted_proposal (set_accepted_proposal_height k rd) = Some (k, hp)"
    using mi_accept.hyps(2) by (simp add: round_accepted_proposal_Some)
  ultimately show ?case
    using mi_accept round_inv_set_accepted_proposal_height [OF ri]
    by (intro zug_inv_grow_round) auto
next
  case (mi_finalize z r rds fins)
  then show ?case by (intro zug_inv_finalize)
next
  case (mi_advance z)
  then show ?case by (intro zug_inv_advance)
next
  case (mi_active z m)
  then show ?case by (intro zug_inv_active)
next
  case (mi_fault z m c2 sg2 v av)
  then show ?case
    unfolding mi_fault.hyps(3) by (intro zug_inv_fault)
next
  case (mi_remove z r rd v)
  note ri = zug_inv_round [OF mi_remove.prems mi_remove.hyps(1)]
  show ?case
    using mi_remove round_inv_without [OF ri]
    by (intro zug_inv_put_round) (auto simp: faulty_set_def intro: round_accepted_proposal_cong)
next
  case (mi_mark_faulty v z)
  then show ?case by (intro zug_inv_mark_faulty)
next
  case (mi_evidence_only z)
  then show ?case by (intro zug_inv_evidence_only)
qed (simp_all add: zug_inv_def bounds_inv_def own_inv_def)

section \<open>Runs of elementary steps\<close>

inductive mrun ::
  "('v, 'h, 's, 'i, 'k, 'x) ctx \<Rightarrow> ('v, 'h, 's, 'i, 'k, 'x) zug \<Rightarrow> ('v, 'k) finalized_block list \<Rightarrow>
     ('h, 'i, 's) signed_message list \<Rightarrow> ('v, 'h, 's, 'i, 'k, 'x) zug \<Rightarrow> bool"
  for cx where
  mrun_refl: "mrun cx z [] [] z"
| mrun_step: "mrun cx z fins msgs z' \<Longrightarrow> micro cx z' fins' msgs' z'' \<Longrightarrow>
    mrun cx z (fins @ fins') (msgs @ msgs') z''"

lemma mrun_micro: "micro cx z fins msgs z' \<Longrightarrow> mrun cx z fins msgs z'"
  using mrun_step [OF mrun_refl] by fastforce

lemma mrun_trans:
  assumes "mrun cx z' fins' msgs' z''" and "mrun cx z fins msgs z'"
  shows "mrun cx z (fins @ fins') (msgs @ msgs') z''"
  using assms
proof (induction rule: mrun.induct)
  case (mrun_refl z)
  then show ?case by simp
next
  case (mrun_step z fins' msgs' z' fins'' msgs'' z'')
  from mrun.mrun_step [OF mrun_step.IH [OF mrun_step.prems] mrun_step.hyps(2)] show ?case by simp
qed

theorem mrun_inv: "mrun cx z fins msgs z' \<Longrightarrow> zug_inv cx z \<Longrightarrow> zug_inv cx z'"
  by (induction rule: mrun.induct) (auto intro: micro_inv)

end
