(* ===== verification/Zug_Simulation.thy ===== *)
theory Zug_Simulation
  imports Zug_Step
begin

text \<open>
  The operations of \<open>Zug_Ops\<close> are sequences of the elementary steps of \<open>Zug_Step\<close>: they never panic
  and always return, and what they finalize and sign is what their outcomes say.

  \<open>reaches cx z0 os z\<close> says that elementary steps lead from a state \<open>z0\<close> that satisfies the invariant
  to \<open>z\<close>, finalizing exactly the blocks the outcomes \<open>os\<close> announce, in that order, and signing every
  message of ours that \<open>os\<close> sends. \<open>calm cx z0 os z1 z\<close> says in addition that since \<open>z1\<close> no proposal
  has been accepted or pruned and the current round is still the same. Every lemma has the form of a
  Hoare triple: from such a state the operation returns and leads to such a state.
\<close>

section \<open>What outcomes announce\<close>

fun finalized_of :: "('v, 'h, 's, 'i, 'k) outcome \<Rightarrow> ('v, 'k) finalized_block list" where
  "finalized_of (FinalizedBlock b) = [b]"
| "finalized_of _ = []"

fun signed_of :: "('v, 'h, 's, 'i, 'k) outcome \<Rightarrow> ('h, 'i, 's) signed_message list" where
  "signed_of (CreatedGossipMessage (Signed m)) = [m]"
| "signed_of (CreatedGossipMessage (ProposalMsg _ _ _ m)) = [m]"
| "signed_of _ = []"

definition finalized_in :: "('v, 'h, 's, 'i, 'k) outcome list \<Rightarrow> ('v, 'k) finalized_block list" where
  "finalized_in os = concat (map finalized_of os)"

definition signed_in :: "('v, 'h, 's, 'i, 'k) outcome list \<Rightarrow> ('h, 'i, 's) signed_message list" where
  "signed_in os = concat (map signed_of os)"

lemma finalized_simps [simp]:
  "finalized_in [] = []" "finalized_in (a # os) = finalized_of a @ finalized_in os"
  "finalized_in (os @ os') = finalized_in os @ finalized_in os'"
  by (simp_all add: finalized_in_def)

lemma signed_simps [simp]:
  "signed_in [] = []" "signed_in (a # os) = signed_of a @ signed_in os"
  "signed_in (os @ os') = signed_in os @ signed_in os'"
  by (simp_all add: signed_in_def)

definition reaches ::
  "('v, 'h, 's, 'i, 'k, 'x) ctx \<Rightarrow> ('v, 'h, 's, 'i, 'k, 'x) zug \<Rightarrow> ('v, 'h, 's, 'i, 'k) outcome list \<Rightarrow>
     ('v, 'h, 's, 'i, 'k, 'x) zug \<Rightarrow> bool" where
  "reaches cx z0 os z \<longleftrightarrow>
     zug_inv cx z0 \<and> (\<exists>msgs. mrun cx z0 (finalized_in os) msgs z \<and> set (signed_in os) \<subseteq> set msgs)"

lemma reaches_refl: "zug_inv cx z \<Longrightarrow> reaches cx z [] z"
  using mrun_refl by (auto simp: reaches_def)

lemma reaches_inv: "reaches cx z0 os z \<Longrightarrow> zug_inv cx z"
  by (auto simp: reaches_def intro: mrun_inv)

lemma reaches_step:
  assumes "reaches cx z0 os z" and "micro cx z (finalized_in os') msgs z'" and "set (signed_in os') \<subseteq> set msgs"
  shows "reaches cx z0 (os @ os') z'"
proof -
  from assms(1) obtain msgs0 where *: "zug_inv cx z0" "mrun cx z0 (finalized_in os) msgs0 z"
    "set (signed_in os) \<subseteq> set msgs0"
    by (auto simp: reaches_def)
  from mrun_step [OF *(2) assms(2)]
  have "mrun cx z0 (finalized_in (os @ os')) (msgs0 @ msgs) z'"
    by simp
  moreover have "set (signed_in (os @ os')) \<subseteq> set (msgs0 @ msgs)"
    using *(3) assms(3) by auto
  ultimately show ?thesis
    using *(1) unfolding reaches_def by blast
qed

lemma reaches_micro: "reaches cx z0 os z \<Longrightarrow> micro cx z [] [] z' \<Longrightarrow> reaches cx z0 os z'"
  using reaches_step [of cx z0 os z "[]"] by simp

text \<open>Outcomes that announce the same blocks and no more signed messages are as good.\<close>

lemma reaches_outcomes:
  "reaches cx z0 os z \<Longrightarrow> finalized_in os' = finalized_in os \<Longrightarrow> set (signed_in os') \<subseteq> set (signed_in os) \<Longrightarrow>
    reaches cx z0 os' z"
  by (auto simp: reaches_def)

definition quiet :: "('v, 'h, 's, 'i, 'k) outcome list \<Rightarrow> bool" where
  "quiet os \<longleftrightarrow> finalized_in os = [] \<and> signed_in os = []"

lemma quiet_simps [simp]:
  "quiet []" "quiet (a # os) \<longleftrightarrow> finalized_of a = [] \<and> signed_of a = [] \<and> quiet os"
  by (auto simp: quiet_def)

lemma reaches_quiet: "reaches cx z0 os z \<Longrightarrow> quiet os' \<Longrightarrow> reaches cx z0 (os @ os') z"
  by (rule reaches_outcomes) (auto simp: quiet_def)

lemma reaches_trans:
  assumes "reaches cx z0 os z" and "reaches cx z os' z'"
  shows "reaches cx z0 (os @ os') z'"
proof -
  from assms obtain ms ms' where "mrun cx z0 (finalized_in os) ms z" "mrun cx z (finalized_in os') ms' z'"
    "set (signed_in os) \<subseteq> set ms" "set (signed_in os') \<subseteq> set ms'" "zug_inv cx z0"
    by (auto simp: reaches_def)
  moreover from this have "mrun cx z0 (finalized_in (os @ os')) (ms @ ms') z'"
    using mrun_trans by fastforce
  moreover from calculation have "set (signed_in (os @ os')) \<subseteq> set (ms @ ms')"
    by auto
  ultimately show ?thesis
    unfolding reaches_def by blast
qed

section \<open>Steps that leave the chain alone\<close>

definition keeps :: "('v, 'h, 's, 'i, 'k, 'x) zug \<Rightarrow> ('v, 'h, 's, 'i, 'k, 'x) zug \<Rightarrow> bool" where
  "keeps z z' \<longleftrightarrow>
     acc (rounds z') = acc (rounds z) \<and>
     (\<forall>x b. voted (rounds z) x = Some b \<longrightarrow> voted (rounds z') x = Some b) \<and>
     current_round z' = current_round z \<and>
     first_non_finalized_round_id z' = first_non_finalized_round_id z \<and>
     evidence_only z' = evidence_only z \<and>
     validators z' = validators z \<and> params z' = params z \<and> leader_sequence z' = leader_sequence z \<and>
     config z' = config z"

lemma keeps_refl [simp]: "keeps z z"
  by (simp add: keeps_def)

lemma keeps_trans: "keeps z z' \<Longrightarrow> keeps z' z'' \<Longrightarrow> keeps z z''"
  by (simp add: keeps_def)

lemma keeps_put_round:
  assumes "zround z r = Some rd \<and> round_accepted_proposal rd' = round_accepted_proposal rd \<and>
      (quorum_votes rd' = quorum_votes rd \<or> quorum_votes rd = None) \<or>
    zround z r = None \<and> round_accepted_proposal rd' = None"
  shows "keeps z (put_round r rd' z)"
  using assms by (auto simp: keeps_def fun_eq_iff zround_def acc_def voted_def)

definition calm ::
  "('v, 'h, 's, 'i, 'k, 'x) ctx \<Rightarrow> ('v, 'h, 's, 'i, 'k, 'x) zug \<Rightarrow> ('v, 'h, 's, 'i, 'k) outcome list \<Rightarrow>
     ('v, 'h, 's, 'i, 'k, 'x) zug \<Rightarrow> ('v, 'h, 's, 'i, 'k, 'x) zug \<Rightarrow> bool" where
  "calm cx z0 os z1 z \<longleftrightarrow> reaches cx z0 os z \<and> keeps z1 z"

lemma calm_refl: "reaches cx z0 os z \<Longrightarrow> calm cx z0 os z z"
  by (simp add: calm_def)

lemma calm_inv: "calm cx z0 os z1 z \<Longrightarrow> zug_inv cx z"
  by (auto simp: calm_def dest: reaches_inv)

lemma calm_micro: "calm cx z0 os z1 z \<Longrightarrow> micro cx z [] [] z' \<Longrightarrow> keeps z z' \<Longrightarrow> calm cx z0 os z1 z'"
  by (auto simp: calm_def intro: reaches_micro keeps_trans)

lemma calm_outcomes:
  "calm cx z0 os z1 z \<Longrightarrow> finalized_in os' = finalized_in os \<Longrightarrow> set (signed_in os') \<subseteq> set (signed_in os) \<Longrightarrow>
    calm cx z0 os' z1 z"
  by (auto simp: calm_def intro: reaches_outcomes)

lemma calm_quiet: "calm cx z0 os z1 z \<Longrightarrow> quiet os' \<Longrightarrow> calm cx z0 (os @ os') z1 z"
  by (simp add: calm_def reaches_quiet)

lemma calm_sign:
  "calm cx z0 os z1 z \<Longrightarrow> micro cx z [] [m] z' \<Longrightarrow> keeps z z' \<Longrightarrow>
    calm cx z0 (os @ [CreatedGossipMessage (Signed m)]) z1 z'"
  by (auto simp: calm_def intro: reaches_step keeps_trans)

text \<open>Bookkeeping.\<close>

lemma calm_timeout:
  "calm cx z0 os z1 z \<Longrightarrow> calm cx z0 os z1 (z\<lparr>proposal_timeout_millis := t\<rparr>)"
  by (rule calm_micro [OF _ mi_timeout]) (simp_all add: keeps_def)

lemma calm_round_start:
  "calm cx z0 os z1 z \<Longrightarrow> calm cx z0 os z1 (z\<lparr>current_round_start := ts\<rparr>)"
  by (rule calm_micro [OF _ mi_round_start]) (simp_all add: keeps_def)

lemma calm_progress:
  "calm cx z0 os z1 z \<Longrightarrow> calm cx z0 os z1 (z\<lparr>progress_detected := b\<rparr>)"
  by (rule calm_micro [OF _ mi_progress]) (simp_all add: keeps_def)

lemma calm_schedule:
  "calm cx z0 os z1 z \<Longrightarrow> calm cx z0 os z1 (z\<lparr>next_scheduled_update := ts\<rparr>)"
  by (rule calm_micro [OF _ mi_schedule]) (simp_all add: keeps_def)

lemma calm_sync_requests:
  "calm cx z0 os z1 z \<Longrightarrow> calm cx z0 os z1 (z\<lparr>sent_sync_requests := ids\<rparr>)"
  by (rule calm_micro [OF _ mi_sync_requests]) (simp_all add: keeps_def)

lemma calm_paused:
  "calm cx z0 os z1 z \<Longrightarrow> calm cx z0 os z1 (z\<lparr>paused := b\<rparr>)"
  by (rule calm_micro [OF _ mi_paused]) (simp_all add: keeps_def)

lemma calm_waiting_parent:
  "calm cx z0 os z1 z \<Longrightarrow> waiting_parent_inv cx w \<Longrightarrow> calm cx z0 os z1 (z\<lparr>proposals_waiting_for_parent := w\<rparr>)"
  by (rule calm_micro [OF _ mi_waiting_parent]) (simp_all add: keeps_def)

lemma calm_waiting_validation:
  "calm cx z0 os z1 z \<Longrightarrow> waiting_validation_inv cx w \<Longrightarrow> calm cx z0 os z1 (z\<lparr>proposals_waiting_for_validation := w\<rparr>)"
  by (rule calm_micro [OF _ mi_waiting_validation]) (simp_all add: keeps_def)

lemma calm_pending:
  "calm cx z0 os z1 z \<Longrightarrow> pending_inv p \<Longrightarrow> calm cx z0 os z1 (z\<lparr>pending_proposal := p\<rparr>)"
  by (rule calm_micro [OF _ mi_pending]) (simp_all add: keeps_def)

lemma calm_wal_append:
  "calm cx z0 os z1 z \<Longrightarrow> write_wal z = Some entries \<Longrightarrow>
    entry_valid cx (validators z) (instance_id (params z)) e \<Longrightarrow>
    calm cx z0 os z1 (z\<lparr>write_wal := Some (entries @ [e])\<rparr>)"
  by (rule calm_micro [OF _ mi_wal_append]) (simp_all add: keeps_def)

lemma calm_wal_close:
  "calm cx z0 os z1 z \<Longrightarrow> calm cx z0 os z1 (z\<lparr>write_wal := None\<rparr>)"
  by (rule calm_micro [OF _ mi_wal_close]) (simp_all add: keeps_def)

lemma calm_deactivate:
  "calm cx z0 os z1 z \<Longrightarrow> calm cx z0 os z1 (z\<lparr>active_validator := None\<rparr>)"
  by (rule calm_micro [OF _ mi_deactivate]) (simp_all add: keeps_def)

lemma calm_mark_dirty:
  assumes "calm cx z0 os z1 z"
  shows "calm cx z0 os z1 (mark_dirty r z)"
proof -
  have "calm cx z0 os z1 (z\<lparr>maybe_dirty_round_id := Some r\<rparr>)" if "r \<le> current_round z"
    using that by (intro calm_micro [OF assms mi_dirty]) (simp_all add: keeps_def)
  then show ?thesis
    using assms by (simp add: mark_dirty_def)
qed

lemma calm_schedule_update:
  assumes "calm cx z0 os z1 z"
  shows "calm cx z0 (os @ fst (schedule_update ts z)) z1 (snd (schedule_update ts z))"
  using assms calm_quiet [OF calm_schedule [OF assms]] by (simp add: schedule_update_def)

lemma calm_update_proposal_timeout:
  "calm cx z0 os z1 z \<Longrightarrow> calm cx z0 os z1 (update_proposal_timeout cx now z)"
  unfolding update_proposal_timeout_def Let_def if_distrib [of "calm cx z0 os z1"]
  by (simp only: calm_timeout if_True if_cancel)

lemma record_entry_cases:
  obtains "record_entry cx e z = (False, z)" "write_wal z = None"
  | entries where "record_entry cx e z = (True, z\<lparr>write_wal := Some (entries @ [e])\<rparr>)" "write_wal z = Some entries"
  | "record_entry cx e z = (False, z\<lparr>active_validator := None, write_wal := None\<rparr>)"
proof (cases "write_wal z")
  case None
  then show thesis by (intro that(1)) (simp_all add: record_entry_def)
next
  case (Some entries)
  show thesis
  proof (cases "cx_wal_write cx entries e")
    case True
    with Some show thesis by (intro that(2)) (simp_all add: record_entry_def)
  next
    case False
    with Some show thesis by (intro that(3)) (simp add: record_entry_def)
  qed
qed

lemma calm_record_entry:
  assumes "calm cx z0 os z1 z" and "entry_valid cx (validators z) (instance_id (params z)) e"
  shows "calm cx z0 os z1 (snd (record_entry cx e z))"
  by (rule record_entry_cases [of cx e z])
    (simp_all add: assms calm_wal_append calm_wal_close [OF calm_deactivate])

section \<open>Rounds and quorums\<close>

lemma zug_leader_ok:
  assumes "zug_inv cx z"
  shows "\<exists>l < nvals z. zug_leader cx z r = Some l"
proof (cases "zround z r")
  case None
  then show ?thesis
    using static_leader [OF zug_invD(2) [OF assms]] by (simp add: zug_leader_def)
next
  case (Some rd)
  then show ?thesis
    using zug_inv_round [OF assms Some] by (auto simp: zug_leader_def round_inv_def round_wf_def)
qed

lemma calm_round_mut:
  assumes "calm cx z0 os z1 z" and "r \<le> u32_max"
  shows "wp (round_mut cx r z) (\<lambda>(rd, z').
    calm cx z0 os z1 z' \<and> zround z' r = Some rd \<and>
    (z' = z \<or> zround z r = None \<and> (\<exists>l. rd = round_new (nvals z) l) \<and> z' = put_round r rd z))"
proof (cases "zround z r")
  case None
  obtain l where l: "leader (cx_gen cx) (leader_sequence z) (word_of_nat r) = Some l"
    using static_leader [OF zug_invD(2) [OF calm_inv [OF assms(1)]]] by blast
  have "calm cx z0 os z1 (put_round r (round_new (nvals z) l) z)"
    using assms(1) mi_create_round [OF None assms(2) l]
    by (rule calm_micro) (use None in \<open>auto intro: keeps_put_round\<close>)
  with None l show ?thesis
    by (auto simp: round_mut_def Let_def)
qed (use assms in \<open>simp add: round_mut_def\<close>)

lemma calm_set_quorum_echoes:
  assumes "calm cx z0 os z1 z" and "zround z r = Some rd" and "quorum_echoes rd = None"
    and "quorum z (signers rd (Echo h))"
  shows "calm cx z0 os z1 (put_round r (set_quorum_echoes h rd) z)"
proof -
  have "accepted_proposal_height (outcome_of rd) = None"
    using zug_inv_round [OF calm_inv [OF assms(1)] assms(2)] assms(3) by (rule round_accepted_proposal_None)
  then have "keeps z (put_round r (set_quorum_echoes h rd) z)"
    using assms(2) by (intro keeps_put_round) (auto simp: round_accepted_proposal_def)
  with assms show ?thesis
    by (blast intro: calm_micro mi_quorum_echoes)
qed

lemma calm_check_new_echo_quorum:
  assumes calm: "calm cx z0 os z1 z"
    and known: "\<And>rd. zround z r = Some rd \<Longrightarrow> quorum_echoes rd = None \<Longrightarrow> map_of (echoes rd) h \<noteq> None"
  shows "wp (check_new_echo_quorum cx r h z) (\<lambda>(b, z').
    calm cx z0 os z1 z' \<and>
    (\<not> b \<longrightarrow> z' = z) \<and>
    (\<forall>rd. zround z r = Some rd \<longrightarrow> (\<exists>rd'. zround z' r = Some rd' \<and> echoes rd' = echoes rd \<and> votes rd' = votes rd)))"
proof (cases "zround z r")
  case (Some rd)
  note inv = calm_inv [OF calm] and ri = zug_inv_round [OF calm_inv [OF calm] Some]
  show ?thesis
  proof (cases "quorum_echoes rd")
    case None
    then obtain m where m: "map_of (echoes rd) h = Some m"
      using known [OF Some] by blast
    have "is_quorum z (map fst m) = Some (quorum z (set (map fst m)))"
      using round_wf_echo_map [OF round_inv_wf [OF ri] m] inv
      by (intro is_quorum_exact)
        (simp_all add: zug_inv_validators_wf zug_inv_faults_wf alist_ok_def alist_keys_def)
    then have "is_quorum z (map fst m) = Some (quorum z (signers rd (Echo h)))"
      by (simp add: signers_Echo [OF m] alist_keys_def)
    then show ?thesis
      using Some None m calm calm_set_quorum_echoes [OF calm Some None, of h]
      by (simp add: check_new_echo_quorum_def round_mut_def)
  qed (use Some calm in \<open>simp add: check_new_echo_quorum_def\<close>)
qed (use calm in \<open>simp add: check_new_echo_quorum_def\<close>)

lemma calm_check_new_vote_quorum:
  assumes calm: "calm cx z0 os z1 z"
  shows "wp (check_new_vote_quorum cx r b z) (\<lambda>(q, z').
    calm cx z0 os z1 z' \<and>
    (\<not> q \<longrightarrow> z' = z) \<and>
    (\<forall>rd. zround z r = Some rd \<longrightarrow> (\<exists>rd'. zround z' r = Some rd' \<and> echoes rd' = echoes rd \<and> votes rd' = votes rd)))"
proof (cases "zround z r")
  case (Some rd)
  note inv = calm_inv [OF calm] and ri = zug_inv_round [OF calm_inv [OF calm] Some]
  show ?thesis
  proof (cases "quorum_votes rd")
    case None
    have len: "length (votes rd b) = nvals z" "length (votes rd b) \<le> 2 ^ 32"
      using round_wf_votes [OF round_inv_wf [OF ri]] validators_wf_len [OF zug_inv_validators_wf [OF inv]]
      by simp_all
    have "is_quorum z (keys_some (votes rd b)) = Some (quorum z (set (keys_some (votes rd b))))"
      using inv len by (intro is_quorum_exact)
        (auto simp: zug_inv_validators_wf zug_inv_faults_wf distinct_keys_some set_keys_some)
    moreover have "set (keys_some (votes rd b)) = signers rd (Vote b)"
      using len by (simp add: set_keys_some signers_Vote)
    moreover have "calm cx z0 os z1 (put_round r (set_quorum_votes b rd) z)" if "quorum z (signers rd (Vote b))"
      using calm mi_quorum_votes [OF Some None that]
      by (rule calm_micro) (use Some None in \<open>auto intro: keeps_put_round\<close>)
    ultimately show ?thesis
      using Some None calm by (simp add: check_new_vote_quorum_def round_mut_def)
  qed (use Some calm in \<open>simp add: check_new_vote_quorum_def\<close>)
qed (use calm in \<open>simp add: check_new_vote_quorum_def\<close>)

section \<open>Adding and creating signed messages\<close>

lemma mark_dirty_simps [simp]:
  "params (mark_dirty r z) = params z"
  "validators (mark_dirty r z) = validators z"
  "active_validator (mark_dirty r z) = active_validator z"
  "rounds (mark_dirty r z) = rounds z"
  "faults (mark_dirty r z) = faults z"
  "active (mark_dirty r z) = active z"
  "current_round (mark_dirty r z) = current_round z"
  "write_wal (mark_dirty r z) = write_wal z"
  by (simp_all add: mark_dirty_def)

lemma zround_mark_dirty [simp]: "zround (mark_dirty r z) x = zround z x"
  by (simp add: zround_def)

lemma zround_progress [simp]: "zround (z\<lparr>progress_detected := b\<rparr>) x = zround z x"
  by (simp add: zround_def)

lemma calm_note_active:
  assumes calm: "calm cx z0 os z1 z" and m: "msg_valid cx (validators z) (instance_id (params z)) m"
  shows "wp (note_active m z) (\<lambda>z'. calm cx z0 os z1 z' \<and> rounds z' = rounds z \<and> params z' = params z \<and>
    validators z' = validators z \<and> active_validator z' = active_validator z \<and> write_wal z' = write_wal z)"
proof -
  have idx: "sm_validator_idx m < length (active z)"
    using zug_invD(5) [OF calm_inv [OF calm]] msg_valid_less [OF m] by (simp add: active_inv_def)
  have step: "calm cx z0 os z1 (z'\<lparr>active := (active z')[sm_validator_idx m := Some m]\<rparr>)"
    if "calm cx z0 os z1 z'" "msg_valid cx (validators z') (instance_id (params z')) m" for z'
    using that by (auto intro!: calm_micro [OF that(1)] mi_active simp: keeps_def)
  have "calm cx z0 os z1 ((mark_dirty (first_non_finalized_round_id z) z)
      \<lparr>active := (active z)[sm_validator_idx m := Some m]\<rparr>)"
    using step [OF calm_mark_dirty [OF calm], of "first_non_finalized_round_id z"] m by simp
  then show ?thesis
    using idx calm m step [OF calm]
    by (cases "active z ! sm_validator_idx m") (simp_all add: note_active_def vmap_get_def Let_def)
qed

text \<open>When we may sign a message: it is ours, it is recorded, and we have not signed its kind yet.\<close>

definition may_sign :: "('v, 'h, 's, 'i, 'k, 'x) zug \<Rightarrow> ('h, 'i, 's) signed_message \<Rightarrow> bool" where
  "may_sign z m \<longleftrightarrow>
     our_idx z = Some (sm_validator_idx m) \<and>
     (\<exists>entries. write_wal z = Some entries \<and> WalSignedMessage m \<in> set entries) \<and>
     (\<forall>rd. zround z (sm_round_id m) = Some rd \<longrightarrow>
        (case sm_content m of
           Echo _ \<Rightarrow> \<not> round_has_echoed rd (sm_validator_idx m)
         | Vote _ \<Rightarrow> round_has_voted rd (sm_validator_idx m) = Some False))"

definition gossip_if :: "bool \<Rightarrow> ('h, 'i, 's) signed_message \<Rightarrow> ('v, 'h, 's, 'i, 'k) outcome list" where
  "gossip_if b m = (if b then [CreatedGossipMessage (Signed m)] else [])"

lemma round_new_not_signed:
  "\<not> round_has_echoed (round_new n l) v" "v < n \<Longrightarrow> round_has_voted (round_new n l) v = Some False"
  by (simp_all add: round_has_echoed_def round_has_voted_def vmap_get_def)

lemma calm_insert_echo:
  assumes calm: "calm cx z0 os z1 z" and rd: "zround z r = Some rd"
    and m: "m = mk_msg r (instance_id (params z)) (Echo h) v sg"
    and valid: "msg_valid cx (validators z) (instance_id (params z)) m"
    and own: "own \<Longrightarrow> may_sign z m"
  shows "calm cx z0 (os @ gossip_if own m) z1 (put_round r (snd (insert_echo h v sg rd)) z)"
proof -
  have keep: "keeps z (put_round r (snd (insert_echo h v sg rd)) z)"
    using rd by (intro keeps_put_round) (auto intro: round_accepted_proposal_cong)
  show ?thesis
  proof (cases own)
    case True
    with own [OF True] rd m valid show ?thesis
      by (auto simp: gossip_if_def may_sign_def intro!: calm_sign [OF calm _ keep] mi_sign_echo [OF rd])
  next
    case False
    with rd m valid show ?thesis
      by (auto simp: gossip_if_def intro!: calm_micro [OF calm _ keep] mi_echo [OF rd])
  qed
qed

lemma calm_insert_vote:
  assumes calm: "calm cx z0 os z1 z" and rd: "zround z r = Some rd"
    and m: "m = mk_msg r (instance_id (params z)) (Vote b) v sg"
    and valid: "msg_valid cx (validators z) (instance_id (params z)) m"
    and new: "v \<notin> signers rd (Vote b)"
    and own: "own \<Longrightarrow> may_sign z m"
  shows "calm cx z0 (os @ gossip_if own m) z1 (put_round r (with_vote b v sg rd) z)"
proof -
  have keep: "keeps z (put_round r (with_vote b v sg rd) z)"
    using rd by (intro keeps_put_round) (auto intro: round_accepted_proposal_cong)
  show ?thesis
  proof (cases own)
    case True
    with own [OF True] rd m valid show ?thesis
      by (auto simp: gossip_if_def may_sign_def intro!: calm_sign [OF calm _ keep] mi_sign_vote [OF rd])
  next
    case False
    with rd m valid new show ?thesis
      by (auto simp: gossip_if_def intro!: calm_micro [OF calm _ keep] mi_vote [OF rd])
  qed
qed

lemma alist_update_same: "map_of m k = Some v \<Longrightarrow> AList.update k v m = m"
  by (induction m) auto

lemma put_round_same: "zround z r = Some rd \<Longrightarrow> put_round r rd z = z"
  by (simp add: put_round_def zround_def alist_update_same)

lemma may_sign_new:
  assumes "may_sign z m" and "zround z (sm_round_id m) = Some rd" and "round_wf n rd"
    and "sm_validator_idx m < n"
  shows "sm_validator_idx m \<notin> signers rd (sm_content m)"
  using assms round_has_echoed_iff [OF assms(3)] round_has_voted_iff [OF assms(3,4)]
  by (cases "sm_content m") (auto simp: may_sign_def)

text \<open>The second part of \<open>add_content\<close>, once the round exists.\<close>

definition in_round :: "('v, 'h, 's, 'i, 'k, 'x) zug \<Rightarrow> ('h, 'i, 's) signed_message \<Rightarrow> bool" where
  "in_round z m \<longleftrightarrow>
     (\<exists>rd. zround z (sm_round_id m) = Some rd \<and> sm_validator_idx m \<in> signers rd (sm_content m))"

lemma calm_add_echo:
  assumes calm: "calm cx z0 os z1 z" and rd: "zround z (sm_round_id m) = Some rd"
    and valid: "msg_valid cx (validators z) (instance_id (params z)) m"
    and own: "own \<Longrightarrow> may_sign z m" and c: "sm_content m = Echo h"
    and new: "fst (insert_echo h (sm_validator_idx m) (sm_signature m) rd)"
  shows "wp (check_new_echo_quorum cx (sm_round_id m) h
      (put_round (sm_round_id m) (snd (insert_echo h (sm_validator_idx m) (sm_signature m) rd)) z
        \<lparr>progress_detected := True\<rparr>))
    (\<lambda>(q, z'). calm cx z0 (os @ gossip_if own m) z1 z' \<and> in_round z' m)"
proof -
  let ?rd = "snd (insert_echo h (sm_validator_idx m) (sm_signature m) rd)"
  let ?z = "put_round (sm_round_id m) ?rd z\<lparr>progress_detected := True\<rparr>"
  have m: "m = mk_msg (sm_round_id m) (instance_id (params z)) (Echo h) (sm_validator_idx m) (sm_signature m)"
    using valid c mk_msg_eq [of m] by (simp add: msg_valid_def)
  have "calm cx z0 (os @ gossip_if own m) z1 ?z"
    by (rule calm_progress [OF calm_insert_echo [OF calm rd m valid own]])
  then have "wp (check_new_echo_quorum cx (sm_round_id m) h ?z)
    (\<lambda>(q, z'). calm cx z0 (os @ gossip_if own m) z1 z' \<and> (\<not> q \<longrightarrow> z' = ?z) \<and>
      (\<forall>rd. zround ?z (sm_round_id m) = Some rd \<longrightarrow>
        (\<exists>rd'. zround z' (sm_round_id m) = Some rd' \<and> echoes rd' = echoes rd \<and> votes rd' = votes rd)))"
    by (rule calm_check_new_echo_quorum) (use map_of_insert_echo [of h _ _ rd] in auto)
  then show ?thesis
  proof (rule wp_mono2)
    fix q z'
    assume "calm cx z0 (os @ gossip_if own m) z1 z' \<and> (\<not> q \<longrightarrow> z' = ?z) \<and>
      (\<forall>rd. zround ?z (sm_round_id m) = Some rd \<longrightarrow>
        (\<exists>rd'. zround z' (sm_round_id m) = Some rd' \<and> echoes rd' = echoes rd \<and> votes rd' = votes rd))"
    then obtain rd' where rd': "zround z' (sm_round_id m) = Some rd'" "echoes rd' = echoes ?rd" "votes rd' = votes ?rd"
      and calm': "calm cx z0 (os @ gossip_if own m) z1 z'"
      by auto
    have "sm_validator_idx m \<in> signers rd' (Echo h)"
      by (simp add: signers_cong [OF rd'(2,3)] signers_insert_echo)
    with calm' rd'(1) c show "calm cx z0 (os @ gossip_if own m) z1 z' \<and> in_round z' m"
      by (simp add: in_round_def)
  qed
qed

lemma calm_add_vote:
  assumes calm: "calm cx z0 os z1 z" and rd: "zround z (sm_round_id m) = Some rd"
    and valid: "msg_valid cx (validators z) (instance_id (params z)) m"
    and own: "own \<Longrightarrow> may_sign z m" and c: "sm_content m = Vote b"
    and new: "sm_validator_idx m \<notin> signers rd (Vote b)"
  shows "wp (check_new_vote_quorum cx (sm_round_id m) b
      (put_round (sm_round_id m) (with_vote b (sm_validator_idx m) (sm_signature m) rd) z
        \<lparr>progress_detected := True\<rparr>))
    (\<lambda>(q, z'). calm cx z0 (os @ gossip_if own m) z1 z' \<and> in_round z' m)"
proof -
  let ?rd = "with_vote b (sm_validator_idx m) (sm_signature m) rd"
  let ?z = "put_round (sm_round_id m) ?rd z\<lparr>progress_detected := True\<rparr>"
  have m: "m = mk_msg (sm_round_id m) (instance_id (params z)) (Vote b) (sm_validator_idx m) (sm_signature m)"
    using valid c mk_msg_eq [of m] by (simp add: msg_valid_def)
  note wf = round_inv_wf [OF zug_inv_round [OF calm_inv [OF calm] rd]]
  have "calm cx z0 (os @ gossip_if own m) z1 ?z"
    by (rule calm_progress [OF calm_insert_vote [OF calm rd m valid new own]])
  then have "wp (check_new_vote_quorum cx (sm_round_id m) b ?z)
    (\<lambda>(q, z'). calm cx z0 (os @ gossip_if own m) z1 z' \<and> (\<not> q \<longrightarrow> z' = ?z) \<and>
      (\<forall>rd. zround ?z (sm_round_id m) = Some rd \<longrightarrow>
        (\<exists>rd'. zround z' (sm_round_id m) = Some rd' \<and> echoes rd' = echoes rd \<and> votes rd' = votes rd)))"
    by (rule calm_check_new_vote_quorum)
  then show ?thesis
  proof (rule wp_mono2)
    fix q z'
    assume "calm cx z0 (os @ gossip_if own m) z1 z' \<and> (\<not> q \<longrightarrow> z' = ?z) \<and>
      (\<forall>rd. zround ?z (sm_round_id m) = Some rd \<longrightarrow>
        (\<exists>rd'. zround z' (sm_round_id m) = Some rd' \<and> echoes rd' = echoes rd \<and> votes rd' = votes rd))"
    then obtain rd' where rd': "zround z' (sm_round_id m) = Some rd'" "echoes rd' = echoes ?rd" "votes rd' = votes ?rd"
      and calm': "calm cx z0 (os @ gossip_if own m) z1 z'"
      by auto
    have "sm_validator_idx m \<in> signers rd' (Vote b)"
      by (simp add: signers_cong [OF rd'(2,3)] signers_with_vote [OF wf msg_valid_less [OF valid]])
    with calm' rd'(1) c show "calm cx z0 (os @ gossip_if own m) z1 z' \<and> in_round z' m"
      by (simp add: in_round_def)
  qed
qed

lemma calm_add_content:
  assumes calm: "calm cx z0 os z1 z"
    and valid: "msg_valid cx (validators z) (instance_id (params z)) m"
    and r: "sm_round_id m \<le> u32_max" and own: "own \<Longrightarrow> may_sign z m"
  shows "wp (add_content cx m z) (\<lambda>(b, z').
    calm cx z0 (os @ gossip_if own m) z1 z' \<and> (own \<longrightarrow> b) \<and> (b \<longrightarrow> in_round z' m))"
proof -
  from calm_note_active [OF calm valid] obtain z2 where z2: "note_active m z = Some z2"
    and calm2: "calm cx z0 os z1 z2" and same: "rounds z2 = rounds z" "params z2 = params z"
      "validators z2 = validators z" "active_validator z2 = active_validator z" "write_wal z2 = write_wal z"
    by (auto elim: wpE)
  from calm_round_mut [OF calm2 r] obtain rd z3 where z3: "round_mut cx (sm_round_id m) z2 = Some (rd, z3)"
    and calm3: "calm cx z0 os z1 z3" and rd: "zround z3 (sm_round_id m) = Some rd"
    and cases3: "z3 = z2 \<or> zround z2 (sm_round_id m) = None \<and> (\<exists>l. rd = round_new (nvals z2) l) \<and>
      z3 = put_round (sm_round_id m) rd z2"
    by (rule wpE2) blast
  have valid3: "msg_valid cx (validators z3) (instance_id (params z3)) m"
    using valid same cases3 by auto
  have idx: "sm_validator_idx m < nvals z3"
    using msg_valid_less [OF valid3] .
  have own3: "may_sign z3 m" if own
    using own [OF that] cases3 same rd idx
    by (auto simp: may_sign_def zround_def our_idx_def round_new_not_signed split: content.splits)
  note wf = round_inv_wf [OF zug_inv_round [OF calm_inv [OF calm3] rd]]
  have new: "sm_validator_idx m \<notin> signers rd (sm_content m)" if own
    by (rule may_sign_new [OF own3 [OF that] rd wf idx])
  show ?thesis
  proof (cases "sm_content m")
    case (Echo h)
    show ?thesis
    proof (cases "fst (insert_echo h (sm_validator_idx m) (sm_signature m) rd)")
      case True
      from calm_add_echo [where own = own, OF calm3 rd valid3 own3 Echo True] show ?thesis
        using True
        by (simp add: add_content_def z2 z3 Echo Let_def case_prod_unfold)
          (erule wp_mono, auto simp: in_round_def intro: calm_mark_dirty)
    next
      case False
      then have "\<not> own"
        using new Echo by (auto simp: insert_echo_new)
      moreover have "m = mk_msg (sm_round_id m) (instance_id (params z3)) (Echo h) (sm_validator_idx m) (sm_signature m)"
        using valid3 Echo mk_msg_eq [of m] by (simp add: msg_valid_def)
      ultimately show ?thesis
        using calm_insert_echo [OF calm3 rd _ valid3, of h "sm_validator_idx m" "sm_signature m" False] False
        by (simp add: add_content_def z2 z3 Echo Let_def case_prod_unfold gossip_if_def)
    qed
  next
    case (Vote b)
    show ?thesis
    proof (cases "sm_validator_idx m \<in> signers rd (Vote b)")
      case False
      from calm_add_vote [where own = own, OF calm3 rd valid3 own3 Vote False] show ?thesis
        using False
        by (simp add: add_content_def z2 z3 Vote Let_def insert_vote_eq [OF wf idx])
          (erule wp_mono, auto simp: in_round_def intro: calm_mark_dirty)
    next
      case True
      then have "\<not> own"
        using new Vote by auto
      moreover have "calm cx z0 os z1 (put_round (sm_round_id m) rd z3)"
        using calm3 by (simp add: put_round_same [OF rd])
      ultimately show ?thesis
        using True by (simp add: add_content_def z2 z3 Vote Let_def insert_vote_eq [OF wf idx] gossip_if_def)
    qed
  qed
qed

lemma calm_create_message:
  assumes calm: "calm cx z0 os z1 z" and r: "r \<le> u32_max"
  shows "wp (create_message cx r c z) (\<lambda>(mm, z').
    calm cx z0 (os @ (case mm of None \<Rightarrow> [] | Some m \<Rightarrow> [CreatedGossipMessage (Signed m)])) z1 z' \<and>
    (\<forall>m. mm = Some m \<longrightarrow> in_round z' m \<and> sm_round_id m = r \<and> sm_content m = c))"
proof (cases "active_validator z")
  case (Some av)
  let ?m = "sign_new cx r (instance_id (params z)) c (av_idx av) (av_secret av)"
  note inv = calm_inv [OF calm]
  obtain k where k: "id_at (validators z) (av_idx av) = Some k" "key_pair cx k (av_secret av)"
    using inv Some by (auto simp: zug_inv_def own_inv_def)
  have idx: "av_idx av < nvals z"
    using id_at_SomeD [OF k(1)] .
  have valid: "msg_valid cx (validators z) (instance_id (params z)) ?m"
    using k by (simp add: msg_valid_def verify_sign_new)
  define signed where "signed = (case c of Echo _ \<Rightarrow> Some (has_echoed z r (av_idx av))
    | Vote _ \<Rightarrow> has_voted z r (av_idx av))"
  have signed: "\<exists>b. signed = Some b"
    using idx zug_inv_round [OF inv, of r]
    by (cases "zround z r")
      (auto simp: signed_def has_voted_def round_has_voted_iff [OF round_inv_wf] split: content.splits)
  have sign: "wp (add_content cx ?m (z\<lparr>write_wal := Some (entries @ [WalSignedMessage ?m])\<rparr>)) (\<lambda>(b, z').
      calm cx z0 (os @ gossip_if True ?m) z1 z' \<and> (True \<longrightarrow> b) \<and> (b \<longrightarrow> in_round z' ?m))"
    if "signed = Some False" "write_wal z = Some entries" for entries
  proof (rule calm_add_content)
    show "calm cx z0 os z1 (z\<lparr>write_wal := Some (entries @ [WalSignedMessage ?m])\<rparr>)"
      using valid r by (intro calm_wal_append [OF calm that(2)]) simp
    show "may_sign (z\<lparr>write_wal := Some (entries @ [WalSignedMessage ?m])\<rparr>) ?m"
      using that(1) Some
      by (cases c) (auto simp: may_sign_def our_idx_def zround_def signed_def has_echoed_def has_voted_def)
  qed (use valid r in auto)
  show ?thesis
  proof (cases "paused z \<or> signed = Some True")
    case True
    with calm Some show ?thesis
      by (auto simp: create_message_def signed_def)
  next
    case False
    with signed have go: "\<not> paused z" "signed = Some False"
      by auto
    then have eq: "create_message cx r c z =
      (let (recorded, z) = record_entry cx (WalSignedMessage ?m) z in
       if recorded then do { (added, z) \<leftarrow> add_content cx ?m z; Some (if added then Some ?m else None, z) }
       else Some (None, z))"
      using Some by (simp add: create_message_def signed_def Let_def)
    show ?thesis
    proof (rule record_entry_cases [of cx "WalSignedMessage ?m" z])
      fix entries
      assume "record_entry cx (WalSignedMessage ?m) z =
          (True, z\<lparr>write_wal := Some (entries @ [WalSignedMessage ?m])\<rparr>)" and "write_wal z = Some entries"
      with sign [OF go(2)] show ?thesis
        by (simp add: eq) (erule wp_mono, auto simp: gossip_if_def)
    qed (use calm calm_wal_close [OF calm_deactivate [OF calm]] in \<open>simp_all add: eq\<close>)
  qed
qed (use calm in \<open>simp add: create_message_def\<close>)

lemma calm_create_and_gossip_message:
  assumes "calm cx z0 os z1 z" and "r \<le> u32_max"
  shows "wp (create_and_gossip_message cx r c z) (\<lambda>(os', z'). calm cx z0 (os @ os') z1 z')"
  using calm_create_message [OF assms, of c]
  by (auto simp: create_and_gossip_message_def case_prod_unfold elim!: wp_mono)

end
