(* ===== verification/Zug_Progress.thy ===== *)
theory Zug_Progress
  imports Zug_Simulation
begin

text \<open>
  Accepting, proposing, finalizing and updating are sequences of elementary steps as well.

  \<open>finalize_round\<close> is shown to have the effect of the single step \<open>mi_finalize\<close>: it returns, finalizes
  exactly the ancestors that are not finalized yet, oldest first, and prunes exactly the rounds
  between them. \<open>update\<close> is shown to return without a panic from every state that satisfies the
  invariant.
\<close>

section \<open>Ancestors\<close>

lemma ancestor_values_loop_ok:
  assumes "chain_inv (rounds z)" and "acc (rounds z) r = Some (k, hp)"
  shows "\<exists>vs. ancestor_values_loop z r ac = Some (Some vs)"
  using assms
proof (induction arbitrary: ac rule: chain_induct)
  case (first r hp)
  then show ?case
    by (subst ancestor_values_loop.simps) (simp add: accepted_proposal_acc Let_def)
next
  case (parent r k hp q hp')
  then show ?case
    by (subst ancestor_values_loop.simps) (simp add: accepted_proposal_acc Let_def)
qed

lemma ancestor_values_returns:
  assumes "zug_inv cx z"
  shows "\<exists>v. ancestor_values z r = Some v \<and> (v = None \<longleftrightarrow> acc (rounds z) r = None)"
proof (cases "acc (rounds z) r")
  case None
  then show ?thesis
    unfolding ancestor_values_def
    by (subst ancestor_values_loop.simps) (simp add: accepted_proposal_acc)
next
  case (Some p)
  then obtain vs where "ancestor_values z r = Some (Some vs)"
    using ancestor_values_loop_ok [OF zug_invD(6) [OF assms]] unfolding ancestor_values_def
    by (cases p) blast
  with Some show ?thesis by simp
qed

section \<open>Proposals\<close>

lemma calm_insert_proposal:
  assumes calm: "calm cx z0 os z1 z" and rd: "zround z r = Some rd" and hp: "proposal_inv cx r hp"
  shows "calm cx z0 os z1 (put_round r (snd (insert_proposal hp rd)) z)"
proof (cases "fst (insert_proposal hp rd)")
  case True
  then have ins: "has_echoes_for_proposal rd (hp_hash hp)" "snd (insert_proposal hp rd) = rd\<lparr>proposal := Some hp\<rparr>"
    by (auto simp: insert_proposal_def split: if_splits)
  have micro: "micro cx z [] [] (put_round r (rd\<lparr>proposal := Some hp\<rparr>) z)"
    by (rule mi_proposal [OF rd ins(1) hp])
  have "keeps z (put_round r (rd\<lparr>proposal := Some hp\<rparr>) z)"
    using rd accepted_insert_proposal [OF calm_inv [OF calm] rd ins(1) hp]
    by (intro keeps_put_round) auto
  then show ?thesis
    unfolding ins(2) by (rule calm_micro [OF calm micro])
next
  case False
  then have "snd (insert_proposal hp rd) = rd"
    by (auto simp: insert_proposal_def split: if_splits)
  then show ?thesis
    using calm put_round_same [OF rd] by simp
qed

lemma calm_add_proposal:
  assumes calm: "calm cx z0 os z1 z" and r: "r \<le> u32_max" and hp: "proposal_inv cx r hp"
  shows "wp (add_proposal cx r hp z) (\<lambda>(b, z'). calm cx z0 os z1 z')"
proof -
  from calm_round_mut [OF calm r] obtain rd z2 where z2: "round_mut cx r z = Some (rd, z2)"
    and calm2: "calm cx z0 os z1 z2" and rd: "zround z2 r = Some rd"
    by (rule wpE2) blast
  note calm3 = calm_insert_proposal [OF calm2 rd hp]
  have "entry_valid cx vs inst (WalProposal (hp_inner hp) r)" for vs inst
    using r hp by (simp add: proposal_inv_def)
  with calm3 show ?thesis
    using calm_mark_dirty [OF calm_progress [OF calm_record_entry [OF calm3]]]
    by (simp add: add_proposal_def z2 Let_def case_prod_unfold)
qed

lemma waiting_validation_inv_insert:
  assumes "waiting_validation_inv cx w" and "proposal_inv cx r hp" and "r \<le> u32_max"
  shows "waiting_validation_inv cx
    (AList.update pb (List.insert (r, hp, s) (case map_of w pb of None \<Rightarrow> [] | Some l \<Rightarrow> l)) w)"
  using assms unfolding waiting_validation_inv_def
  by (fastforce split: if_splits option.splits)

lemma calm_validate_proposal:
  assumes calm: "calm cx z0 os z1 z" and r: "r \<le> u32_max" and hp: "proposal_inv cx r hp"
  shows "wp (validate_proposal cx r hp vs sender z) (\<lambda>(os', z'). calm cx z0 (os @ os') z1 z')"
proof -
  obtain l where l: "zug_leader cx z r = Some l"
    using zug_leader_ok [OF calm_inv [OF calm]] by blast
  have add: "wp (add_proposal cx r hp z) (\<lambda>(b, z'). calm cx z0 (os @ os') z1 z')" if "quiet os'" for os'
    using calm_add_proposal [OF calm r hp] by (rule wp_mono2) (rule calm_quiet [OF _ that])
  have waiting: "calm cx z0 os z1 (z\<lparr>proposals_waiting_for_validation :=
      AList.update pb (List.insert (r, hp, sender) (case map_of (proposals_waiting_for_validation z) pb of
        None \<Rightarrow> [] | Some w \<Rightarrow> w)) (proposals_waiting_for_validation z)\<rparr>)" for pb
    using calm_inv [OF calm] r hp
    by (intro calm_waiting_validation [OF calm] waiting_validation_inv_insert) (simp_all add: zug_inv_def)
  show ?thesis
  proof (cases "maybe_block hp")
    case None
    then show ?thesis
      using calm l add [of "[]"]
      by (simp add: validate_proposal_def Let_def log_proposal_def case_prod_unfold)
  next
    case (Some block)
    let ?pb = "\<lparr>pb_value = block, pb_context = \<lparr>bc_timestamp = hp_timestamp hp, bc_ancestor_values = vs\<rparr>\<rparr>"
    have "wp (add_proposal cx r hp z) (\<lambda>(b, z'). calm cx z0 (os @ (if b then [HandledProposedBlock ?pb] else [])) z1 z')"
      using calm_add_proposal [OF calm r hp] by (rule wp_mono2) (auto intro: calm_quiet)
    then show ?thesis
      using Some calm l waiting [of ?pb] calm_quiet [OF waiting [of ?pb]]
      by (simp add: validate_proposal_def Let_def log_proposal_def case_prod_unfold)
  qed
qed

lemma calm_validate_waiting:
  assumes calm: "calm cx z0 os z1 z" and acc: "acc (rounds z) r \<noteq> None"
  shows "wp (validate_waiting cx r z) (\<lambda>(os', z'). calm cx z0 (os @ os') z1 z')"
proof (cases "map_of (proposals_waiting_for_parent z) r")
  case (Some proposals)
  let ?z = "z\<lparr>proposals_waiting_for_parent := AList.delete r (proposals_waiting_for_parent z)\<rparr>"
  have inv: "waiting_parent_inv cx (proposals_waiting_for_parent z)"
    using calm_inv [OF calm] by (simp add: zug_inv_def)
  then have "waiting_parent_inv cx (AList.delete r (proposals_waiting_for_parent z))"
    unfolding waiting_parent_inv_def by (simp add: AList.delete_conv')
  with calm have calm': "calm cx z0 os z1 ?z"
    by (rule calm_waiting_parent)
  obtain vs where vs: "ancestor_values ?z r = Some (Some vs)"
    using ancestor_values_returns [OF calm_inv [OF calm'], of r] acc by auto
  have inner: "wp (emit_each (\<lambda>(pr, sender). validate_proposal cx pr hp vs sender) l z')
      (\<lambda>(os'', z''). calm cx z0 (os @ os' @ os'') z1 z'')"
    if hp: "(hp, l) \<in> set proposals" and calm'': "calm cx z0 (os @ os') z1 z'" for hp l os' z'
  proof (rule wp_emit_each [where I = "\<lambda>os'' z''. calm cx z0 (os @ os' @ os'') z1 z''"])
    fix x os2 z2
    assume x: "x \<in> set l" and calm2: "calm cx z0 (os @ os' @ os2) z1 z2"
    obtain pr sender where "x = (pr, sender)"
      by (cases x)
    moreover from this inv Some hp x have "proposal_inv cx pr hp" "pr \<le> u32_max"
      unfolding waiting_parent_inv_def by blast+
    ultimately show "wp ((case x of (pr, sender) \<Rightarrow> validate_proposal cx pr hp vs sender) z2)
        (\<lambda>(os3, s'). calm cx z0 (os @ os' @ os2 @ os3) z1 s')"
      using calm_validate_proposal [OF calm2, of pr hp vs sender] by simp
  qed (use calm'' in simp)
  have "wp (emit_each (\<lambda>(hp, l). emit_each (\<lambda>(pr, sender). validate_proposal cx pr hp vs sender) l)
      proposals ?z) (\<lambda>(os', z'). calm cx z0 (os @ os') z1 z')"
    by (rule wp_emit_each [where I = "\<lambda>os' z'. calm cx z0 (os @ os') z1 z'"]) (use calm' inner in auto)
  with Some vs show ?thesis
    by (simp add: validate_waiting_def)
qed (use calm in \<open>simp add: validate_waiting_def\<close>)

lemma calm_create_echo_and_proposal:
  assumes calm: "calm cx z0 os z1 z"
    and parent: "\<And>q. maybe_parent_round_id (hashed_proposal_new cx p) = Some q \<Longrightarrow> q < current_round z"
  shows "wp (create_echo_and_proposal cx p z) (\<lambda>(os', z'). calm cx z0 (os @ os') z1 z')"
proof -
  let ?r = "current_round z"
  define hp where "hp = hashed_proposal_new cx p"
  have r: "?r \<le> u32_max"
    using calm_inv [OF calm] by (simp add: zug_inv_def bounds_inv_def)
  have hp: "proposal_inv cx ?r hp"
    using parent by (simp add: proposal_inv_def hp_def hashed_proposal_new_def)
  from calm_create_message [OF calm r, of "Echo (hp_hash hp)"] obtain mm z2 where
    z2: "create_message cx ?r (Echo (hp_hash hp)) z = Some (mm, z2)"
    and calm2: "calm cx z0 (os @ (case mm of None \<Rightarrow> [] | Some m \<Rightarrow> [CreatedGossipMessage (Signed m)])) z1 z2"
    by (rule wpE2) blast
  show ?thesis
  proof (cases mm)
    case None
    with calm2 z2 show ?thesis by (simp add: create_echo_and_proposal_def Let_def flip: hp_def)
  next
    case (Some m)
    let ?rec = "record_entry cx (WalProposal (hp_inner hp) ?r) z2"
    have sent: "calm cx z0 (os @ [CreatedGossipMessage (ProposalMsg x i p m)]) z1 z'"
      and dropped: "calm cx z0 os z1 z'"
      if "calm cx z0 (os @ [CreatedGossipMessage (Signed m)]) z1 z'" for z' x i
      by (rule calm_outcomes [OF that]; auto)+
    have calm3: "calm cx z0 (os @ [CreatedGossipMessage (Signed m)]) z1 (snd ?rec)"
      using calm2 Some r hp by (intro calm_record_entry) (simp_all add: proposal_inv_def)
    from calm_round_mut [OF calm3 r] obtain rd z4 where z4: "round_mut cx ?r (snd ?rec) = Some (rd, z4)"
      and calm4: "calm cx z0 (os @ [CreatedGossipMessage (Signed m)]) z1 z4" and rd: "zround z4 ?r = Some rd"
      by (rule wpE2) blast
    note calm5 = calm_insert_proposal [OF calm4 rd hp]
    show ?thesis
      using dropped [OF calm3] dropped [OF calm5] sent [OF calm_mark_dirty [OF calm5]]
      by (simp add: create_echo_and_proposal_def z2 z4 Some Let_def case_prod_unfold flip: hp_def)
  qed
qed

lemma calm_request_new_block:
  assumes "calm cx z0 os z1 z" and "\<And>q. maybe_parent = Some q \<Longrightarrow> q < current_round z"
  shows "case request_new_block maybe_parent now vs z of (os', z') \<Rightarrow> calm cx z0 (os @ os') z1 z'"
  using assms calm_quiet [OF calm_pending [OF assms(1)]]
  by (simp add: request_new_block_def Let_def pending_inv_def)

lemma calm_propose_if_leader:
  assumes calm: "calm cx z0 os z1 z"
    and parent: "\<And>q. maybe_parent = Some q \<Longrightarrow> q < current_round z \<and> acc (rounds z) q \<noteq> None"
  shows "wp (propose_if_leader cx maybe_parent now z) (\<lambda>(os', z'). calm cx z0 (os @ os') z1 z')"
proof (cases "active_validator z")
  case (Some av)
  have r: "current_round z \<le> u32_max"
    using calm_inv [OF calm] by (simp add: zug_inv_def bounds_inv_def)
  obtain l where l: "zug_leader cx z (current_round z) = Some l"
    using zug_leader_ok [OF calm_inv [OF calm]] by blast
  from calm_round_mut [OF calm r] obtain rd z2 where z2: "round_mut cx (current_round z) z = Some (rd, z2)"
    and calm2: "calm cx z0 os z1 z2" and cases2: "z2 = z \<or> zround z (current_round z) = None \<and>
      (\<exists>l. rd = round_new (nvals z) l) \<and> z2 = put_round (current_round z) rd z"
    by (rule wpE2) blast
  have parent2: "q < current_round z2 \<and> acc (rounds z2) q \<noteq> None" if "maybe_parent = Some q" for q
    using parent [OF that] cases2 by auto
  have new_block: "case request_new_block maybe_parent now vs z2 of (os', z') \<Rightarrow> calm cx z0 (os @ os') z1 z'" for vs
    by (rule calm_request_new_block [OF calm2]) (use parent2 in blast)
  show ?thesis
  proof (cases maybe_parent)
    case None
    then show ?thesis
      using calm calm2 new_block [of "[]"] Some l z2 by (simp add: propose_if_leader_def)
  next
    case parent_round: (Some q)
    from parent2 [OF this] obtain vs where vs: "ancestor_values z2 q = Some (Some vs)"
      using ancestor_values_returns [OF calm_inv [OF calm2], of q] by auto
    have "wp (create_echo_and_proposal cx (proposal_dummy now q) z2) (\<lambda>(os', z'). calm cx z0 (os @ os') z1 z')"
      using parent2 [OF parent_round]
      by (intro calm_create_echo_and_proposal [OF calm2]) (simp add: hashed_proposal_new_def proposal_dummy_def)
    then show ?thesis
      using calm calm2 new_block [of vs] Some l z2 vs parent_round by (simp add: propose_if_leader_def)
  qed
qed (use calm in \<open>simp add: propose_if_leader_def\<close>)

section \<open>A parent for the next proposal\<close>

lemma suitable_parent_loop_accepted:
  assumes "suitable_parent_loop z now maybe_parent r = Some (Some q, ts)" and "r \<le> n"
    and "\<And>q' ts'. maybe_parent = Some (Some q', ts') \<Longrightarrow> q' < n \<and> acc (rounds z) q' \<noteq> None"
  shows "q < n \<and> acc (rounds z) q \<noteq> None"
  using assms
proof (induction z now maybe_parent r rule: suitable_parent_loop.induct)
  case (2 z now maybe_parent r)
  show ?case
  proof (cases "accepted_proposal z r")
    case None
    with "2.prems" show ?thesis
      using "2.IH" [of maybe_parent] by (auto simp: Let_def split: if_splits)
  next
    case (Some p)
    obtain k parent where p: "p = (k, parent)"
      by (cases p)
    let ?ts = "sat_add64 (hp_timestamp parent) (min_block_time (params z))"
    show ?thesis
    proof (cases "?ts \<le> now")
      case True
      with Some p "2.prems" show ?thesis
        by (auto simp: Let_def accepted_proposal_acc)
    next
      case False
      let ?mp = "case maybe_parent of None \<Rightarrow> Some (Some r, ?ts)
        | Some (_, ts2) \<Rightarrow> if ?ts < ts2 then Some (Some r, ?ts) else maybe_parent"
      have mp: "q' < n \<and> acc (rounds z) q' \<noteq> None" if "?mp = Some (Some q', ts')" for q' ts'
        using that Some p "2.prems"(2,3) by (auto simp: accepted_proposal_acc split: option.splits if_splits)
      have "(if \<not> is_skippable_round z r then ?mp else suitable_parent_loop z now ?mp r) = Some (Some q, ts)"
        using "2.prems"(1) Some p False by (simp add: Let_def)
      then show ?thesis
        using "2.IH" [of ?mp] "2.prems"(2) mp by (auto split: if_splits)
    qed
  qed
qed simp

lemma suitable_parent_round_accepted:
  "suitable_parent_round z now = Some (Some q, ts) \<Longrightarrow> q < current_round z \<and> acc (rounds z) q \<noteq> None"
  unfolding suitable_parent_round_def by (erule suitable_parent_loop_accepted) simp_all

section \<open>Accepting proposals\<close>

lemma any_unseen_active_returns:
  "\<forall>idx \<in> set idxs. idx < length (active z) \<Longrightarrow> \<exists>b. any_unseen_active z inactive idxs = Some b"
  by (induction idxs) (auto simp: claims_unseen_active_def vmap_get_def)

lemma unseen_check_returns:
  assumes "zug_inv cx z"
  shows "\<exists>b. (case hp_inactive hp of
      None \<Rightarrow> Some False
    | Some inactive \<Rightarrow> any_unseen_active z inactive (map fst (enumerate_ids (validators z)))) = Some b"
proof -
  have "\<forall>idx \<in> set (map fst (enumerate_ids (validators z))). idx < length (active z)"
    using zug_invD(5) [OF assms]
    unfolding enumerate_ids_fst [OF validators_wf_len [OF zug_inv_validators_wf [OF assms]]]
    by (simp add: active_inv_def)
  then show ?thesis
    using any_unseen_active_returns [of "map fst (enumerate_ids (validators z))"]
    by (cases "hp_inactive hp") auto
qed

text \<open>The parent and height \<open>update_accepted_proposal\<close> computes are those of an extension of the chain.\<close>

lemma extends_accepted:
  assumes inv: "zug_inv cx z" and rd: "zround z r = Some rd" and hp: "proposal rd = Some hp"
    and parent: "(case maybe_parent_round_id hp of
        None \<Rightarrow> Some (0, 0)
      | Some q \<Rightarrow> map_option (\<lambda>(k, _). (sat_add32 q 1, sat_add64 k 1)) (accepted_proposal z q)) = Some (first, k)"
    and skip: "\<not> list_ex (\<lambda>x. \<not> is_skippable_round z x) [first..<r]"
  shows "extends (rounds z) r k hp"
proof (cases "maybe_parent_round_id hp")
  case None
  with parent skip show ?thesis
    by (auto simp: extends_def list_ex_iff is_skippable_round_iff)
next
  case (Some q)
  then obtain k' hp' where q: "acc (rounds z) q = Some (k', hp')" "first = sat_add32 q 1" "k = sat_add64 k' 1"
    using parent by (auto simp: accepted_proposal_acc)
  have r: "q < r" "r \<le> u32_max"
    using zug_inv_round [OF inv rd] hp Some by (auto simp: round_inv_def proposal_inv_def)
  have "k' \<le> q"
    using chain_invD [OF zug_invD(6) [OF inv] q(1)] by (simp add: extends_def)
  with r q have "first = Suc q" "k = Suc k'"
    by (simp_all add: sat_add32_def sat_add64_def u32_max_def u64_max_def)
  with Some q(1) r \<open>k' \<le> q\<close> skip show ?thesis
    by (auto simp: extends_def list_ex_iff is_skippable_round_iff)
qed

lemma reaches_update_accepted_proposal:
  assumes re: "reaches cx z0 os z"
  shows "wp (update_accepted_proposal cx r z) (\<lambda>(b, z').
    reaches cx z0 os z' \<and> (b \<longrightarrow> acc (rounds z') r \<noteq> None) \<and> (\<not> b \<longrightarrow> z' = z) \<and>
    current_round z' = current_round z)"
proof (cases "acc (rounds z) r = None \<and> (\<exists>rd hp. zround z r = Some rd \<and> proposal rd = Some hp \<and>
    quorum_echoes rd = Some (hp_hash hp))")
  case False
  then have "update_accepted_proposal cx r z = Some (False, z)"
  proof (cases "zround z r")
    case (Some rd)
    with False show ?thesis
      by (cases "proposal rd") (auto simp: update_accepted_proposal_def has_accepted_proposal_acc)
  qed (simp add: update_accepted_proposal_def)
  with re show ?thesis by simp
next
  case True
  then obtain rd hp where rd: "zround z r = Some rd" and hp: "proposal rd = Some hp"
    and q: "quorum_echoes rd = Some (hp_hash hp)" and new: "acc (rounds z) r = None"
    by blast
  note inv = reaches_inv [OF re]
  obtain unseen where unseen: "(case hp_inactive hp of
      None \<Rightarrow> Some False
    | Some inactive \<Rightarrow> any_unseen_active z inactive (map fst (enumerate_ids (validators z)))) = Some unseen"
    using unseen_check_returns [OF inv] by blast
  define parent where "parent = (case maybe_parent_round_id hp of
      None \<Rightarrow> Some (0, 0)
    | Some q \<Rightarrow> map_option (\<lambda>(k, _). (sat_add32 q 1, sat_add64 k 1)) (accepted_proposal z q))"
  have accept: "reaches cx z0 os (put_round r (set_accepted_proposal_height k rd) z)"
    if "parent = Some (first, k)" "\<not> list_ex (\<lambda>x. \<not> is_skippable_round z x) [first..<r]" for first k
    using re mi_accept [OF rd hp q new extends_accepted [OF inv rd hp that [unfolded parent_def]]]
    by (rule reaches_micro)
  have height: "round_accepted_proposal (set_accepted_proposal_height k rd) \<noteq> None" for k
    using hp by (simp add: round_accepted_proposal_def set_accepted_proposal_height_def)
  show ?thesis
    using re accept height new
    by (auto simp: update_accepted_proposal_def has_accepted_proposal_acc rd hp q unseen
        round_mut_def simp flip: parent_def split: option.splits)
qed

section \<open>Votes and the next round\<close>

lemma calm_vote_on_current_round:
  assumes calm: "calm cx z0 os z1 z" and r: "r \<le> u32_max"
  shows "wp (vote_on_current_round cx r now b z) (\<lambda>(os', b', z'). calm cx z0 (os @ os') z1 z')"
proof -
  obtain l where l: "zug_leader cx z r = Some l"
    using zug_leader_ok [OF calm_inv [OF calm]] by blast
  from calm_create_and_gossip_message [OF calm r] obtain os' z' where
    z': "create_and_gossip_message cx r (Vote False) z = Some (os', z')" and calm': "calm cx z0 (os @ os') z1 z'"
    by (rule wpE2)
  from calm_update_proposal_timeout [OF calm'] show ?thesis
    using calm calm' l z' by (auto simp: vote_on_current_round_def)
qed

lemma reaches_advance_or_propose:
  assumes re: "reaches cx z0 os z" and r: "r = current_round z"
  shows "wp (advance_or_propose cx r now b z) (\<lambda>(os', z').
    reaches cx z0 (os @ os') z' \<and>
    (acc (rounds z') r \<noteq> None \<longrightarrow> r < current_round z' \<or> current_round z' = u32_max))"
proof (cases "is_skippable_round z r \<or> has_accepted_proposal z r")
  case True
  let ?z = "z\<lparr>current_round_start := u64_max\<rparr>"
  have "micro cx ?z [] [] (?z\<lparr>current_round := sat_add32 (current_round ?z) 1\<rparr>)"
    using True r by (intro mi_advance) (auto simp: is_skippable_round_iff has_accepted_proposal_acc)
  with reaches_micro [OF re mi_round_start]
  have re': "reaches cx z0 os (z\<lparr>current_round_start := u64_max, current_round := sat_add32 (current_round z) 1\<rparr>)"
    using reaches_micro by fastforce
  have "r \<le> u32_max"
    using reaches_inv [OF re] r by (simp add: zug_inv_def bounds_inv_def)
  then have "r < sat_add32 r 1 \<or> sat_add32 r 1 = u32_max"
    by (auto simp: sat_add32_def)
  moreover obtain l where "zug_leader cx (z\<lparr>current_round_start := u64_max,
      current_round := sat_add32 (current_round z) 1\<rparr>) (sat_add32 (current_round z) 1) = Some l"
    using zug_leader_ok [OF reaches_inv [OF re']] by blast
  ultimately show ?thesis
    using True re' r by (auto simp: advance_or_propose_def Let_def)
next
  case False
  note calm = calm_refl [OF re]
  have old: "acc (rounds z') r = None" if "calm cx z0 os' z z'" for os' z'
    using that False by (cases "acc (rounds z) r") (auto simp: calm_def keeps_def has_accepted_proposal_acc)
  have fin: "wp m (\<lambda>(os', z'). reaches cx z0 (os @ os') z' \<and>
      (acc (rounds z') r \<noteq> None \<longrightarrow> r < current_round z' \<or> current_round z' = u32_max))"
    if "wp m (\<lambda>(os', z'). calm cx z0 (os @ os') z z')" for m
    using that by (rule wp_mono2) (use old in \<open>auto simp: calm_def\<close>)
  show ?thesis
  proof (rule fin, cases "suitable_parent_round z now")
    case None
    with False calm show "wp (advance_or_propose cx r now b z) (\<lambda>(os', z'). calm cx z0 (os @ os') z z')"
      by (simp add: advance_or_propose_def)
  next
    case (Some p)
    then obtain maybe_parent ts where p: "suitable_parent_round z now = Some (maybe_parent, ts)"
      by (cases p) auto
    let ?m = "propose_if_leader cx maybe_parent now (z\<lparr>current_round_start := now\<rparr>)"
    have "wp ?m (\<lambda>(os', z'). calm cx z0 (os @ os') z z')"
      using suitable_parent_round_accepted [of z now] p
      by (intro calm_propose_if_leader [OF calm_round_start [OF calm]]) auto
    then obtain os' z' where m: "?m = Some (os', z')" and calm': "calm cx z0 (os @ os') z z'"
      by (rule wpE2)
    show "wp (advance_or_propose cx r now b z) (\<lambda>(os', z'). calm cx z0 (os @ os') z z')"
      using False calm calm_schedule_update [OF calm] calm' calm_schedule_update [OF calm']
      by (simp add: advance_or_propose_def p m Let_def case_prod_unfold)
  qed
qed

end
