(* ===== verification/Zug_Finalize.thy ===== *)
theory Zug_Finalize
  imports Zug_Progress
begin

text \<open>
  The recursive \<open>finalize_round\<close> has a closed form: it returns, announces the blocks of exactly those
  ancestors of the round that are not finalized yet, oldest first, and prunes exactly the rounds in
  between. So it is the single elementary step \<open>mi_finalize\<close>.
\<close>

section \<open>Pruning\<close>

lemma prune_skipped_idem [simp]: "prune_skipped (prune_skipped rd) = prune_skipped rd"
  by (simp add: prune_skipped_def)

lemma pruned_empty: "alist_ok rds \<Longrightarrow> pruned cx vs ls {} rds rds"
  by (simp add: pruned_def)

lemma pruned_trans:
  assumes "pruned cx vs ls X a b" and "pruned cx vs ls Y b c"
  shows "pruned cx vs ls (X \<union> Y) a c"
proof -
  have "map_of c x = (if x \<in> X \<union> Y
      then Some (case map_of a x of
          Some rd \<Rightarrow> prune_skipped rd
        | None \<Rightarrow> round_new (vs_len vs) (the (leader (cx_gen cx) ls (word_of_nat x))))
      else map_of a x)" for x
    using assms by (cases "map_of a x") (auto simp: pruned_def)
  then show ?thesis
    using assms(2) by (simp add: pruned_def)
qed

lemma prune_round_pruned:
  assumes "static_inv cx (validators z) (params z) (leader_sequence z)" and "alist_ok (rounds z)"
  shows "\<exists>rds. do { (rd, z) \<leftarrow> round_mut cx r z; Some (put_round r (prune_skipped rd) z) } = Some (z\<lparr>rounds := rds\<rparr>) \<and>
    pruned cx (validators z) (leader_sequence z) {r} (rounds z) rds"
proof (cases "zround z r")
  case None
  obtain l where l: "leader (cx_gen cx) (leader_sequence z) (word_of_nat r) = Some l"
    using static_leader [OF assms(1)] by blast
  have "pruned cx (validators z) (leader_sequence z) {r} (rounds z)
      (AList.update r (round_new (nvals z) l) (AList.update r (round_new (nvals z) l) (rounds z)))"
    using assms(2) None l by (simp add: pruned_def zround_def)
  with None l show ?thesis
    by (auto simp: round_mut_def put_round_def Let_def)
next
  case (Some rd)
  have "pruned cx (validators z) (leader_sequence z) {r} (rounds z)
      (AList.update r (prune_skipped rd) (rounds z))"
    using assms(2) Some by (simp add: pruned_def zround_def)
  with Some show ?thesis
    by (auto simp: round_mut_def put_round_def Let_def)
qed

lemma prune_rounds_pruned:
  assumes "static_inv cx (validators z) (params z) (leader_sequence z)" and "alist_ok (rounds z)"
  shows "\<exists>rds. prune_rounds cx xs z = Some (z\<lparr>rounds := rds\<rparr>) \<and>
    pruned cx (validators z) (leader_sequence z) (set xs) (rounds z) rds"
  using assms
proof (induction xs arbitrary: z)
  case Nil
  have "prune_rounds cx [] z = Some (z\<lparr>rounds := rounds z\<rparr>)"
    by (simp add: prune_rounds_def)
  with Nil pruned_empty show ?case
    by (metis set_empty2 empty_set)
next
  case (Cons x xs)
  from prune_round_pruned [OF Cons.prems, of x] obtain rds where
    x: "do { (rd, z) \<leftarrow> round_mut cx x z; Some (put_round x (prune_skipped rd) z) } = Some (z\<lparr>rounds := rds\<rparr>)"
      "pruned cx (validators z) (leader_sequence z) {x} (rounds z) rds"
    by blast
  have "alist_ok rds"
    using x(2) by (simp add: pruned_def)
  with Cons.IH [of "z\<lparr>rounds := rds\<rparr>"] Cons.prems(1) obtain rds' where
    xs: "prune_rounds cx xs (z\<lparr>rounds := rds\<rparr>) = Some (z\<lparr>rounds := rds'\<rparr>)"
      "pruned cx (validators z) (leader_sequence z) (set xs) rds rds'"
    by auto
  from pruned_trans [OF x(2) xs(2)] xs(1) x(1) show ?case
    by (auto simp: prune_rounds_def)
qed

section \<open>The closed form\<close>

definition finalized ::
  "('v, 'h, 's, 'i, 'k, 'x) ctx \<Rightarrow> round_id \<Rightarrow> ('v, 'h, 's, 'i, 'k, 'x) zug \<Rightarrow>
     ('v, 'h, 's, 'i, 'k) outcome list \<times> ('v, 'h, 's, 'i, 'k, 'x) zug \<Rightarrow> bool" where
  "finalized cx r z res \<longleftrightarrow>
     (\<exists>rds.
        pruned cx (validators z) (leader_sequence z)
          ({first_non_finalized_round_id z..<r} - set (chain_ids (rounds z) r)) (rounds z) rds \<and>
        res =
          (map FinalizedBlock
             (chain_blocks cx (validators z) (params z) (leader_sequence z) (rounds z)
                (filter (\<lambda>x. first_non_finalized_round_id z \<le> x) (chain_ids (rounds z) r))),
           if r < first_non_finalized_round_id z then z
           else z\<lparr>rounds := rds, first_non_finalized_round_id := sat_add32 r 1\<rparr>))"

lemma block_for_round:
  assumes inv: "zug_inv cx z" and acc: "acc (rounds z) r = Some (k, hp)" and block: "maybe_block hp = Some block"
    and z': "validators z' = validators z" "params z' = params z" "zround z' r = zround z r"
  shows "\<exists>l proposer. zug_leader cx z' r = Some l \<and> id_at (validators z') l = Some proposer \<and>
    block_for cx (validators z) (params z) (leader_sequence z) r k hp =
      [\<lparr>fb_value = block, fb_timestamp = hp_timestamp hp, fb_relative_height = k, fb_equivocators = [],
        fb_terminal_block_data = terminal_block_data_of z' r hp, fb_proposer = proposer\<rparr>]"
proof -
  obtain rd where rd: "zround z r = Some rd"
    using acc by (cases "zround z r") (auto simp: acc_def zround_def)
  note ri = zug_inv_round [OF inv rd]
  have lead: "leader (cx_gen cx) (leader_sequence z) (word_of_nat r) = Some (leader_idx rd)" "leader_idx rd < nvals z"
    using ri by (auto simp: round_inv_def round_wf_def)
  then obtain proposer where "id_at (validators z) (leader_idx rd) = Some proposer"
    by (cases "id_at (validators z) (leader_idx rd)") (auto simp: id_at_None_iff)
  moreover have "accepted_proposal z' r = Some (k, hp)"
    using acc z'(3) by (simp add: accepted_proposal_def acc_def zround_def)
  ultimately show ?thesis
    using rd lead(1) z' block
    by (simp add: block_for_def zug_leader_def terminal_block_data_of_def accepted_switch_block_def
        cong: option.case_cong)
qed

text \<open>One level of the recursion, once the parent is finalized: \<open>z'\<close> is the state after that.\<close>

definition finalize_after ::
  "('v, 'h, 's, 'i, 'k, 'x) ctx \<Rightarrow> round_id \<Rightarrow> nat \<Rightarrow> ('v, 'h) hashed_proposal \<Rightarrow>
     ('v, 'h, 's, 'i, 'k) outcome list \<Rightarrow> ('v, 'h, 's, 'i, 'k, 'x) zug \<Rightarrow>
     (('v, 'h, 's, 'i, 'k) outcome list \<times> ('v, 'h, 's, 'i, 'k, 'x) zug) option" where
  "finalize_after cx r k hp os z =
     Option.bind (prune_rounds cx [first_non_finalized_round_id z..<r] z) (\<lambda>z.
       let z = z\<lparr>first_non_finalized_round_id := sat_add32 r 1\<rparr>
       in case maybe_block hp of
            None \<Rightarrow> Some (os, z)
          | Some block \<Rightarrow>
              Option.bind (zug_leader cx z r) (\<lambda>l.
                Option.bind (id_at (validators z) l) (\<lambda>proposer.
                  Some (os @ [FinalizedBlock
                    \<lparr>fb_value = block, fb_timestamp = hp_timestamp hp, fb_relative_height = k,
                     fb_equivocators = [], fb_terminal_block_data = terminal_block_data_of z r hp,
                     fb_proposer = proposer\<rparr>], z))))"

lemma finalize_round_unfold:
  assumes "first_non_finalized_round_id z \<le> r" and "accepted_proposal z r = Some (k, hp)"
  shows "finalize_round cx r z =
    (case maybe_parent_round_id hp of
       None \<Rightarrow> finalize_after cx r k hp [] z
     | Some q \<Rightarrow> Option.bind (finalize_round cx q z) (\<lambda>(os, z). finalize_after cx r k hp os z))"
  using assms by (subst finalize_round.simps) (simp add: finalize_after_def [abs_def] split: option.split)

lemma finalize_after_eq:
  assumes inv: "zug_inv cx z" and acc: "acc (rounds z) r = Some (k, hp)"
    and z': "z' = z\<lparr>rounds := rds, first_non_finalized_round_id := f\<rparr>"
    and rds: "pruned cx (validators z) (leader_sequence z) X (rounds z) rds" and X: "r \<notin> X"
  shows "\<exists>rds'. pruned cx (validators z) (leader_sequence z) (X \<union> {f..<r}) (rounds z) rds' \<and>
    (\<forall>os. finalize_after cx r k hp os z' =
      Some (os @ map FinalizedBlock (block_for cx (validators z) (params z) (leader_sequence z) r k hp),
        z\<lparr>rounds := rds', first_non_finalized_round_id := sat_add32 r 1\<rparr>))"
proof -
  have "alist_ok (rounds z')"
    using rds z' by (simp add: pruned_def)
  then obtain rds' where rds': "prune_rounds cx [f..<r] z' = Some (z'\<lparr>rounds := rds'\<rparr>)"
    "pruned cx (validators z) (leader_sequence z) {f..<r} rds rds'"
    using prune_rounds_pruned [of cx z' "[f..<r]"] zug_invD(2) [OF inv] z' by auto
  have pr: "pruned cx (validators z) (leader_sequence z) (X \<union> {f..<r}) (rounds z) rds'"
    by (rule pruned_trans [OF rds rds'(2)])
  define z2 where "z2 = z\<lparr>rounds := rds', first_non_finalized_round_id := sat_add32 r 1\<rparr>"
  have z2: "z'\<lparr>rounds := rds', first_non_finalized_round_id := sat_add32 r 1\<rparr> = z2"
    by (simp add: z2_def z')
  have same: "validators z2 = validators z" "params z2 = params z" "zround z2 r = zround z r"
    using pr X by (simp_all add: z2_def zround_def pruned_def)
  have fin: "finalize_after cx r k hp os z' =
      Some (os @ map FinalizedBlock (block_for cx (validators z) (params z) (leader_sequence z) r k hp), z2)" for os
  proof (cases "maybe_block hp")
    case None
    with rds'(1) z' z2 show ?thesis
      by (simp add: finalize_after_def block_for_def)
  next
    case (Some block)
    from block_for_round [OF inv acc Some same] obtain l proposer where
      "zug_leader cx z2 r = Some l" "id_at (validators z2) l = Some proposer"
      "block_for cx (validators z) (params z) (leader_sequence z) r k hp =
        [\<lparr>fb_value = block, fb_timestamp = hp_timestamp hp, fb_relative_height = k, fb_equivocators = [],
          fb_terminal_block_data = terminal_block_data_of z2 r hp, fb_proposer = proposer\<rparr>]"
      by blast
    with rds'(1) z' z2 Some same show ?thesis
      by (simp add: finalize_after_def Let_def)
  qed
  with pr show ?thesis
    by (auto simp: z2_def)
qed

lemma acc_bound:
  assumes "zug_inv cx z" and "acc (rounds z) r = Some p"
  shows "r \<le> u32_max"
  using assms zug_inv_round [OF assms(1), of r]
  by (cases "zround z r") (auto simp: acc_def zround_def round_inv_def)

lemma chain_ids_below:
  assumes "chain_inv rds" and "acc rds r = Some (k, hp)" and "r < f"
  shows "filter (\<lambda>x. f \<le> x) (chain_ids rds r) = []"
  using chain_ids_props [OF assms(1,2)] assms(3) by (force simp: filter_empty_conv)

lemma finalize_round_eq:
  assumes inv: "zug_inv cx z" and "acc (rounds z) r = Some (k, hp)"
  shows "\<exists>res. finalize_round cx r z = Some res \<and> finalized cx r z res"
  using zug_invD(6) [OF inv] assms(2)
proof (induction rule: chain_induct)
  case (first r hp)
  let ?f = "first_non_finalized_round_id z"
  note ok = zug_invD(3) [OF inv]
  show ?case
  proof (cases "r < ?f")
    case True
    with first ok show ?thesis
      by (subst finalize_round.simps)
        (auto simp: finalized_def chain_ids_first chain_blocks_def rounds_inv_def intro: pruned_empty)
  next
    case False
    have "\<exists>rds'. pruned cx (validators z) (leader_sequence z) ({} \<union> {?f..<r}) (rounds z) rds' \<and>
      (\<forall>os. finalize_after cx r 0 hp os z =
        Some (os @ map FinalizedBlock (block_for cx (validators z) (params z) (leader_sequence z) r 0 hp),
          z\<lparr>rounds := rds', first_non_finalized_round_id := sat_add32 r 1\<rparr>))"
      using ok by (intro finalize_after_eq [OF inv first(1)]) (auto simp: rounds_inv_def intro: pruned_empty)
    with False first show ?thesis
      by (auto simp: finalize_round_unfold accepted_proposal_acc finalized_def chain_ids_first chain_blocks_def)
  qed
next
  case (parent r k hp q hp')
  let ?f = "first_non_finalized_round_id z" and ?q = "chain_ids (rounds z) q"
  have ids: "chain_ids (rounds z) r = ?q @ [r]"
    by (rule chain_ids_parent [OF parent(1-3)])
  have q: "?q \<noteq> []" "q \<in> set ?q" "set ?q \<subseteq> {..q}"
    using chain_ids_props [OF zug_invD(6) [OF inv] parent(4)] chain_ids_self [OF zug_invD(6) [OF inv] parent(4)]
    by auto
  show ?case
  proof (cases "r < ?f")
    case True
    have "filter (\<lambda>x. ?f \<le> x) (chain_ids (rounds z) r) = []"
      by (rule chain_ids_below [OF zug_invD(6) [OF inv] parent(1) True])
    with True parent(1) zug_invD(3) [OF inv] show ?thesis
      by (subst finalize_round.simps)
        (auto simp: finalized_def chain_blocks_def rounds_inv_def intro: pruned_empty)
  next
    case False
    from parent.IH obtain rds where
      fin: "finalize_round cx q z = Some (map FinalizedBlock (chain_blocks cx (validators z) (params z)
          (leader_sequence z) (rounds z) (filter (\<lambda>x. ?f \<le> x) ?q)),
        if q < ?f then z else z\<lparr>rounds := rds, first_non_finalized_round_id := sat_add32 q 1\<rparr>)"
      and rds: "pruned cx (validators z) (leader_sequence z) ({?f..<q} - set ?q) (rounds z) rds"
      by (auto simp: finalized_def)
    define rds1 where "rds1 = (if q < ?f then rounds z else rds)"
    define f1 where "f1 = max ?f (Suc q)"
    have "r \<le> u32_max"
      by (rule acc_bound [OF inv parent(1)])
    have z1: "(if q < ?f then z else z\<lparr>rounds := rds, first_non_finalized_round_id := sat_add32 q 1\<rparr>) =
      z\<lparr>rounds := rds1, first_non_finalized_round_id := f1\<rparr>"
      using \<open>q < r\<close> \<open>r \<le> u32_max\<close> by (auto simp: rds1_def f1_def max_def)
    have rds1: "pruned cx (validators z) (leader_sequence z) ({?f..<q} - set ?q) (rounds z) rds1"
      using rds zug_invD(3) [OF inv] by (auto simp: rds1_def rounds_inv_def intro: pruned_empty)
    from finalize_after_eq [OF inv parent(1) refl rds1, of f1] \<open>q < r\<close> obtain rds' where
      rds': "pruned cx (validators z) (leader_sequence z) (({?f..<q} - set ?q) \<union> {f1..<r}) (rounds z) rds'"
      and aft: "\<And>os. finalize_after cx r (Suc k) hp os (z\<lparr>rounds := rds1, first_non_finalized_round_id := f1\<rparr>) =
        Some (os @ map FinalizedBlock (block_for cx (validators z) (params z) (leader_sequence z) r (Suc k) hp),
          z\<lparr>rounds := rds', first_non_finalized_round_id := sat_add32 r 1\<rparr>)"
      by auto
    have X: "({?f..<q} - set ?q) \<union> {f1..<r} = {?f..<r} - set (chain_ids (rounds z) r)"
    proof (rule set_eqI)
      fix x
      show "x \<in> ({?f..<q} - set ?q) \<union> {f1..<r} \<longleftrightarrow> x \<in> {?f..<r} - set (chain_ids (rounds z) r)"
        using q \<open>q < r\<close> False by (cases x q rule: linorder_cases) (auto simp: ids f1_def)
    qed
    have "finalize_round cx r z = Some (map FinalizedBlock (chain_blocks cx (validators z) (params z)
          (leader_sequence z) (rounds z) (filter (\<lambda>x. ?f \<le> x) (chain_ids (rounds z) r))),
        z\<lparr>rounds := rds', first_non_finalized_round_id := sat_add32 r 1\<rparr>)"
      using False parent(1,2) fin
      by (simp add: finalize_round_unfold accepted_proposal_acc z1 aft ids chain_blocks_def)
    with rds' False show ?thesis
      unfolding X finalized_def by auto
  qed
qed

end
