(* ===== verification/Zug_Update.thy ===== *)
theory Zug_Update
  imports Zug_Finalize
begin

text \<open>
  \<open>update\<close> and the handling of a fault return without a panic from every state that satisfies the
  invariant, and are sequences of elementary steps.
\<close>

section \<open>Finalizing\<close>

lemma announce_finalized [simp]:
  "finalized_in (map FinalizedBlock bs) = bs" "signed_in (map FinalizedBlock bs) = []"
  by (induction bs) simp_all

lemma reaches_finalize_round:
  assumes re: "reaches cx z0 os z" and acc: "acc (rounds z) r \<noteq> None" and comm: "committed (rounds z) r"
    and r: "r < current_round z \<or> current_round z = u32_max"
  shows "wp (finalize_round cx r z) (\<lambda>(os', z'). reaches cx z0 (os @ os') z' \<and>
    current_round z' = current_round z \<and> (r < u32_max \<longrightarrow> r < first_non_finalized_round_id z'))"
proof -
  note inv = reaches_inv [OF re]
  obtain k hp where acc': "acc (rounds z) r = Some (k, hp)"
    using acc by auto
  from finalize_round_eq [OF inv acc'] obtain rds where
    pr: "pruned cx (validators z) (leader_sequence z)
      ({first_non_finalized_round_id z..<r} - set (chain_ids (rounds z) r)) (rounds z) rds"
    and fin: "finalize_round cx r z = Some (map FinalizedBlock
        (chain_blocks cx (validators z) (params z) (leader_sequence z) (rounds z)
          (filter (\<lambda>x. first_non_finalized_round_id z \<le> x) (chain_ids (rounds z) r))),
      if r < first_non_finalized_round_id z then z
      else z\<lparr>rounds := rds, first_non_finalized_round_id := sat_add32 r 1\<rparr>)"
    by (auto simp: finalized_def)
  show ?thesis
  proof (cases "r < first_non_finalized_round_id z")
    case True
    with re fin chain_ids_below [OF zug_invD(6) [OF inv] acc' True] show ?thesis
      by (simp add: chain_blocks_def)
  next
    case False
    then have "micro cx z (chain_blocks cx (validators z) (params z) (leader_sequence z) (rounds z)
        (filter (\<lambda>x. first_non_finalized_round_id z \<le> x) (chain_ids (rounds z) r))) []
        (z\<lparr>rounds := rds, first_non_finalized_round_id := sat_add32 r 1\<rparr>)"
      using acc comm r pr by (intro mi_finalize) auto
    moreover have "r < u32_max \<longrightarrow> r < sat_add32 r 1"
      by (simp add: sat_add32_def)
    ultimately show ?thesis
      using re fin False by (auto intro: reaches_step)
  qed
qed

section \<open>Updating a round\<close>

lemma reaches_create_round:
  assumes "reaches cx z0 os z" and "r \<le> u32_max"
  shows "wp (create_round cx r z) (\<lambda>z'. reaches cx z0 os z' \<and> current_round z' = current_round z \<and>
    zround z' r \<noteq> None)"
  using calm_round_mut [OF calm_refl [OF assms(1)] assms(2)]
  by (rule wpE2) (auto simp: create_round_def calm_def keeps_def)

lemma reaches_echo_own:
  assumes "reaches cx z0 os z" and "r \<le> u32_max"
  shows "wp (case proposal rd of None \<Rightarrow> Some ([], z)
      | Some hp \<Rightarrow> create_and_gossip_message cx r (Echo (hp_hash hp)) z)
    (\<lambda>(os', z'). reaches cx z0 (os @ os') z' \<and> current_round z' = current_round z)"
proof (cases "proposal rd")
  case (Some hp)
  from calm_create_and_gossip_message [OF calm_refl [OF assms(1)] assms(2), of "Echo (hp_hash hp)"]
  show ?thesis
    using Some by (auto simp: calm_def keeps_def elim!: wp_mono)
qed (use assms in simp)

lemma reaches_on_accept:
  assumes re: "reaches cx z0 os z" and r: "r \<le> u32_max" and acc: "accepted \<longrightarrow> acc (rounds z) r \<noteq> None"
  shows "wp (if accepted
      then do {
        let z = (if r = current_round z then update_proposal_timeout cx now z else z);
        (os, z) \<leftarrow> create_and_gossip_message cx r (Vote True) z;
        (os', z) \<leftarrow> validate_waiting cx r z;
        Some (os @ os', z)
      }
      else Some ([], z))
    (\<lambda>(os', z'). reaches cx z0 (os @ os') z' \<and> current_round z' = current_round z)"
proof (cases accepted)
  case True
  let ?z = "if r = current_round z then update_proposal_timeout cx now z else z"
  have "calm cx z0 os z ?z"
    using calm_refl [OF re] calm_update_proposal_timeout [OF calm_refl [OF re]] by simp
  from calm_create_and_gossip_message [OF this r] obtain os1 z1 where
    1: "create_and_gossip_message cx r (Vote True) ?z = Some (os1, z1)" "calm cx z0 (os @ os1) z z1"
    by (rule wpE2)
  have "acc (rounds z1) r \<noteq> None"
    using acc True 1(2) by (simp add: calm_def keeps_def)
  from calm_validate_waiting [OF 1(2) this] obtain os2 z2 where
    2: "validate_waiting cx r z1 = Some (os2, z2)" "calm cx z0 ((os @ os1) @ os2) z z2"
    by (rule wpE2)
  with True 1 show ?thesis
    by (simp add: Let_def calm_def keeps_def)
qed (use re in simp)

lemma reaches_on_current:
  assumes re: "reaches cx z0 os z" and r: "r \<le> current_round z"
  shows "wp (if r = current_round z
      then do {
        (os, voted, z) \<leftarrow> vote_on_current_round cx r now accepted z;
        (os', z) \<leftarrow> advance_or_propose cx r now voted z;
        Some (os @ os', z)
      }
      else Some ([], z))
    (\<lambda>(os', z'). reaches cx z0 (os @ os') z' \<and>
      (acc (rounds z') r \<noteq> None \<longrightarrow> r < current_round z' \<or> current_round z' = u32_max))"
proof (cases "r = current_round z")
  case True
  have "r \<le> u32_max"
    using r reaches_inv [OF re] by (simp add: zug_inv_def bounds_inv_def)
  from calm_vote_on_current_round [OF calm_refl [OF re] this] obtain os1 b z1 where
    1: "vote_on_current_round cx r now accepted z = Some (os1, b, z1)" "calm cx z0 (os @ os1) z z1"
    by (rule wpE) auto
  have re1: "reaches cx z0 (os @ os1) z1" "r = current_round z1"
    using 1(2) True by (simp_all add: calm_def keeps_def)
  from reaches_advance_or_propose [OF re1, of now b] show ?thesis
    using True 1(1) by (auto elim!: wp_mono)
qed (use assms in auto)

lemma reaches_update_round:
  assumes re: "reaches cx z0 os z" and r: "r \<le> current_round z"
  shows "wp (update_round cx r now z) (\<lambda>(os', z'). reaches cx z0 (os @ os') z' \<and>
    (r < u32_max \<longrightarrow> acc (rounds z') r \<noteq> None \<longrightarrow> committed (rounds z') r \<longrightarrow>
      r < current_round z' \<and> r < first_non_finalized_round_id z'))"
proof -
  have max: "r \<le> u32_max"
    using r reaches_inv [OF re] by (simp add: zug_inv_def bounds_inv_def)
  from reaches_create_round [OF re max] obtain z1 rd where
    1: "create_round cx r z = Some z1" "zround z1 r = Some rd" "reaches cx z0 os z1" "current_round z1 = current_round z"
    by (auto elim: wpE)
  from reaches_echo_own [OF 1(3) max, of rd] obtain os1 z2 where
    2: "(case proposal rd of None \<Rightarrow> Some ([], z1)
        | Some hp \<Rightarrow> create_and_gossip_message cx r (Echo (hp_hash hp)) z1) = Some (os1, z2)"
      "reaches cx z0 (os @ os1) z2" "current_round z2 = current_round z1"
    by (rule wpE2) blast
  from reaches_update_accepted_proposal [OF 2(2), of r] obtain b z3 where
    3: "update_accepted_proposal cx r z2 = Some (b, z3)" "reaches cx z0 (os @ os1) z3"
      "b \<longrightarrow> acc (rounds z3) r \<noteq> None" "current_round z3 = current_round z2"
    by (rule wpE2) blast
  from reaches_on_accept [OF 3(2) max 3(3), of now] obtain os2 z4 where
    4: "(if b
        then do {
          let z = (if r = current_round z3 then update_proposal_timeout cx now z3 else z3);
          (os, z) \<leftarrow> create_and_gossip_message cx r (Vote True) z;
          (os', z) \<leftarrow> validate_waiting cx r z;
          Some (os @ os', z)
        }
        else Some ([], z3)) = Some (os2, z4)"
      "reaches cx z0 ((os @ os1) @ os2) z4" "current_round z4 = current_round z3"
    by (rule wpE2) blast
  have "r \<le> current_round z4"
    using r 1(4) 2(3) 3(4) 4(3) by simp
  from reaches_on_current [OF 4(2) this, of now b] obtain os3 z5 where
    5: "(if r = current_round z4
        then do {
          (os, voted, z) \<leftarrow> vote_on_current_round cx r now b z4;
          (os', z) \<leftarrow> advance_or_propose cx r now voted z;
          Some (os @ os', z)
        }
        else Some ([], z4)) = Some (os3, z5)"
      "reaches cx z0 (((os @ os1) @ os2) @ os3) z5"
      "acc (rounds z5) r \<noteq> None \<longrightarrow> r < current_round z5 \<or> current_round z5 = u32_max"
    by (rule wpE2) blast
  have "wp (if has_accepted_proposal z5 r \<and> is_committed_round z5 r then finalize_round cx r z5 else Some ([], z5))
    (\<lambda>(os', z'). reaches cx z0 ((((os @ os1) @ os2) @ os3) @ os') z' \<and>
      (r < u32_max \<longrightarrow> acc (rounds z') r \<noteq> None \<longrightarrow> committed (rounds z') r \<longrightarrow>
        r < current_round z' \<and> r < first_non_finalized_round_id z'))"
    using 5(2,3) reaches_finalize_round [OF 5(2), of r]
    by (auto simp: has_accepted_proposal_acc is_committed_round_iff elim!: wp_mono)
  then show ?thesis
    unfolding update_round_def
    by (simp only: 1(1,2) 2(1) 3(1) 4(1) 5(1) Option.bind.bind_lunit prod.case)
      (simp add: case_prod_unfold)
qed

section \<open>Updating from the first dirty round\<close>

lemma reaches_update_from:
  assumes "reaches cx z0 os z" and "r \<le> current_round z"
  shows "wp (update_from cx now r z) (\<lambda>(os', z'). reaches cx z0 (os @ os') z')"
  using assms
proof (induction "u32_max - r" arbitrary: r os z rule: less_induct)
  case less
  from reaches_update_round [OF less.prems] obtain os1 z1 where
    1: "update_round cx r now z = Some (os1, z1)" "reaches cx z0 (os @ os1) z1"
    by (rule wpE2) blast
  show ?case
  proof (cases "current_round z1 \<le> r \<or> u32_max \<le> r")
    case True
    with 1 show ?thesis
      by (subst update_from.simps) simp
  next
    case False
    then have "wp (update_from cx now (Suc r) z1) (\<lambda>(os', z'). reaches cx z0 ((os @ os1) @ os') z')"
      using 1(2) by (intro less.hyps) auto
    with 1 False show ?thesis
      by (subst update_from.simps) (simp add: case_prod_unfold)
  qed
qed

lemma reaches_update:
  assumes re: "reaches cx z0 os z"
  shows "wp (update cx now z) (\<lambda>(os', z'). reaches cx z0 (os @ os') z')"
proof -
  note inv = reaches_inv [OF re]
  obtain fw where fw: "faulty_weight z = Some fw"
    using faulty_weight_exact [OF zug_inv_validators_wf [OF inv] zug_inv_faults_wf [OF inv]] by (rule wpE)
  have clean: "reaches cx z0 os' (z'\<lparr>maybe_dirty_round_id := None\<rparr>)" if "reaches cx z0 os' z'" for os' z'
    using that by (rule reaches_micro) (rule mi_dirty, simp)
  show ?thesis
  proof (cases "maybe_dirty_round_id z")
    case None
    then show ?thesis
      using re fw clean [OF re] by (simp add: update_def)
  next
    case (Some d)
    then have "d \<le> current_round z"
      using inv by (simp add: zug_inv_def bounds_inv_def)
    from reaches_update_from [OF re this] obtain os1 z1 where
      "update_from cx now d z = Some (os1, z1)" "reaches cx z0 (os @ os1) z1"
      by (rule wpE2)
    with clean show ?thesis
      using re fw Some by (simp add: update_def)
  qed
qed

section \<open>Faults\<close>

lemma calm_any_new_echo_quorum:
  assumes "calm cx z0 os z1 z"
    and "\<And>h rd. h \<in> set hs \<Longrightarrow> zround z r = Some rd \<Longrightarrow> map_of (echoes rd) h \<noteq> None"
  shows "wp (any_new_echo_quorum cx r hs z) (\<lambda>(b, z'). calm cx z0 os z1 z')"
  using assms(2)
proof (induction hs)
  case (Cons h hs)
  from calm_check_new_echo_quorum [OF assms(1), of r h] Cons.prems obtain b z' where
    "check_new_echo_quorum cx r h z = Some (b, z')" "calm cx z0 os z1 z'" "\<not> b \<longrightarrow> z' = z"
    by (auto elim!: wpE2)
  moreover have "wp (any_new_echo_quorum cx r hs z) (\<lambda>(b, z'). calm cx z0 os z1 z')"
    using Cons.prems by (intro Cons.IH) auto
  ultimately show ?case
    by auto
qed (use assms(1) in simp)

lemma calm_recompute_quorums:
  assumes calm: "calm cx z0 os z1 z"
  shows "wp (recompute_quorums cx r z) (calm cx z0 os z1)"
proof (cases "zround z r")
  case (Some rd)
  have votes: "wp (do {
      (t, z) \<leftarrow> check_new_vote_quorum cx r True z;
      if t then Some (mark_dirty r z)
      else do {
        (f, z) \<leftarrow> check_new_vote_quorum cx r False z;
        Some (if f then mark_dirty r z else z)
      }
    }) (calm cx z0 os z1)" if "calm cx z0 os z1 z" for z
  proof -
    from calm_check_new_vote_quorum [OF that, of r True] obtain t z2 where
      t: "check_new_vote_quorum cx r True z = Some (t, z2)" "calm cx z0 os z1 z2"
      by (rule wpE2) blast
    from calm_check_new_vote_quorum [OF t(2), of r False] obtain f z3 where
      f: "check_new_vote_quorum cx r False z2 = Some (f, z3)" "calm cx z0 os z1 z3"
      by (rule wpE2) blast
    show ?thesis
      using t f by (simp add: calm_mark_dirty)
  qed
  have "map_of (echoes rd) h \<noteq> None" if "h \<in> set (map fst (echoes rd))" for h
    using that by (simp add: map_of_eq_None_iff)
  with Some calm have "wp (any_new_echo_quorum cx r (map fst (echoes rd)) z) (\<lambda>(b, z'). calm cx z0 os z1 z')"
    by (intro calm_any_new_echo_quorum) auto
  then obtain b z' where b: "any_new_echo_quorum cx r (map fst (echoes rd)) z = Some (b, z')" "calm cx z0 os z1 z'"
    by (rule wpE2)
  show ?thesis
    using Some b votes [OF calm] votes [OF b(2)] votes [OF calm_mark_dirty [OF b(2)]]
    by (simp add: recompute_quorums_def)
qed (use calm in \<open>simp add: recompute_quorums_def\<close>)

lemma calm_remove_from_rounds:
  assumes calm: "calm cx z0 os z1 z" and v: "v \<in> faulty_set z" "our_idx z \<noteq> Some v"
  shows "wp (remove_from_rounds v z) (calm cx z0 os z1)"
proof -
  let ?I = "\<lambda>z'. calm cx z0 os z1 z' \<and> map fst (rounds z') = map fst (rounds z) \<and>
    faults z' = faults z \<and> our_idx z' = our_idx z"
  have "wp (remove_from_rounds v z) ?I"
    unfolding remove_from_rounds_def
  proof (rule wp_for_each)
    fix r z'
    assume "r \<in> set (map fst (rounds z))" and I: "?I z'"
    then have calm': "calm cx z0 os z1 z'" and r: "r \<in> set (map fst (rounds z'))"
      by simp_all
    then obtain rd where rd: "zround z' r = Some rd"
      by (cases "zround z' r") (auto simp: zround_def map_of_eq_None_iff)
    note inv = calm_inv [OF calm']
    have v': "v \<in> faulty_set z'" "our_idx z' \<noteq> Some v"
      using v I by (simp_all add: faulty_set_def)
    then have "v < nvals z'"
      using zug_inv_faults_wf [OF inv] by (auto simp: faults_wf_def)
    then have eq: "remove_votes_and_echoes v rd = Some (without v rd)"
      by (rule remove_votes_and_echoes_eq [OF round_inv_wf [OF zug_inv_round [OF inv rd]]])
    have "keeps z' (put_round r (without v rd) z')"
      using rd by (intro keeps_put_round) (auto intro: round_accepted_proposal_cong)
    then have "calm cx z0 os z1 (put_round r (without v rd) z')"
      by (rule calm_micro [OF calm' mi_remove [OF rd v']])
    moreover have "map fst (rounds (put_round r (without v rd) z')) = map fst (rounds z')"
      using r by (simp only: put_round_simps update_keys if_True)
    ultimately show "wp (do {
        rd \<leftarrow> zround z' r;
        rd' \<leftarrow> remove_votes_and_echoes v rd;
        Some (put_round r rd' z')
      }) ?I"
      using rd eq I by (simp add: our_idx_def)
  qed (use calm in simp)
  then show ?thesis
    by (rule wp_mono) simp
qed

lemma our_idx_faults: "our_idx (z\<lparr>faults := fs\<rparr>) = our_idx z"
  by (simp add: our_idx_def)

lemma reaches_handle_fault_no_wal:
  assumes re: "reaches cx z0 os z"
    and ev: "evidence_valid cx (validators z) (instance_id (params z)) m c2 sg2"
  shows "wp (handle_fault_no_wal cx m k c2 sg2 now z) (\<lambda>(os', z'). reaches cx z0 (os @ os') z')"
proof -
  let ?v = "sm_validator_idx m"
  define z1 where "z1 = z\<lparr>faults := AList.update ?v (Direct m c2 sg2) (faults z),
    active := (active z)[?v := None],
    active_validator := (if our_idx z = Some ?v then None else active_validator z)\<rparr>"
  define z2 where "z2 = z1\<lparr>progress_detected := True\<rparr>"
  have v: "?v < nvals z"
    using ev by (auto simp: evidence_valid_def dest: msg_valid_less)
  then have act: "vmap_set (active z) ?v None = Some ((active z)[?v := None])"
    using zug_invD(5) [OF reaches_inv [OF re]] by (simp add: vmap_set_def active_inv_def)
  have "micro cx z [] [] z1"
    unfolding z1_def by (rule mi_fault [OF ev refl refl])
  then have re2: "reaches cx z0 os z2"
    unfolding z2_def by (intro reaches_micro [OF reaches_micro [OF re] mi_progress])
  note inv2 = reaches_inv [OF re2] and quiet = reaches_quiet [OF re2]
  obtain fw where fw: "faulty_weight z2 = Some fw"
    using faulty_weight_exact [OF zug_inv_validators_wf [OF inv2] zug_inv_faults_wf [OF inv2]] by (rule wpE)
  have v2: "?v \<in> faulty_set z2" "our_idx z2 \<noteq> Some ?v"
    by (simp_all add: z2_def z1_def faulty_set_def our_idx_def)
  from calm_remove_from_rounds [OF calm_refl [OF quiet [of "[NewEvidence k]"]] v2] obtain z3 where
    3: "remove_from_rounds ?v z2 = Some z3" "calm cx z0 (os @ [NewEvidence k]) z2 z3"
    by (auto elim: wpE)
  have "wp (for_each (recompute_quorums cx) rs z3) (calm cx z0 (os @ [NewEvidence k]) z2)" for rs
    using 3(2) calm_recompute_quorums by (rule wp_for_each)
  then obtain z4 where
    4: "for_each (recompute_quorums cx) [first_non_finalized_round_id z3..<
        Suc (case last_round_id z3 of None \<Rightarrow> 0 | Some l \<Rightarrow> l)] z3 = Some z4" "calm cx z0 (os @ [NewEvidence k]) z2 z4"
    by (auto elim: wpE)
  from reaches_update [of cx z0 "os @ [NewEvidence k]" z4 now] obtain os5 z5 where
    5: "update cx now z4 = Some (os5, z5)" "reaches cx z0 ((os @ [NewEvidence k]) @ os5) z5"
    using 4(2) by (auto simp: calm_def elim: wpE)
  have step: "handle_fault_no_wal cx m k c2 sg2 now z = do {
      fw \<leftarrow> faulty_weight z2;
      if ftt (params z2) < fw then Some ([NewEvidence k, FttExceeded], z2)
      else do {
        z \<leftarrow> remove_from_rounds ?v z2;
        z \<leftarrow> for_each (recompute_quorums cx)
          [first_non_finalized_round_id z..< Suc (case last_round_id z of None \<Rightarrow> 0 | Some l \<Rightarrow> l)] z;
        (os, z) \<leftarrow> update cx now z;
        Some (NewEvidence k # os, z)
      }
    }"
  proof (cases "our_idx z = Some ?v")
    case True
    then have z2: "z2 = z\<lparr>faults := AList.update ?v (Direct m c2 sg2) (faults z),
        active_validator := None, active := (active z)[?v := None], progress_detected := True\<rparr>"
      by (simp add: z2_def z1_def)
    from act True show ?thesis
      unfolding z2 by (simp add: handle_fault_no_wal_def Let_def our_idx_faults)
  next
    case False
    then have z2: "z2 = z\<lparr>faults := AList.update ?v (Direct m c2 sg2) (faults z),
        active := (active z)[?v := None], progress_detected := True\<rparr>"
      by (simp add: z2_def z1_def)
    from act False show ?thesis
      unfolding z2 by (simp add: handle_fault_no_wal_def Let_def our_idx_faults)
  qed
  show ?thesis
    using quiet [of "[NewEvidence k, FttExceeded]"] 3(1) 4(1) 5 fw by (simp add: step)
qed

end
