(* ===== verification/Zug_BitField.thy ===== *)
theory Zug_BitField
  imports Casper_Prelude
begin

unbundle bit_operations_syntax

text \<open>
  The bit fields of sync messages (\<open>validator_bit_field\<close>, \<open>iter_validator_bit_field\<close> and
  \<open>validator_bit_field_includes\<close> of \<open>protocols/zug.rs\<close>): 128 bits that stand for the validators
  from some first one on, wrapping around at the number of validators.

  The index arithmetic is that of \<open>u32\<close>, with the wrap-around written out. The lemmas show that
  reading a field back yields the validators it was made of that fall into its range, whatever
  overflows on the way.
\<close>

definition overflowing_sub32 :: "nat \<Rightarrow> nat \<Rightarrow> nat \<times> bool" where
  "overflowing_sub32 a b = ((a + 2 ^ 32 - b) mod 2 ^ 32, a < b)"

definition overflowing_add32 :: "nat \<Rightarrow> nat \<Rightarrow> nat \<times> bool" where
  "overflowing_add32 a b = ((a + b) mod 2 ^ 32, 2 ^ 32 \<le> a + b)"

definition wrapping_add32 :: "nat \<Rightarrow> nat \<Rightarrow> nat" where
  "wrapping_add32 a b = (a + b) mod 2 ^ 32"

definition wrapping_sub32 :: "nat \<Rightarrow> nat \<Rightarrow> nat" where
  "wrapping_sub32 a b = (a + 2 ^ 32 - b) mod 2 ^ 32"

definition trailing_zeros :: "128 word \<Rightarrow> nat" where
  "trailing_zeros w = length (takeWhile (\<lambda>i. \<not> bit w i) [0..<128])"

text \<open>The bit of a validator in a field that starts at \<open>first_idx\<close>.\<close>

definition bit_index :: "nat \<Rightarrow> nat \<Rightarrow> nat \<Rightarrow> nat" where
  "bit_index validator_count first_idx v_idx =
     (case overflowing_sub32 v_idx first_idx of
        (idx, False) \<Rightarrow> idx
      | (idx, True) \<Rightarrow> wrapping_add32 idx validator_count)"

definition validator_bit_field :: "nat \<Rightarrow> nat \<Rightarrow> nat list \<Rightarrow> 128 word" where
  "validator_bit_field validator_count first_idx index_iter =
     (if validator_count \<le> first_idx then 0
      else fold
        (\<lambda>v_idx bit_field.
          let idx = bit_index validator_count first_idx v_idx
          in if idx < 128 then bit_field OR push_bit idx 1 else bit_field)
        index_iter 0)"

text \<open>The index \<open>zeros\<close> places after \<open>idx\<close>, as the iterator computes it.\<close>

definition advance_index :: "nat \<Rightarrow> nat \<Rightarrow> nat \<Rightarrow> nat" where
  "advance_index validator_count idx zeros =
     (case overflowing_add32 idx zeros of
        (i, False) \<Rightarrow> i
      | (i, True) \<Rightarrow> wrapping_sub32 (i mod validator_count) validator_count) mod validator_count"

function iter_validator_bit_field :: "nat \<Rightarrow> nat \<Rightarrow> 128 word \<Rightarrow> nat list" where
  "iter_validator_bit_field validator_count idx bit_field =
     (if bit_field = 0 \<or> validator_count \<le> idx then []
      else
        let zeros = trailing_zeros bit_field;
            bit_field = drop_bit zeros bit_field AND NOT 1;
            idx = advance_index validator_count idx zeros
        in idx # iter_validator_bit_field validator_count idx bit_field)"
  by pat_completeness auto

definition validator_bit_field_includes :: "nat \<Rightarrow> nat \<Rightarrow> nat \<Rightarrow> bool" where
  "validator_bit_field_includes validator_count first_idx v_idx =
     (if validator_count \<le> first_idx then False
      else
        let high_bit = 127;
            (last_idx, last_idx_overflow) = overflowing_add32 first_idx high_bit
        in if first_idx \<le> v_idx then last_idx_overflow \<or> v_idx \<le> last_idx
           else
             let (v_idx2, v_idx2_overflow) = overflowing_add32 v_idx validator_count
             in if v_idx2_overflow = last_idx_overflow then v_idx2 \<le> last_idx
                else last_idx_overflow)"

section \<open>Termination of the iterator\<close>

lemma bit_trailing_zeros:
  assumes "w \<noteq> 0"
  shows "trailing_zeros w < 128" and "bit w (trailing_zeros w)"
proof -
  let ?P = "\<lambda>i. \<not> bit w i"
  have "trailing_zeros w \<noteq> 128"
  proof
    assume "trailing_zeros w = 128"
    then have "length (takeWhile ?P [0..<128]) = length [0..<128]"
      by (simp add: trailing_zeros_def)
    then have "takeWhile ?P [0..<128] = [0..<128]"
      by (metis takeWhile_eq_take take_all order_refl)
    then have "\<forall>i \<in> set [0..<128]. ?P i"
      by (simp only: takeWhile_eq_all_conv)
    then have "w = 0"
      by (intro bit_word_eqI) auto
    with assms show False ..
  qed
  moreover have "trailing_zeros w \<le> 128"
    unfolding trailing_zeros_def using length_takeWhile_le [of ?P "[0..<128]"] by simp
  ultimately show less: "trailing_zeros w < 128" by simp
  then show "bit w (trailing_zeros w)"
    using nth_length_takeWhile [of ?P "[0..<128]"] by (simp add: trailing_zeros_def)
qed

lemma not_bit_below_trailing_zeros:
  assumes "i < trailing_zeros w"
  shows "\<not> bit w i"
proof -
  let ?P = "\<lambda>i. \<not> bit w i"
  have len: "trailing_zeros w \<le> 128"
    unfolding trailing_zeros_def using length_takeWhile_le [of ?P "[0..<128]"] by simp
  have "takeWhile ?P [0..<128] ! i = i"
    using takeWhile_nth [of i ?P "[0..<128]"] assms len by (simp add: trailing_zeros_def)
  moreover have "takeWhile ?P [0..<128] ! i \<in> set (takeWhile ?P [0..<128])"
    using assms by (intro nth_mem) (simp add: trailing_zeros_def)
  ultimately show ?thesis
    by (metis (lifting) set_takeWhileD)
qed

text \<open>What is left of the field after one step of the iterator.\<close>

lemma bit_rest_iff:
  "bit (drop_bit z w AND NOT 1 :: 128 word) j \<longleftrightarrow> j \<noteq> 0 \<and> bit w (z + j)"
  by (auto simp: bit_and_iff bit_not_iff bit_drop_bit_eq bit_1_iff dest: bit_imp_le_length)

lemma finite_bits [simp]: "finite {i. bit (w :: 128 word) i}"
  by (rule finite_subset [of _ "{..<128}"]) (auto dest: bit_imp_le_length)

lemma card_rest_less:
  assumes "w \<noteq> (0 :: 128 word)"
  shows "card {j. bit (drop_bit (trailing_zeros w) w AND NOT 1) j} < card {i. bit w i}"
proof -
  let ?z = "trailing_zeros w"
  have "(\<lambda>j. ?z + j) ` {j. bit (drop_bit ?z w AND NOT 1) j} \<subseteq> {i. bit w i} - {?z}"
    unfolding bit_rest_iff by auto
  then have "card {j. bit (drop_bit ?z w AND NOT 1) j} \<le> card ({i. bit w i} - {?z})"
    by (rule card_inj_on_le [rotated]) (auto simp: inj_on_def)
  also have "\<dots> < card {i. bit w i}"
    using bit_trailing_zeros(2) [OF assms] by (intro card_Diff1_less) auto
  finally show ?thesis .
qed

termination iter_validator_bit_field
  by (relation "measure (\<lambda>(n, idx, w). card {i. bit w i})", rule wf_measure)
    (simp only: in_measure prod.case de_Morgan_disj, blast intro: card_rest_less)

declare iter_validator_bit_field.simps [simp del]

section \<open>The arithmetic modulo the number of validators\<close>

text \<open>Whatever overflows, the iterator advances modulo the number of validators.\<close>

lemma advance_index_mod:
  assumes "idx < n" and "n < 2 ^ 32" and "z < 128"
  shows "advance_index n idx z = (idx + z) mod n"
proof (cases "idx + z < 2 ^ 32")
  case True
  then show ?thesis
    by (simp add: advance_index_def overflowing_add32_def)
next
  case False
  let ?i = "idx + z - 2 ^ 32"
  have wrap: "(idx + z) mod 2 ^ 32 = ?i"
    using False assms by (simp add: mod_if)
  have "?i mod n < n"
    using assms by simp
  then have "wrapping_sub32 (?i mod n) n = ?i mod n + 2 ^ 32 - n"
    using assms by (simp add: wrapping_sub32_def)
  moreover have "(?i mod n + 2 ^ 32 - n) mod n = (?i mod n + 2 ^ 32) mod n"
    using assms by (simp add: le_mod_geq)
  moreover have "(?i mod n + 2 ^ 32) mod n = (idx + z) mod n"
    using False by (simp add: mod_add_left_eq)
  ultimately show ?thesis
    using False wrap by (simp add: advance_index_def overflowing_add32_def)
qed

lemma bit_index_mod:
  assumes "first < n" and "n < 2 ^ 32" and "v < n"
  shows "bit_index n first v = (v + n - first) mod n"
proof (cases "first \<le> v")
  case True
  have "(v + 2 ^ 32 - first) mod 2 ^ 32 = (v - first + 2 ^ 32) mod 2 ^ 32"
    using True by (simp add: add.commute)
  also have "\<dots> = v - first"
    using assms by simp
  finally have "bit_index n first v = v - first"
    using True by (simp add: bit_index_def overflowing_sub32_def)
  moreover have "(v + n - first) mod n = v - first"
    using True assms by (simp add: mod_if)
  ultimately show ?thesis by simp
next
  case False
  have "(v + 2 ^ 32 - first) mod 2 ^ 32 = v + 2 ^ 32 - first"
    using False by simp
  moreover have "(v + 2 ^ 32 - first + n) mod 2 ^ 32 = v + n - first"
    using False assms by (simp add: mod_if)
  ultimately show ?thesis
    using False assms by (simp add: bit_index_def overflowing_sub32_def wrapping_add32_def)
qed

lemma bit_index_less: "first < n \<Longrightarrow> n < 2 ^ 32 \<Longrightarrow> v < n \<Longrightarrow> bit_index n first v < n"
  by (simp add: bit_index_mod)

lemma bit_index_inverse:
  assumes "first < n" and "n < 2 ^ 32" and "v < n"
  shows "(first + bit_index n first v) mod n = v"
proof -
  have "(first + bit_index n first v) mod n = (first + (v + n - first)) mod n"
    using assms by (simp add: bit_index_mod mod_add_right_eq)
  then show ?thesis
    using assms by simp
qed

section \<open>Reading and writing fields\<close>

lemma bits_split:
  assumes "w \<noteq> (0 :: 128 word)"
  defines "z \<equiv> trailing_zeros w"
  shows "filter (bit w) [0..<128] =
    z # map (\<lambda>j. z + j) (filter (bit (drop_bit z w AND NOT 1)) [0..<128])"
proof -
  have z: "z < 128" "bit w z" "\<And>i. i < z \<Longrightarrow> \<not> bit w i"
    using bit_trailing_zeros [OF assms(1)] not_bit_below_trailing_zeros by (auto simp: z_def)
  let ?rest = "filter (bit (drop_bit z w AND NOT 1)) [0..<128]"
  have set_rest: "set ?rest = {j. j \<noteq> 0 \<and> bit w (z + j)}"
    unfolding set_filter bit_rest_iff by (auto dest: bit_imp_le_length)
  have "set (filter (bit w) [0..<128]) = set (z # map (\<lambda>j. z + j) ?rest)"
  proof -
    have "i \<in> (\<lambda>j. z + j) ` {j. j \<noteq> 0 \<and> bit w (z + j)}" if "bit w i" "i \<noteq> z" for i
    proof
      from that z(3) [of i] have "z < i"
        by (meson linorder_neqE_nat)
      with that show "i = z + (i - z)" and "i - z \<in> {j. j \<noteq> 0 \<and> bit w (z + j)}"
        by auto
    qed
    then have "{i. i < 128 \<and> bit w i} = insert z ((\<lambda>j. z + j) ` {j. j \<noteq> 0 \<and> bit w (z + j)})"
      using z(1,2) by (auto dest: bit_imp_le_length)
    then show ?thesis
      unfolding list.set set_map set_rest by auto
  qed
  moreover have "sorted ?rest" "distinct ?rest"
    by (rule sorted_wrt_filter, simp) (rule distinct_filter, simp)
  then have "sorted (z # map (\<lambda>j. z + j) ?rest)" "distinct (z # map (\<lambda>j. z + j) ?rest)"
    unfolding sorted_simps(2) distinct.simps set_map set_rest by (auto simp: sorted_map distinct_map inj_on_def)
  ultimately show ?thesis
    by (intro sorted_distinct_set_unique) (simp_all add: sorted_wrt_filter)
qed

text \<open>The iterator yields the validators of the set bits, from the lowest bit to the highest.\<close>

lemma iter_validator_bit_field_eq:
  assumes "n < 2 ^ 32" and "idx < n"
  shows "iter_validator_bit_field n idx w = map (\<lambda>i. (idx + i) mod n) (filter (bit w) [0..<128])"
  using assms
proof (induction n idx w rule: iter_validator_bit_field.induct)
  case (1 n idx w)
  show ?case
  proof (cases "w = 0")
    case True
    then show ?thesis
      by (subst iter_validator_bit_field.simps) simp
  next
    case False
    define z where "z = trailing_zeros w"
    define w' where "w' = drop_bit z w AND NOT 1"
    have z: "z < 128"
      using bit_trailing_zeros(1) [OF False] by (simp add: z_def)
    have adv: "advance_index n idx z = (idx + z) mod n"
      using advance_index_mod "1.prems" z by simp
    have IH: "iter_validator_bit_field n ((idx + z) mod n) w' =
      map (\<lambda>i. ((idx + z) mod n + i) mod n) (filter (bit w') [0..<128])"
      using "1.IH" [OF _ z_def w'_def adv [symmetric]] False "1.prems" by simp
    have "iter_validator_bit_field n idx w =
      (idx + z) mod n # iter_validator_bit_field n ((idx + z) mod n) w'"
      using False "1.prems"(2) [unfolded not_le [symmetric]] by (subst iter_validator_bit_field.simps)
        (simp only: Let_def z_def [symmetric] w'_def [symmetric] adv if_False simp_thms)
    also have "\<dots> = map (\<lambda>i. (idx + i) mod n) (z # map (\<lambda>j. z + j) (filter (bit w') [0..<128]))"
      unfolding IH by (simp add: mod_add_left_eq add.assoc)
    also have "\<dots> = map (\<lambda>i. (idx + i) mod n) (filter (bit w) [0..<128])"
      unfolding w'_def z_def bits_split [OF False] ..
    finally show ?thesis .
  qed
qed

lemma bit_validator_bit_field:
  assumes "first < n"
  shows "bit (validator_bit_field n first vs) i \<longleftrightarrow>
    i < 128 \<and> (\<exists>v \<in> set vs. bit_index n first v = i)"
proof -
  let ?f = "\<lambda>v w :: 128 word. let idx = bit_index n first v
      in if idx < 128 then w OR push_bit idx 1 else w"
  have step: "bit (?f v w) i \<longleftrightarrow> bit w i \<or> i < 128 \<and> bit_index n first v = i" for v w
    by (auto simp: Let_def bit_or_iff bit_exp_iff)
  have "bit (fold ?f vs w) i \<longleftrightarrow>
    bit w i \<or> i < 128 \<and> (\<exists>v \<in> set vs. bit_index n first v = i)" for w
  proof (induction vs arbitrary: w)
    case Nil
    then show ?case by simp
  next
    case (Cons v vs)
    show ?case
      unfolding fold_Cons comp_apply Cons.IH step by auto
  qed
  from this [of 0] show ?thesis
    using assms by (simp add: validator_bit_field_def)
qed

lemma validator_bit_field_includes_iff:
  assumes "first < n" and "n < 2 ^ 32" and "v < n"
  shows "validator_bit_field_includes n first v \<longleftrightarrow> bit_index n first v < 128"
proof -
  define l where "l = first + 127"
  have over: "a mod 2 ^ 32 = (if 2 ^ 32 \<le> a then a - 2 ^ 32 else a)" if "a < 2 ^ 33" for a :: nat
    using that by (simp add: mod_if)
  show ?thesis
  proof (cases "first \<le> v")
    case True
    then have "bit_index n first v = v - first"
      using assms by (simp add: bit_index_mod mod_if)
    moreover have "l < 2 ^ 33"
      using assms by (simp add: l_def)
    ultimately show ?thesis
      using True assms over [of l]
      by (auto simp: validator_bit_field_includes_def overflowing_add32_def l_def)
  next
    case False
    then have "bit_index n first v = v + n - first"
      using assms by (simp add: bit_index_mod)
    moreover have "l < 2 ^ 33" "v + n < 2 ^ 33"
      using assms by (simp_all add: l_def)
    ultimately show ?thesis
      using False assms over [of l] over [of "v + n"]
      by (auto simp: validator_bit_field_includes_def overflowing_add32_def l_def)
  qed
qed

text \<open>
  Masking a field and reading it back yields exactly the validators the field was made of whose bit
  survives.
\<close>

lemma set_iter_masked:
  assumes "first < n" and "n < 2 ^ 32" and "set vs \<subseteq> {..<n}"
  shows "set (iter_validator_bit_field n first (validator_bit_field n first vs AND m)) =
    {v \<in> set vs. bit_index n first v < 128 \<and> bit m (bit_index n first v)}"
proof -
  have "set (iter_validator_bit_field n first (validator_bit_field n first vs AND m)) =
    (\<lambda>i. (first + i) mod n) ` {i. i < 128 \<and> (\<exists>v \<in> set vs. bit_index n first v = i) \<and> bit m i}"
    using assms(1,2) bit_validator_bit_field [OF assms(1), of vs]
    by (auto simp: iter_validator_bit_field_eq bit_and_iff)
  also have "\<dots> = {v \<in> set vs. bit_index n first v < 128 \<and> bit m (bit_index n first v)}"
    using assms by (force simp: bit_index_inverse subset_iff)
  finally show ?thesis .
qed

end
