(* ===== verification/Zug_Sync.thy ===== *)
theory Zug_Sync
  imports Zug_Ops Zug_BitField
begin

text \<open>
  The sync protocol of \<open>protocols/zug.rs\<close>: the requests we have sent (\<open>mod registered_sync\<close>),
  \<open>create_sync_request\<close>, the timer that sends one, and \<open>handle_sync_request\<close>, which answers with
  what the requester is missing.

  What the source draws from its random number generator or reads from the system clock is an
  argument. The single loops of \<open>handle_sync_request\<close> are the functions \<open>sync_echoes\<close>,
  \<open>sync_votes\<close> and \<open>sync_evidence\<close>.
\<close>

section \<open>Requests we have sent (registered_sync)\<close>

definition prune_old :: "timestamp \<Rightarrow> (nat \<times> timestamp) list \<Rightarrow> (nat \<times> timestamp) list" where
  "prune_old sys_now ids = filter (\<lambda>(_, ts). sys_now - ts < 60000) ids"

text \<open>The loop draws IDs until one is not in use; \<open>draws\<close> are the numbers the generator returns.\<close>

fun fresh_id :: "(nat \<times> timestamp) list \<Rightarrow> nat list \<Rightarrow> nat option" where
  "fresh_id ids [] = None"
| "fresh_id ids (d # draws) = (if map_of ids d = None then Some d else fresh_id ids draws)"

definition create_and_register_new_id ::
  "timestamp \<Rightarrow> nat list \<Rightarrow> ('v, 'h, 's, 'i, 'k, 'x) zug \<Rightarrow>
     (nat \<times> ('v, 'h, 's, 'i, 'k, 'x) zug) option" where
  "create_and_register_new_id sys_now draws z =
     do {
       let ids = prune_old sys_now (sent_sync_requests z);
       d \<leftarrow> fresh_id ids draws;
       Some (d, z\<lparr>sent_sync_requests := AList.update d sys_now ids\<rparr>)
     }"

definition try_remove_id ::
  "nat \<Rightarrow> ('v, 'h, 's, 'i, 'k, 'x) zug \<Rightarrow> nat option \<times> ('v, 'h, 's, 'i, 'k, 'x) zug" where
  "try_remove_id sync_id z =
     (map_option (\<lambda>_. sync_id) (map_of (sent_sync_requests z) sync_id),
      z\<lparr>sent_sync_requests := AList.delete sync_id (sent_sync_requests z)\<rparr>)"

section \<open>Sync requests\<close>

definition count_u32 :: "('v, 'h, 's, 'i, 'k, 'x) zug \<Rightarrow> nat" where
  "count_u32 z = as_u32 (vs_len (validators z))"

text \<open>\<open>max_by_key\<close> returns the last of the greatest entries.\<close>

fun heaviest_hash ::
  "('v, 'h, 's, 'i, 'k, 'x) zug \<Rightarrow> ('h \<times> (nat \<times> 's) list) list \<Rightarrow> ('h \<times> weight) option \<Rightarrow> 'h option option" where
  "heaviest_hash z [] best = Some (map_option fst best)"
| "heaviest_hash z ((hash, echo_map) # es) best =
     do {
       w \<leftarrow> sum_weights (validators z) (map fst echo_map);
       heaviest_hash z es
         (case best of
            None \<Rightarrow> Some (hash, w)
          | Some (h', w') \<Rightarrow> if w' \<le> w then Some (hash, w) else best)
     }"

definition create_sync_request ::
  "timestamp \<Rightarrow> nat list \<Rightarrow> nat \<Rightarrow> round_id \<Rightarrow> ('v, 'h, 's, 'i, 'k, 'x) zug \<Rightarrow>
     (('h, 'i) sync_request \<times> ('v, 'h, 's, 'i, 'k, 'x) zug) option" where
  "create_sync_request sys_now draws first_validator_idx r z =
     (let bits = validator_bit_field (count_u32 z) first_validator_idx;
          faulty = bits (map fst (faults z));
          activ = bits (keys_some (active z))
      in case zround z r of
           None \<Rightarrow>
             do {
               (sync_id, z) \<leftarrow> create_and_register_new_id sys_now draws z;
               Some (new_empty_round r first_validator_idx faulty activ (instance_id (params z)) sync_id, z)
             }
         | Some rd \<Rightarrow>
             do {
               let true_votes = bits (keys_some (votes rd True));
               let false_votes = bits (keys_some (votes rd False));
               proposal_hash \<leftarrow>
                 (case quorum_echoes rd of
                    Some h \<Rightarrow> Some (Some h)
                  | None \<Rightarrow> heaviest_hash z (echoes rd) None);
               let has_prop = (map_option hp_hash (proposal rd) = proposal_hash);
               let echo_bits =
                 (case Option.bind proposal_hash (map_of (echoes rd)) of
                    None \<Rightarrow> 0
                  | Some echo_map \<Rightarrow> bits (map fst echo_map));
               (sync_id, z) \<leftarrow> create_and_register_new_id sys_now draws z;
               Some (\<lparr>sr_round_id = r, sr_proposal_hash = proposal_hash, sr_has_proposal = has_prop,
                      sr_first_validator_idx = first_validator_idx, sr_echoes = echo_bits,
                      sr_true_votes = true_votes, sr_false_votes = false_votes, sr_active = activ,
                      sr_faulty = faulty, sr_instance_id = instance_id (params z),
                      sr_sync_id = sync_id\<rparr>, z)
             })"

text \<open>
  \<open>handle_sync_peer_timer\<close>: \<open>idx_draw\<close> and \<open>round_draw\<close> are what the generator draws for the first
  validator index and for the round.
\<close>

definition handle_sync_peer_timer ::
  "timestamp \<Rightarrow> timestamp \<Rightarrow> nat \<Rightarrow> round_id \<Rightarrow> nat list \<Rightarrow> ('v, 'h, 's, 'i, 'k, 'x) zug \<Rightarrow>
     (('v, 'h, 's, 'i, 'k) outcome list \<times> ('v, 'h, 's, 'i, 'k, 'x) zug) option" where
  "handle_sync_peer_timer now sys_now idx_draw round_draw draws z =
     (if evidence_only z \<or> finalized_switch_block z then Some ([], z)
      else do {
        assert_that (0 < count_u32 z);
        let first_validator_idx = idx_draw mod count_u32 z;
        let r = (if first_non_finalized_round_id z \<le> round_draw \<and> round_draw \<le> current_round z
                 then round_draw else current_round z);
        (payload, z) \<leftarrow> create_sync_request sys_now draws first_validator_idx r z;
        Some (CreatedRequestToRandomValidator payload #
              (case sync_state_interval (config z) of
                 None \<Rightarrow> []
               | Some interval \<Rightarrow> [ScheduleTimer (sat_add64 now interval) 0]), z)
      })"

section \<open>Responding to sync requests\<close>

text \<open>\<open>map[&v]\<close> for every index of the iterator.\<close>

fun lookup_all :: "('a \<Rightarrow> 'b option) \<Rightarrow> 'a list \<Rightarrow> ('a \<times> 'b) list option" where
  "lookup_all f [] = Some []"
| "lookup_all f (x # xs) = do { y \<leftarrow> f x; ys \<leftarrow> lookup_all f xs; Some ((x, y) # ys) }"

text \<open>Collecting into a \<open>BTreeMap\<close>: ascending keys, the last entry of a key wins.\<close>

definition collect_btree :: "(nat \<times> 'a) list \<Rightarrow> (nat \<times> 'a) list" where
  "collect_btree kvs = sort_key fst (fold (\<lambda>(k, v). AList.update k v) kvs [])"

text \<open>\<open>votes(b)[v_idx].unwrap()\<close>: a panic out of range and on a missing vote.\<close>

definition vote_sig :: "('v, 'h, 's) round \<Rightarrow> bool \<Rightarrow> nat \<Rightarrow> 's option" where
  "vote_sig rd b v = Option.bind (vmap_get (votes rd b) v) id"

text \<open>The echo signatures and the proposal or hash we send, and the bit field of our echoes.\<close>

definition sync_echoes ::
  "('v, 'h, 's, 'i, 'k, 'x) zug \<Rightarrow> ('v, 'h, 's) round \<Rightarrow> nat \<Rightarrow> 'h option \<Rightarrow> bool \<Rightarrow> 128 word \<Rightarrow> 128 word \<Rightarrow>
     (('v proposal + 'h) option \<times> (nat \<times> 's) list \<times> 128 word) option" where
  "sync_echoes z rd first_validator_idx proposal_hash has_prop echo_bits faulty_bits =
     (case proposal_hash of
        None \<Rightarrow> Some (None, [], 0)
      | Some hash \<Rightarrow>
          (case map_of (echoes rd) hash of
             None \<Rightarrow> Some (None, [], 0)
           | Some echo_map \<Rightarrow>
               do {
                 let our_echoes = validator_bit_field (count_u32 z) first_validator_idx (map fst echo_map);
                 let missing_echoes = our_echoes AND NOT (echo_bits OR faulty_bits);
                 sigs \<leftarrow> lookup_all (map_of echo_map)
                   (iter_validator_bit_field (count_u32 z) first_validator_idx missing_echoes);
                 if has_prop then Some (Some (Inr hash), collect_btree sigs, our_echoes)
                 else
                   (let leader_sigs =
                      (if validator_bit_field_includes (count_u32 z) first_validator_idx (leader_idx rd)
                       then []
                       else case map_of echo_map (leader_idx rd) of
                              None \<Rightarrow> []
                            | Some sg \<Rightarrow> [(leader_idx rd, sg)]);
                        proposal_or_hash =
                      (case proposal rd of
                         None \<Rightarrow> None
                       | Some hp \<Rightarrow> if hp_hash hp = hash then Some (Inl (hp_inner hp)) else None)
                    in Some (proposal_or_hash, collect_btree (sigs @ leader_sigs), our_echoes))
               }))"

text \<open>Votes the requester is missing, unless there already is a quorum for the opposite vote.\<close>

definition sync_votes ::
  "('v, 'h, 's, 'i, 'k, 'x) zug \<Rightarrow> ('v, 'h, 's) round \<Rightarrow> nat \<Rightarrow> bool \<Rightarrow> 128 word \<Rightarrow> 128 word \<Rightarrow>
     ((nat \<times> 's) list \<times> 128 word) option" where
  "sync_votes z rd first_validator_idx vote vote_bits faulty_bits =
     do {
       let our_votes =
         (if quorum_votes rd = Some (\<not> vote) then 0
          else validator_bit_field (count_u32 z) first_validator_idx (keys_some (votes rd vote)));
       let missing_votes = our_votes AND NOT (vote_bits OR faulty_bits);
       sigs \<leftarrow> lookup_all (vote_sig rd vote)
         (iter_validator_bit_field (count_u32 z) first_validator_idx missing_votes);
       Some (collect_btree sigs, our_votes)
     }"

text \<open>
  The evidence the requester is missing: \<open>Inl ()\<close> stands for the early return when the peer does not
  know about a banned validator.
\<close>

fun sync_evidence ::
  "('v, 'h, 's, 'i, 'k, 'x) zug \<Rightarrow> node_id \<Rightarrow> nat list \<Rightarrow>
     (unit + (('v, 'h, 's, 'i, 'k) outcome list \<times> (('h, 'i, 's) signed_message \<times> 'h content \<times> 's) list)) option" where
  "sync_evidence z sender [] = Some (Inr ([], []))"
| "sync_evidence z sender (v # vs) =
     do {
       fault \<leftarrow> map_of (faults z) v;
       case fault of
         Banned \<Rightarrow> Some (Inl ())
       | Direct m content2 signature2 \<Rightarrow>
           do {
             rest \<leftarrow> sync_evidence z sender vs;
             Some (map_sum id (\<lambda>(os, ev). (os, (m, content2, signature2) # ev)) rest)
           }
       | Indirect \<Rightarrow>
           do {
             vid \<leftarrow> id_at (validators z) v;
             rest \<leftarrow> sync_evidence z sender vs;
             Some (map_sum id (\<lambda>(os, ev). (SendEvidence sender vid # os, ev)) rest)
           }
     }"

definition handle_sync_request ::
  "('h, 'i) sync_request \<Rightarrow> node_id \<Rightarrow> ('v, 'h, 's, 'i, 'k, 'x) zug \<Rightarrow>
     (('v, 'h, 's, 'i, 'k) outcome list \<times> ('v, 'h, 'i, 's) message option) option" where
  "handle_sync_request req sender z =
     (let first_validator_idx = sr_first_validator_idx req; n = count_u32 z in
      if n \<le> first_validator_idx then Some ([Disconnect sender], None)
      else case zround z (sr_round_id req) of
        None \<Rightarrow> Some ([], None)
      | Some rd \<Rightarrow>
          do {
            let differs = (quorum_echoes rd \<noteq> sr_proposal_hash req \<and> quorum_echoes rd \<noteq> None);
            let has_prop = (differs \<or> sr_has_proposal req);
            let echo_bits = (if differs then 0 else sr_echoes req);
            let proposal_hash = (if differs then quorum_echoes rd else sr_proposal_hash req);
            let our_faulty = validator_bit_field n first_validator_idx (map fst (faults z));
            let faulty_bits = sr_faulty req OR our_faulty;
            (proposal_or_hash, echo_sigs, our_echoes) \<leftarrow>
              sync_echoes z rd first_validator_idx proposal_hash has_prop echo_bits faulty_bits;
            (true_vote_sigs, our_true_votes) \<leftarrow>
              sync_votes z rd first_validator_idx True (sr_true_votes req) faulty_bits;
            (false_vote_sigs, our_false_votes) \<leftarrow>
              sync_votes z rd first_validator_idx False (sr_false_votes req) faulty_bits;
            let missing_faulty = our_faulty AND NOT (sr_faulty req);
            ev \<leftarrow> sync_evidence z sender (iter_validator_bit_field n first_validator_idx missing_faulty);
            case ev of
              Inl _ \<Rightarrow> Some ([Disconnect sender], None)
            | Inr (os, evidence) \<Rightarrow>
                do {
                  let our_active = validator_bit_field n first_validator_idx (keys_some (active z));
                  let missing_active = our_active AND
                    NOT (sr_active req OR our_echoes OR our_true_votes OR our_false_votes OR our_faulty);
                  ms \<leftarrow> lookup_all (vmap_get (active z))
                    (iter_validator_bit_field n first_validator_idx missing_active);
                  Some (os, Some (SyncResponse
                    \<lparr>rs_round_id = sr_round_id req, rs_proposal_or_hash = proposal_or_hash,
                     rs_echo_sigs = echo_sigs, rs_true_vote_sigs = true_vote_sigs,
                     rs_false_vote_sigs = false_vote_sigs,
                     rs_signed_messages = List.map_filter snd ms, rs_evidence = evidence,
                     rs_instance_id = sr_instance_id req, rs_sync_id = sr_sync_id req\<rparr>))
                }
          })"

end
