(* ===== verification/Zug_Handlers.thy ===== *)
theory Zug_Handlers
  imports Zug_Sync
begin

text \<open>
  The handlers of \<open>protocols/zug.rs\<close>: incoming messages, timers, the calls of the era supervisor
  and the replay of the write-ahead log.

  A \<open>Result<_, FaultySender>\<close> is a sum with the faulty sender on the left; the state changes made
  before an error are kept, as in the source. A handler of \<open>ConsensusProtocol\<close> has its name; what it
  draws from the random number generator or reads from the disk is an argument.
\<close>

section \<open>Signed messages and evidence\<close>

definition handle_signed_message ::
  "('v, 'h, 's, 'i, 'k, 'x) ctx \<Rightarrow> ('h, 'i, 's) signed_message \<Rightarrow> node_id \<Rightarrow> timestamp \<Rightarrow> ('v, 'h, 's, 'i, 'k, 'x) zug \<Rightarrow>
     ((node_id + ('v, 'h, 's, 'i, 'k) outcome list) \<times> ('v, 'h, 's, 'i, 'k, 'x) zug) option" where
  "handle_signed_message cx m sender now z =
     (let v = sm_validator_idx m in
      case id_at (validators z) v of
        None \<Rightarrow> Some (Inl sender, z)
      | Some validator_id \<Rightarrow>
          if sm_instance_id m \<noteq> instance_id (params z) then Some (Inl sender, z)
          else if is_faulty z v then Some (Inr [], z)
          else if sat_add32 (current_round z) 7200 < sm_round_id m then Some (Inr [], z)
          else if evidence_only z then Some (Inr [], z)
          else do {
            known \<leftarrow> (case zround z (sm_round_id m) of
                        None \<Rightarrow> Some False
                      | Some rd \<Rightarrow> round_contains rd (sm_content m) v);
            if known then Some (Inr [], z)
            else if \<not> verify_signature cx m validator_id then Some (Inl sender, z)
            else do {
              conflict \<leftarrow> detect_fault z m;
              case conflict of
                Some (content2, signature2) \<Rightarrow>
                  do {
                    (os, z) \<leftarrow> handle_fault cx m validator_id content2 signature2 now z;
                    Some (Inr (os @ [CreatedGossipMessage (Evidence m content2 signature2)]), z)
                  }
              | None \<Rightarrow>
                  if is_faulty z v then Some (Inr [], z)
                  else do {
                    let z = snd (record_entry cx (WalSignedMessage m) z);
                    (added, z) \<leftarrow> add_content cx m z;
                    if added then do { (os, z) \<leftarrow> update cx now z; Some (Inr os, z) }
                    else Some (Inr [], z)
                  }
            }
          })"

definition handle_evidence ::
  "('v, 'h, 's, 'i, 'k, 'x) ctx \<Rightarrow> ('h, 'i, 's) signed_message \<Rightarrow> 'h content \<Rightarrow> 's \<Rightarrow> node_id \<Rightarrow> timestamp \<Rightarrow>
     ('v, 'h, 's, 'i, 'k, 'x) zug \<Rightarrow>
     ((node_id + ('v, 'h, 's, 'i, 'k) outcome list) \<times> ('v, 'h, 's, 'i, 'k, 'x) zug) option" where
  "handle_evidence cx m content2 signature2 sender now z =
     (let v = sm_validator_idx m in
      if (case map_of (faults z) v of Some fault \<Rightarrow> is_direct fault | None \<Rightarrow> False)
      then Some (Inr [], z)
      else case id_at (validators z) v of
        None \<Rightarrow> Some (Inl sender, z)
      | Some validator_id \<Rightarrow>
          if sm_instance_id m \<noteq> instance_id (params z) then Some (Inl sender, z)
          else if \<not> contradicts (sm_content m) content2 then Some (Inl sender, z)
          else if \<not> verify_signature cx m validator_id \<or>
            \<not> verify_signature cx (sm_with m content2 signature2) validator_id
          then Some (Inl sender, z)
          else do {
            (os, z) \<leftarrow> handle_fault cx m validator_id content2 signature2 now z;
            Some (Inr os, z)
          })"

section \<open>Proposals\<close>

definition store_for_later ::
  "round_id \<Rightarrow> ('v, 'h) hashed_proposal \<Rightarrow> round_id \<Rightarrow> node_id \<Rightarrow> ('v, 'h, 's, 'i, 'k, 'x) zug \<Rightarrow>
     ('v, 'h, 's, 'i, 'k, 'x) zug" where
  "store_for_later parent_round_id hp r sender z =
     (let by_proposal = (case map_of (proposals_waiting_for_parent z) parent_round_id of
                           None \<Rightarrow> [] | Some m \<Rightarrow> m);
          senders = (case map_of by_proposal hp of None \<Rightarrow> [] | Some l \<Rightarrow> l)
      in z\<lparr>proposals_waiting_for_parent :=
            AList.update parent_round_id
              (AList.update hp (List.insert (r, sender) senders) by_proposal)
              (proposals_waiting_for_parent z)\<rparr>)"

definition handle_proposal ::
  "('v, 'h, 's, 'i, 'k, 'x) ctx \<Rightarrow> round_id \<Rightarrow> 'v proposal \<Rightarrow> node_id \<Rightarrow> timestamp \<Rightarrow>
     ('v, 'h, 's, 'i, 'k, 'x) zug \<Rightarrow>
     ((node_id + ('v, 'h, 's, 'i, 'k) outcome list) \<times> ('v, 'h, 's, 'i, 'k, 'x) zug) option" where
  "handle_proposal cx r p sender now z =
     do {
       l \<leftarrow> zug_leader cx z r;
       if (case p_parent p of Some parent_round_id \<Rightarrow> r \<le> parent_round_id | None \<Rightarrow> False)
       then Some (Inl sender, z)
       else if sat_add64 now (clock_tolerance (config z)) < p_timestamp p then Some (Inr [], z)
       else if (p_parent p = None \<or> p_block p = None) \<noteq> (p_inactive p = None)
       then Some (Inl sender, z)
       else if (case p_inactive p of
                  None \<Rightarrow> False
                | Some inactive \<Rightarrow>
                    list_ex (\<lambda>idx. idx = l \<or> id_at (validators z) idx = None) inactive)
       then Some (Inl sender, z)
       else do {
         let hp = hashed_proposal_new cx p;
         if (case zround z r of
               None \<Rightarrow> True
             | Some rd \<Rightarrow> \<not> has_echoes_for_proposal rd (hp_hash hp))
         then Some (Inr [], z)
         else if Option.bind (zround z r) proposal = Some hp then Some (Inr [], z)
         else do {
           ancestors \<leftarrow>
             (case maybe_parent_round_id hp of
                None \<Rightarrow> Some (Some [])
              | Some parent_round_id \<Rightarrow> ancestor_values z parent_round_id);
           case ancestors of
             None \<Rightarrow>
               (case maybe_parent_round_id hp of
                  None \<Rightarrow> Some (Inr [], z)
                | Some parent_round_id \<Rightarrow> Some (Inr [], store_for_later parent_round_id hp r sender z))
           | Some vs \<Rightarrow>
               do {
                 (os, z) \<leftarrow> validate_proposal cx r hp vs sender z;
                 (os', z) \<leftarrow> update cx now z;
                 Some (Inr (os @ os'), z)
               }
         }
       }
     }"

section \<open>Sync responses\<close>

text \<open>A loop whose body returns early with \<open>?\<close>.\<close>

fun try_each ::
  "('a \<Rightarrow> 'z \<Rightarrow> (('e + 'o list) \<times> 'z) option) \<Rightarrow> 'a list \<Rightarrow> 'z \<Rightarrow> (('e + 'o list) \<times> 'z) option" where
  "try_each f [] z = Some (Inr [], z)"
| "try_each f (x # xs) z =
     Option.bind (f x z) (\<lambda>(r, z).
       case r of
         Inl e \<Rightarrow> Some (Inl e, z)
       | Inr os \<Rightarrow>
           Option.bind (try_each f xs z) (\<lambda>(r', z).
             Some (map_sum id (\<lambda>os'. os @ os') r', z)))"

definition try_then ::
  "(('e + 'o list) \<times> 'z) option \<Rightarrow> ('z \<Rightarrow> (('e + 'o list) \<times> 'z) option) \<Rightarrow> (('e + 'o list) \<times> 'z) option" where
  "try_then m f =
     Option.bind m (\<lambda>(r, z).
       case r of
         Inl e \<Rightarrow> Some (Inl e, z)
       | Inr os \<Rightarrow> Option.bind (f z) (\<lambda>(r', z). Some (map_sum id (\<lambda>os'. os @ os') r', z)))"

definition outcomes_or_disconnect ::
  "(node_id + ('v, 'h, 's, 'i, 'k) outcome list) \<times> ('v, 'h, 's, 'i, 'k, 'x) zug \<Rightarrow>
     ('v, 'h, 's, 'i, 'k) outcome list \<times> ('v, 'h, 's, 'i, 'k, 'x) zug" where
  "outcomes_or_disconnect p =
     (case p of
        (Inl sender, z) \<Rightarrow> ([Disconnect sender], z)
      | (Inr os, z) \<Rightarrow> (os, z))"

text \<open>The signed messages of a response: the explicit ones, then echoes, \<open>true\<close> and \<open>false\<close> votes.\<close>

definition response_messages ::
  "('v, 'h, 'i, 's) sync_response \<Rightarrow> 'h option \<Rightarrow> ('h, 'i, 's) signed_message list" where
  "response_messages resp proposal_hash =
     (let msg = (\<lambda>content (v, sg).
            \<lparr>sm_round_id = rs_round_id resp, sm_instance_id = rs_instance_id resp,
             sm_content = content, sm_validator_idx = v, sm_signature = sg\<rparr>)
      in rs_signed_messages resp @
         (case proposal_hash of
            None \<Rightarrow> []
          | Some hash \<Rightarrow> map (msg (Echo hash)) (rs_echo_sigs resp)) @
         map (msg (Vote True)) (rs_true_vote_sigs resp) @
         map (msg (Vote False)) (rs_false_vote_sigs resp))"

definition handle_sync_response ::
  "('v, 'h, 's, 'i, 'k, 'x) ctx \<Rightarrow> ('v, 'h, 'i, 's) sync_response \<Rightarrow> node_id \<Rightarrow> timestamp \<Rightarrow>
     ('v, 'h, 's, 'i, 'k, 'x) zug \<Rightarrow>
     (('v, 'h, 's, 'i, 'k) outcome list \<times> ('v, 'h, 's, 'i, 'k, 'x) zug) option" where
  "handle_sync_response cx resp sender now z =
     (let (removed, z) = try_remove_id (rs_sync_id resp) z in
      if removed = None then Some ([Disconnect sender], z)
      else if vs_len (validators z) <
        max (max (length (rs_echo_sigs resp)) (length (rs_true_vote_sigs resp)))
          (length (rs_false_vote_sigs resp))
      then Some ([Disconnect sender], z)
      else
        let (proposal_hash, maybe_prop) =
          (case rs_proposal_or_hash resp of
             Some (Inl p) \<Rightarrow> (Some (hp_hash (hashed_proposal_new cx p)), Some p)
           | Some (Inr hash) \<Rightarrow> (Some hash, None)
           | None \<Rightarrow> (None, None))
        in map_option outcomes_or_disconnect
             (try_then
               (try_then
                 (try_each (\<lambda>m. handle_signed_message cx m sender now) (response_messages resp proposal_hash) z)
                 (try_each
                   (\<lambda>(m, content2, signature2). handle_evidence cx m content2 signature2 sender now)
                   (rs_evidence resp)))
               (\<lambda>z. case maybe_prop of
                      None \<Rightarrow> Some (Inr [], z)
                    | Some p \<Rightarrow> handle_proposal cx (rs_round_id resp) p sender now z)))"

section \<open>The entry points of ConsensusProtocol\<close>

definition handle_message ::
  "('v, 'h, 's, 'i, 'k, 'x) ctx \<Rightarrow> node_id \<Rightarrow> ('v, 'h, 'i, 's) message option \<Rightarrow> timestamp \<Rightarrow>
     ('v, 'h, 's, 'i, 'k, 'x) zug \<Rightarrow>
     (('v, 'h, 's, 'i, 'k) outcome list \<times> ('v, 'h, 's, 'i, 'k, 'x) zug) option" where
  "handle_message cx sender msg now z =
     (case msg of
        None \<Rightarrow> Some ([Disconnect sender], z)
      | Some zug_msg \<Rightarrow>
          if message_instance_id zug_msg \<noteq> instance_id (params z) then Some ([Disconnect sender], z)
          else case zug_msg of
            SyncResponse resp \<Rightarrow> handle_sync_response cx resp sender now z
          | ProposalMsg r _ p echo \<Rightarrow>
              map_option outcomes_or_disconnect
                (try_then (handle_signed_message cx echo sender now z)
                  (handle_proposal cx r p sender now))
          | Signed m \<Rightarrow> map_option outcomes_or_disconnect (handle_signed_message cx m sender now z)
          | Evidence m content2 signature2 \<Rightarrow>
              map_option outcomes_or_disconnect (handle_evidence cx m content2 signature2 sender now z))"

definition handle_request_message ::
  "node_id \<Rightarrow> ('h, 'i) sync_request option \<Rightarrow> ('v, 'h, 's, 'i, 'k, 'x) zug \<Rightarrow>
     (('v, 'h, 's, 'i, 'k) outcome list \<times> ('v, 'h, 'i, 's) message option) option" where
  "handle_request_message sender msg z =
     (case msg of
        None \<Rightarrow> Some ([Disconnect sender], None)
      | Some req \<Rightarrow>
          if sr_instance_id req \<noteq> instance_id (params z) then Some ([Disconnect sender], None)
          else handle_sync_request req sender z)"

definition propose ::
  "('v, 'h, 's, 'i, 'k, 'x) ctx \<Rightarrow> 'v proposed_block \<Rightarrow> timestamp \<Rightarrow> ('v, 'h, 's, 'i, 'k, 'x) zug \<Rightarrow>
     (('v, 'h, 's, 'i, 'k) outcome list \<times> ('v, 'h, 's, 'i, 'k, 'x) zug) option" where
  "propose cx pb now z =
     (case pending_proposal z of
        None \<Rightarrow> Some ([], z)
      | Some (context, r, maybe_parent) \<Rightarrow>
          if context \<noteq> pb_context pb \<or> r \<noteq> current_round z then Some ([], z)
          else do {
            let z = z\<lparr>pending_proposal := None\<rparr>;
            let ids = map fst (enumerate_ids (validators z));
            assert_that (maybe_parent = None \<or> list_all (\<lambda>idx. idx < length (active z)) ids);
            let inactive = filter (\<lambda>idx. active z ! idx = None \<and> \<not> is_faulty z idx) ids;
            (os, z) \<leftarrow> create_echo_and_proposal cx (proposal_with_block pb maybe_parent inactive) z;
            (os', z) \<leftarrow> update cx now z;
            Some (os @ os', z)
          })"

definition resolve_validity ::
  "('v, 'h, 's, 'i, 'k, 'x) ctx \<Rightarrow> 'v proposed_block \<Rightarrow> bool \<Rightarrow> timestamp \<Rightarrow> ('v, 'h, 's, 'i, 'k, 'x) zug \<Rightarrow>
     (('v, 'h, 's, 'i, 'k) outcome list \<times> ('v, 'h, 's, 'i, 'k, 'x) zug) option" where
  "resolve_validity cx pb valid now z =
     (let waiting = (case map_of (proposals_waiting_for_validation z) pb of None \<Rightarrow> [] | Some w \<Rightarrow> w);
          z = z\<lparr>proposals_waiting_for_validation :=
                AList.delete pb (proposals_waiting_for_validation z)\<rparr>
      in if valid
         then do {
           (os, z) \<leftarrow> emit_each
             (\<lambda>(r, hp, _) z. do {
                (inserted, z) \<leftarrow> add_proposal cx r hp z;
                Some (if inserted then [HandledProposedBlock pb] else [], z)
              })
             waiting z;
           (os', z) \<leftarrow> update cx now z;
           Some (os @ os', z)
         }
         else emit_each
           (\<lambda>(r, _, _) z. do { zug_leader cx z r; Some ([], z) }) waiting z)"

definition handle_update_timer ::
  "('v, 'h, 's, 'i, 'k, 'x) ctx \<Rightarrow> timestamp \<Rightarrow> timestamp \<Rightarrow> ('v, 'h, 's, 'i, 'k, 'x) zug \<Rightarrow>
     (('v, 'h, 's, 'i, 'k) outcome list \<times> ('v, 'h, 's, 'i, 'k, 'x) zug) option" where
  "handle_update_timer cx ts now z =
     (let z = (if next_scheduled_update z \<le> ts then z\<lparr>next_scheduled_update := u64_max\<rparr> else z)
      in update cx now (mark_dirty (current_round z) z))"

definition handle_is_current ::
  "timestamp \<Rightarrow> ('v, 'h, 's, 'i, 'k, 'x) zug \<Rightarrow> ('v, 'h, 's, 'i, 'k) outcome list" where
  "handle_is_current now z =
     (case sync_state_interval (config z) of
        None \<Rightarrow> []
      | Some interval \<Rightarrow>
          [ScheduleTimer (sat_add64 (max now (start_timestamp (params z))) interval) 0]) @
     (case log_participation_interval (config z) of
        None \<Rightarrow> []
      | Some interval \<Rightarrow>
          [ScheduleTimer (sat_add64 (max now (start_timestamp (params z))) interval) 2])"

definition deactivate_validator ::
  "('v, 'h, 's, 'i, 'k, 'x) zug \<Rightarrow> ('v, 'h, 's, 'i, 'k, 'x) zug" where
  "deactivate_validator z = z\<lparr>active_validator := None\<rparr>"

definition set_evidence_only ::
  "('v, 'h, 's, 'i, 'k, 'x) zug \<Rightarrow> ('v, 'h, 's, 'i, 'k, 'x) zug" where
  "set_evidence_only z =
     z\<lparr>evidence_only := True, rounds := [], proposals_waiting_for_parent := [],
       proposals_waiting_for_validation := []\<rparr>"

definition has_evidence :: "('v, 'h, 's, 'i, 'k, 'x) zug \<Rightarrow> 'k \<Rightarrow> bool" where
  "has_evidence z vid =
     (case Option.bind (get_index (validators z) vid) (map_of (faults z)) of
        None \<Rightarrow> False
      | Some fault \<Rightarrow> is_direct fault)"

definition mark_faulty ::
  "'k \<Rightarrow> ('v, 'h, 's, 'i, 'k, 'x) zug \<Rightarrow> ('v, 'h, 's, 'i, 'k, 'x) zug" where
  "mark_faulty vid z =
     (case get_index (validators z) vid of
        None \<Rightarrow> z
      | Some idx \<Rightarrow>
          if is_faulty z idx then z else z\<lparr>faults := AList.update idx Indirect (faults z)\<rparr>)"

definition send_evidence ::
  "node_id \<Rightarrow> 'k \<Rightarrow> ('v, 'h, 's, 'i, 'k, 'x) zug \<Rightarrow> ('v, 'h, 's, 'i, 'k) outcome list" where
  "send_evidence peer vid z =
     (case Option.bind (get_index (validators z) vid) (map_of (faults z)) of
        Some (Direct m content sg) \<Rightarrow> [CreatedTargetedMessage (Evidence m content sg) peer]
      | _ \<Rightarrow> [])"

definition set_paused ::
  "('v, 'h, 's, 'i, 'k, 'x) ctx \<Rightarrow> bool \<Rightarrow> timestamp \<Rightarrow> ('v, 'h, 's, 'i, 'k, 'x) zug \<Rightarrow>
     (('v, 'h, 's, 'i, 'k) outcome list \<times> ('v, 'h, 's, 'i, 'k, 'x) zug) option" where
  "set_paused cx pause now z =
     (if paused z \<and> \<not> pause
      then let z = z\<lparr>paused := pause, current_round_start := u64_max\<rparr>
           in update cx now (mark_dirty (current_round z) z)
      else Some ([], z\<lparr>paused := pause\<rparr>))"

definition validators_with_evidence :: "('v, 'h, 's, 'i, 'k, 'x) zug \<Rightarrow> 'k list" where
  "validators_with_evidence z =
     List.map_filter (id_at (validators z))
       (map fst (filter (\<lambda>(_, fault). is_direct fault) (faults z)))"

section \<open>Replaying the write-ahead log\<close>

text \<open>
  What the disk returns for the log file: whether it can be opened for reading, the entries it holds,
  whether reading ends with an error instead of the end of the file, and whether it can be opened for
  appending.
\<close>

record ('v, 'h, 'i, 's) wal_file =
  wf_readable :: bool
  wf_entries :: "('v, 'h, 'i, 's) wal_entry list"
  wf_read_error :: bool
  wf_appendable :: bool

text \<open>The walk to the ancestors of a recorded proposal: \<open>Some None\<close> if one is missing or unaccepted.\<close>

partial_function (option) wal_ancestors ::
  "('v, 'h, 's, 'i, 'k, 'x) zug \<Rightarrow> round_id \<Rightarrow> 'v list \<Rightarrow> 'v list option option" where
  "wal_ancestors z r acc =
     (case Option.bind (zround z r) proposal of
        None \<Rightarrow> Some None
      | Some hp \<Rightarrow>
          if Option.bind (zround z r) quorum_echoes \<noteq> Some (hp_hash hp) then Some None
          else
            let acc' = acc @ (case maybe_block hp of None \<Rightarrow> [] | Some b \<Rightarrow> [b])
            in case maybe_parent_round_id hp of
                 None \<Rightarrow> Some (Some acc')
               | Some q \<Rightarrow> wal_ancestors z q acc')"

declare wal_ancestors.simps [code]

definition keep_on_replay :: "('v, 'h, 's, 'i, 'k) outcome \<Rightarrow> bool" where
  "keep_on_replay oc =
     (case oc of
        FttExceeded \<Rightarrow> True
      | WeAreFaulty \<Rightarrow> True
      | FinalizedBlock _ \<Rightarrow> True
      | ValidateConsensusValue _ _ \<Rightarrow> True
      | HandledProposedBlock _ \<Rightarrow> True
      | NewEvidence _ \<Rightarrow> True
      | _ \<Rightarrow> False)"

text \<open>One entry: the outcomes, whether the replay goes on, and the state.\<close>

definition replay_entry ::
  "('v, 'h, 's, 'i, 'k, 'x) ctx \<Rightarrow> timestamp \<Rightarrow> ('v, 'h, 'i, 's) wal_entry \<Rightarrow> ('v, 'h, 's, 'i, 'k, 'x) zug \<Rightarrow>
     (('v, 'h, 's, 'i, 'k) outcome list \<times> bool \<times> ('v, 'h, 's, 'i, 'k, 'x) zug) option" where
  "replay_entry cx now e z =
     (case e of
        WalSignedMessage m \<Rightarrow>
          do { (added, z) \<leftarrow> add_content cx m z; Some ([], added, z) }
      | WalProposal p r \<Rightarrow>
          if map_option hp_inner (Option.bind (zround z r) proposal) = Some p then Some ([], True, z)
          else do {
            ancestors \<leftarrow> (case p_parent p of None \<Rightarrow> Some (Some []) | Some q \<Rightarrow> wal_ancestors z q []);
            case ancestors of
              None \<Rightarrow> Some ([], False, z)
            | Some vs \<Rightarrow>
                do {
                  (rd, z) \<leftarrow> round_mut cx r z;
                  let (inserted, rd') = insert_proposal (hashed_proposal_new cx p) rd;
                  let z = put_round r rd' z;
                  if inserted
                  then Some (case p_block p of
                               None \<Rightarrow> []
                             | Some block \<Rightarrow>
                                 [HandledProposedBlock
                                   \<lparr>pb_value = block,
                                    pb_context = \<lparr>bc_timestamp = p_timestamp p, bc_ancestor_values = vs\<rparr>\<rparr>],
                             True, mark_dirty r z)
                  else Some ([], True, z)
                }
          }
      | WalEvidence m content2 signature2 \<Rightarrow>
          (case id_at (validators z) (sm_validator_idx m) of
             None \<Rightarrow> Some ([], True, z)
           | Some validator_id \<Rightarrow>
               do {
                 (os, z) \<leftarrow> handle_fault_no_wal cx m validator_id content2 signature2 now z;
                 Some (filter keep_on_replay os, True, z)
               }))"

fun replay ::
  "('v, 'h, 's, 'i, 'k, 'x) ctx \<Rightarrow> timestamp \<Rightarrow> ('v, 'h, 'i, 's) wal_entry list \<Rightarrow> ('v, 'h, 's, 'i, 'k, 'x) zug \<Rightarrow>
     (('v, 'h, 's, 'i, 'k) outcome list \<times> bool \<times> ('v, 'h, 's, 'i, 'k, 'x) zug) option" where
  "replay cx now [] z = Some ([], True, z)"
| "replay cx now (e # es) z =
     do {
       (os, continue, z) \<leftarrow> replay_entry cx now e z;
       if continue
       then do { (os', finished, z) \<leftarrow> replay cx now es z; Some (os @ os', finished, z) }
       else Some (os, False, z)
     }"

definition open_wal ::
  "('v, 'h, 's, 'i, 'k, 'x) ctx \<Rightarrow> ('v, 'h, 'i, 's) wal_file \<Rightarrow> timestamp \<Rightarrow> ('v, 'h, 's, 'i, 'k, 'x) zug \<Rightarrow>
     (('v, 'h, 's, 'i, 'k) outcome list \<times> ('v, 'h, 's, 'i, 'k, 'x) zug) option" where
  "open_wal cx file now z =
     (if \<not> wf_readable file then Some ([], z)
      else do {
        (os, finished, z) \<leftarrow> replay cx now (wf_entries file) z;
        Some (os, if finished \<and> \<not> wf_read_error file \<and> wf_appendable file
                  then z\<lparr>write_wal := Some (wf_entries file)\<rparr> else z)
      })"

definition activate_validator ::
  "('v, 'h, 's, 'i, 'k, 'x) ctx \<Rightarrow> 'k \<Rightarrow> 'x \<Rightarrow> timestamp \<Rightarrow> ('v, 'h, 'i, 's) wal_file option \<Rightarrow>
     ('v, 'h, 's, 'i, 'k, 'x) zug \<Rightarrow>
     (('v, 'h, 's, 'i, 'k) outcome list \<times> ('v, 'h, 's, 'i, 'k, 'x) zug) option" where
  "activate_validator cx our_id secret now wal_path z =
     do {
       (os, z) \<leftarrow>
         (if write_wal z = None
          then (case wal_path of Some file \<Rightarrow> open_wal cx file now z | None \<Rightarrow> Some ([], z))
          else Some ([], z));
       if write_wal z = None then Some ([], z)
       else case get_index (validators z) our_id of
         None \<Rightarrow> Some (os, z)
       | Some idx \<Rightarrow>
           if is_faulty z idx then Some (os, z)
           else
             let z = z\<lparr>active_validator := Some \<lparr>av_idx = idx, av_secret = secret\<rparr>\<rparr>;
                 (os', z) = schedule_update (max (start_timestamp (params z)) now) z
             in Some (os @ os', z)
     }"

definition new_boxed ::
  "('v, 'h, 's, 'i, 'k, 'x) ctx \<Rightarrow> 'i \<Rightarrow> ('k::linorder \<times> nat) list \<Rightarrow> 'k list \<Rightarrow> 'k list \<Rightarrow>
     core_config \<Rightarrow> zug_config \<Rightarrow> rat option \<Rightarrow> timestamp \<Rightarrow> 64 word \<Rightarrow> timestamp \<Rightarrow>
     ('v, 'h, 'i, 's) wal_file \<Rightarrow>
     (('v, 'h, 's, 'i, 'k) outcome list \<times> ('v, 'h, 's, 'i, 'k, 'x) zug) option" where
  "new_boxed cx inst validator_stakes faulty inactive core cfg prev_timeout era_start_time seed now file =
     do {
       z \<leftarrow> zug_new inst validator_stakes faulty inactive core cfg prev_timeout era_start_time seed;
       open_wal cx file now z
     }"

end
