(* ===== verification/Zug_Events.thy ===== *)
theory Zug_Events
  imports Zug_Update Zug_Handlers
begin

text \<open>
  The handlers return without a panic from every state that satisfies the invariant, whatever a peer
  sends, and they are sequences of elementary steps.

  A handler with a \<open>Result\<close> either succeeds with outcomes that announce all it did, or reports the
  sender; in the second case its outcomes are lost, but not what it did to the state.
\<close>

section \<open>Signed messages and evidence\<close>

lemma find_echo_Some:
  assumes "find_echo h v es = Some (c, sg)" and "alist_ok es"
  shows "\<exists>h' m. c = Echo h' \<and> h' \<noteq> h \<and> map_of es h' = Some m \<and> map_of m v = Some sg"
  using assms
proof (induction h v es rule: find_echo.induct)
  case (2 h v h2 m es)
  show ?case
  proof (cases "h2 \<noteq> h \<and> map_of m v \<noteq> None")
    case True
    with "2.prems"(1) show ?thesis by auto
  next
    case False
    with "2.prems" "2.IH" obtain h' m' where
      h': "c = Echo h'" "h' \<noteq> h" "map_of es h' = Some m'" "map_of m' v = Some sg"
      by (auto simp: alist_ok_def split: if_splits option.splits)
    moreover have "h' \<noteq> h2"
      using map_of_alist_keys [OF h'(3)] "2.prems"(2) by (auto simp: alist_ok_def alist_keys_def)
    ultimately show ?thesis by auto
  qed
qed simp

lemma detect_fault_evidence:
  assumes inv: "zug_inv cx z" and m: "msg_valid cx (validators z) (instance_id (params z)) m"
  shows "\<exists>res. detect_fault z m = Some res \<and> (\<forall>c2 sg2. res = Some (c2, sg2) \<longrightarrow>
    evidence_valid cx (validators z) (instance_id (params z)) m c2 sg2)"
proof (cases "zround z (sm_round_id m)")
  case None
  then show ?thesis
    by (simp add: detect_fault_def)
next
  case (Some rd)
  let ?v = "sm_validator_idx m"
  note ri = zug_inv_round [OF inv Some]
  have inst: "sm_instance_id m = instance_id (params z)"
    using m by (simp add: msg_valid_def)
  have ev: "evidence_valid cx (validators z) (instance_id (params z)) m c2 sg2"
    if "holds rd c2 ?v sg2" "contradicts (sm_content m) c2" for c2 sg2
  proof -
    have "msg_valid cx (validators z) (instance_id (params z))
        (mk_msg (sm_round_id m) (instance_id (params z)) c2 ?v sg2)"
      using ri that(1) by (auto simp: round_inv_def)
    moreover have "sm_with m c2 sg2 = mk_msg (sm_round_id m) (instance_id (params z)) c2 ?v sg2"
      using inst by (cases m) (simp add: sm_with_def mk_msg_def)
    ultimately show ?thesis
      using m that(2) by (simp add: evidence_valid_def)
  qed
  show ?thesis
  proof (cases "sm_content m")
    case (Echo h)
    have "evidence_valid cx (validators z) (instance_id (params z)) m c2 sg2"
      if res: "find_echo h ?v (echoes rd) = Some (c2, sg2)" for c2 sg2
    proof -
      from find_echo_Some [OF res round_wf_echoes [OF round_inv_wf [OF ri]]] obtain h' em where
        "c2 = Echo h'" "h' \<noteq> h" "map_of (echoes rd) h' = Some em" "map_of em ?v = Some sg2"
        by blast
      with Echo show ?thesis by (intro ev) auto
    qed
    with Some Echo show ?thesis
      by (simp add: detect_fault_def)
  next
    case (Vote b)
    have "?v < length (votes rd (\<not> b))"
      using msg_valid_less [OF m] round_wf_votes [OF round_inv_wf [OF ri]] by simp
    with Some Vote show ?thesis
      by (auto simp: detect_fault_def vmap_get_def intro!: ev)
  qed
qed

lemma reaches_record_entry:
  assumes "reaches cx z0 os z" and "entry_valid cx (validators z) (instance_id (params z)) e"
  shows "reaches cx z0 os (snd (record_entry cx e z))"
  using calm_record_entry [OF calm_refl [OF assms(1)] assms(2)] by (simp add: calm_def)

lemma record_entry_static [simp]:
  "validators (snd (record_entry cx e z)) = validators z" "params (snd (record_entry cx e z)) = params z"
  by (simp_all add: record_entry_def split: option.split)

lemma reaches_handle_fault:
  assumes "reaches cx z0 os z"
    and "evidence_valid cx (validators z) (instance_id (params z)) m c2 sg2"
  shows "wp (handle_fault cx m k c2 sg2 now z) (\<lambda>(os', z'). reaches cx z0 (os @ os') z')"
  unfolding handle_fault_def using assms
  by (intro reaches_handle_fault_no_wal reaches_record_entry) simp_all

text \<open>The result of a handler that may report its sender.\<close>

definition handled ::
  "('v, 'h, 's, 'i, 'k, 'x) ctx \<Rightarrow> ('v, 'h, 's, 'i, 'k, 'x) zug \<Rightarrow> ('v, 'h, 's, 'i, 'k) outcome list \<Rightarrow>
     (node_id + ('v, 'h, 's, 'i, 'k) outcome list) \<times> ('v, 'h, 's, 'i, 'k, 'x) zug \<Rightarrow> bool" where
  "handled cx z0 os p =
     (case p of
        (Inl _, z') \<Rightarrow> \<exists>os'. reaches cx z0 (os @ os') z'
      | (Inr os', z') \<Rightarrow> reaches cx z0 (os @ os') z')"

lemma handled_Inl: "reaches cx z0 os z \<Longrightarrow> handled cx z0 os (Inl e, z)"
  unfolding handled_def by (auto intro: exI [of _ "[]"])

lemma handled_Inr [simp]: "handled cx z0 os (Inr os', z) \<longleftrightarrow> reaches cx z0 (os @ os') z"
  by (simp add: handled_def)

lemma handled_wp:
  "wp m (\<lambda>(os', z'). reaches cx z0 (os @ os') z') \<Longrightarrow>
    wp (Option.bind m (\<lambda>(os', z'). Some (Inr os', z'))) (handled cx z0 os)"
  by (rule wp_bind2) auto

lemma reaches_add_content:
  assumes re: "reaches cx z0 os z" and m: "msg_valid cx (validators z) (instance_id (params z)) m"
    and r: "sm_round_id m \<le> u32_max"
  shows "wp (add_content cx m z) (\<lambda>(b, z'). reaches cx z0 os z' \<and> (b \<longrightarrow> in_round z' m))"
  using calm_add_content [where own = False, OF calm_refl [OF re] m r]
  by (auto simp: gossip_if_def calm_def elim!: wp_mono)

lemma handled_handle_signed_message:
  assumes re: "reaches cx z0 os z"
  shows "wp (handle_signed_message cx m sender now z) (handled cx z0 os)"
proof -
  let ?v = "sm_validator_idx m"
  note inl = handled_Inl [OF re] and inv = reaches_inv [OF re]
  show ?thesis
  proof (cases "\<exists>k. id_at (validators z) ?v = Some k \<and> sm_instance_id m = instance_id (params z) \<and>
      \<not> is_faulty z ?v \<and> sm_round_id m \<le> sat_add32 (current_round z) 7200 \<and> \<not> evidence_only z \<and>
      verify_signature cx m k")
    case False
    have "\<exists>b. (case zround z (sm_round_id m) of None \<Rightarrow> Some False
        | Some rd \<Rightarrow> round_contains rd (sm_content m) ?v) = Some b" if "id_at (validators z) ?v = Some k" for k
      using zug_inv_round [OF inv, of "sm_round_id m"] id_at_SomeD [OF that]
      by (cases "zround z (sm_round_id m)") (auto simp: round_contains_iff dest: round_inv_wf)
    with False inl re show ?thesis
      unfolding handle_signed_message_def Let_def
      by (cases "id_at (validators z) ?v") (auto simp: not_le)
  next
    case True
    then obtain k where k: "id_at (validators z) ?v = Some k" "sm_instance_id m = instance_id (params z)"
      "\<not> is_faulty z ?v" "sm_round_id m \<le> sat_add32 (current_round z) 7200" "\<not> evidence_only z"
      "verify_signature cx m k"
      by blast
    have m: "msg_valid cx (validators z) (instance_id (params z)) m"
      using k by (auto simp: msg_valid_def)
    have r: "sm_round_id m \<le> u32_max"
      using k(4) sat_add32_le order_trans by blast
    obtain known where known: "(case zround z (sm_round_id m) of None \<Rightarrow> Some False
        | Some rd \<Rightarrow> round_contains rd (sm_content m) ?v) = Some known"
      using zug_inv_round [OF inv, of "sm_round_id m"] id_at_SomeD [OF k(1)]
      by (cases "zround z (sm_round_id m)") (auto simp: round_contains_iff dest: round_inv_wf)
    from detect_fault_evidence [OF inv m] obtain conflict where conflict: "detect_fault z m = Some conflict"
      and ev: "\<And>c2 sg2. conflict = Some (c2, sg2) \<Longrightarrow>
        evidence_valid cx (validators z) (instance_id (params z)) m c2 sg2"
      by blast
    show ?thesis
    proof (cases conflict)
      case (Some p)
      obtain c2 sg2 where p: "p = (c2, sg2)"
        by (cases p)
      have "evidence_valid cx (validators z) (instance_id (params z)) m c2 sg2"
        using ev Some p by simp
      from reaches_handle_fault [OF re this] obtain os1 z1 where
        "handle_fault cx m k c2 sg2 now z = Some (os1, z1)" "reaches cx z0 (os @ os1) z1"
        by (rule wpE2)
      with reaches_quiet [OF this(2), of "[CreatedGossipMessage (Evidence m c2 sg2)]"] show ?thesis
        using k conflict Some p known re by (simp add: handle_signed_message_def Let_def)
    next
      case None
      let ?z = "snd (record_entry cx (WalSignedMessage m) z)"
      have "reaches cx z0 os ?z" "msg_valid cx (validators ?z) (instance_id (params ?z)) m"
        using re m r by (auto intro: reaches_record_entry)
      from reaches_add_content [OF this r] obtain b z1 where
        z1: "add_content cx m ?z = Some (b, z1)" "reaches cx z0 os z1"
        by (rule wpE2) blast
      from reaches_update [OF z1(2)] obtain os2 z2 where
        z2: "update cx now z1 = Some (os2, z2)" "reaches cx z0 (os @ os2) z2"
        by (rule wpE2)
      show ?thesis
        using k conflict None known re z1 z2 by (simp add: handle_signed_message_def Let_def)
    qed
  qed
qed

lemma handled_handle_evidence:
  assumes re: "reaches cx z0 os z"
  shows "wp (handle_evidence cx m c2 sg2 sender now z) (handled cx z0 os)"
proof (cases "\<exists>k. id_at (validators z) (sm_validator_idx m) = Some k \<and> sm_instance_id m = instance_id (params z) \<and>
    contradicts (sm_content m) c2 \<and> verify_signature cx m k \<and> verify_signature cx (sm_with m c2 sg2) k")
  case False
  with handled_Inl [OF re] re show ?thesis
    unfolding handle_evidence_def Let_def
    by (cases "id_at (validators z) (sm_validator_idx m)") auto
next
  case True
  then obtain k where k: "id_at (validators z) (sm_validator_idx m) = Some k"
    "sm_instance_id m = instance_id (params z)" "contradicts (sm_content m) c2"
    "verify_signature cx m k" "verify_signature cx (sm_with m c2 sg2) k"
    by blast
  then have "evidence_valid cx (validators z) (instance_id (params z)) m c2 sg2"
    by (simp add: evidence_valid_def msg_valid_def sm_with_def)
  from reaches_handle_fault [OF re this] obtain os1 z1 where
    "handle_fault cx m k c2 sg2 now z = Some (os1, z1)" "reaches cx z0 (os @ os1) z1"
    by (rule wpE2)
  with k re show ?thesis
    by (simp add: handle_evidence_def Let_def)
qed

section \<open>Proposals\<close>

lemma set_alist_update:
  "p \<in> set (AList.update k v al) \<Longrightarrow> p = (k, v) \<or> p \<in> set al"
  by (induction al) (auto split: if_splits)

lemma waiting_parent_inv_insert:
  assumes w: "waiting_parent_inv cx w" and hp: "proposal_inv cx r hp" "r \<le> u32_max" "maybe_parent_round_id hp = Some q"
  shows "waiting_parent_inv cx (AList.update q
    (AList.update hp (List.insert (r, s) (case map_of (case map_of w q of None \<Rightarrow> [] | Some m \<Rightarrow> m) hp of
        None \<Rightarrow> [] | Some l \<Rightarrow> l)) (case map_of w q of None \<Rightarrow> [] | Some m \<Rightarrow> m)) w)"
  unfolding waiting_parent_inv_def
proof (intro allI impI)
  let ?m = "case map_of w q of None \<Rightarrow> [] | Some m \<Rightarrow> m"
  let ?l = "case map_of ?m hp of None \<Rightarrow> [] | Some l \<Rightarrow> l"
  fix q' m' hp' l' r' s'
  assume m': "map_of (AList.update q (AList.update hp (List.insert (r, s) ?l) ?m) w) q' = Some m'"
    and hp': "(hp', l') \<in> set m'" and r': "(r', s') \<in> set l'"
  have old: "proposal_inv cx r' hp'' \<and> r' \<le> u32_max \<and> maybe_parent_round_id hp'' = Some q''"
    if "map_of w q'' = Some m''" "(hp'', l'') \<in> set m''" "(r', s') \<in> set l''" for q'' m'' hp'' l''
    using w that unfolding waiting_parent_inv_def by blast
  show "proposal_inv cx r' hp' \<and> r' \<le> u32_max \<and> maybe_parent_round_id hp' = Some q'"
  proof (cases "q' = q")
    case False
    with m' hp' r' show ?thesis
      by (intro old) auto
  next
    case True
    with m' have "m' = AList.update hp (List.insert (r, s) ?l) ?m"
      by simp
    with hp' have "(hp', l') = (hp, List.insert (r, s) ?l) \<or> (hp', l') \<in> set ?m"
      by (intro set_alist_update) simp
    then show ?thesis
    proof
      assume new: "(hp', l') = (hp, List.insert (r, s) ?l)"
      show ?thesis
      proof (cases "r' = r")
        case True
        with new hp \<open>q' = q\<close> show ?thesis by simp
      next
        case False
        with new r' have "(r', s') \<in> set ?l"
          by auto
        then obtain m'' l'' where "map_of w q = Some m''" "map_of m'' hp = Some l''" "(r', s') \<in> set l''"
          by (cases "map_of w q"; cases "map_of ?m hp") auto
        then have "proposal_inv cx r' hp \<and> r' \<le> u32_max \<and> maybe_parent_round_id hp = Some q"
          by (intro old) (auto dest: map_of_SomeD)
        with new True show ?thesis by simp
      qed
    next
      assume "(hp', l') \<in> set ?m"
      then obtain m'' where "map_of w q = Some m''" "(hp', l') \<in> set m''"
        by (cases "map_of w q") auto
      with True r' show ?thesis
        by (auto dest: old)
    qed
  qed
qed

lemma handled_handle_proposal:
  assumes re: "reaches cx z0 os z"
  shows "wp (handle_proposal cx r p sender now z) (handled cx z0 os)"
proof -
  note inv = reaches_inv [OF re] and inl = handled_Inl [OF re]
  define hp where "hp = hashed_proposal_new cx p"
  obtain l where l: "zug_leader cx z r = Some l"
    using zug_leader_ok [OF inv] by blast
  show ?thesis
  proof (cases "(\<forall>q. p_parent p = Some q \<longrightarrow> q < r) \<and>
      (\<exists>rd. zround z r = Some rd \<and> has_echoes_for_proposal rd (hp_hash hp))")
    case False
    with re inl l show ?thesis
      by (auto simp: handle_proposal_def Let_def not_less split: option.split simp flip: hp_def)
  next
    case True
    then obtain rd where rd: "zround z r = Some rd" "has_echoes_for_proposal rd (hp_hash hp)"
      and parent: "\<And>q. p_parent p = Some q \<Longrightarrow> q < r"
      by blast
    have r: "r \<le> u32_max"
      using zug_inv_round [OF inv rd(1)] by (simp add: round_inv_def)
    have hp: "proposal_inv cx r hp"
      using parent by (simp add: proposal_inv_def hp_def hashed_proposal_new_def)
    have store: "reaches cx z0 os (store_for_later q hp r sender z)" if "maybe_parent_round_id hp = Some q" for q
    proof -
      have "waiting_parent_inv cx (proposals_waiting_for_parent z)"
        using inv by (simp add: zug_inv_def)
      from waiting_parent_inv_insert [OF this hp r that, of sender] show ?thesis
        unfolding store_for_later_def Let_def by (rule reaches_micro [OF re mi_waiting_parent])
    qed
    obtain ancestors where ancestors: "(case maybe_parent_round_id hp of None \<Rightarrow> Some (Some [])
        | Some q \<Rightarrow> ancestor_values z q) = Some ancestors"
    proof (cases "maybe_parent_round_id hp")
      case (Some q)
      then show ?thesis
        using ancestor_values_returns [OF inv, of q] that by auto
    qed simp
    have go: "wp (do {
        (os, z) \<leftarrow> validate_proposal cx r hp vs sender z;
        (os', z) \<leftarrow> update cx now z;
        Some (Inr (os @ os'), z)
      }) (handled cx z0 os)" for vs
    proof -
      from calm_validate_proposal [OF calm_refl [OF re] r hp] obtain os1 z1 where
        1: "validate_proposal cx r hp vs sender z = Some (os1, z1)" "calm cx z0 (os @ os1) z z1"
        by (rule wpE2)
      then have "reaches cx z0 (os @ os1) z1"
        by (simp add: calm_def)
      from reaches_update [OF this] obtain os2 z2 where
        "update cx now z1 = Some (os2, z2)" "reaches cx z0 ((os @ os1) @ os2) z2"
        by (rule wpE2)
      with 1 show ?thesis by simp
    qed
    have eq: "maybe_parent_round_id hp = p_parent p"
      by (simp add: hp_def hashed_proposal_new_def)
    show ?thesis
    proof (cases ancestors)
      case None
      then show ?thesis
        using re inl l rd ancestors store eq
        by (cases "p_parent p") (auto simp: handle_proposal_def Let_def simp flip: hp_def)
    next
      case (Some vs)
      then show ?thesis
        using re inl l rd ancestors go [of vs] eq
        by (auto simp: handle_proposal_def Let_def simp flip: hp_def)
    qed
  qed
qed

section \<open>Sync responses and messages\<close>

lemma handled_map_sum:
  "handled cx z0 (os @ os') (r, z) \<Longrightarrow> handled cx z0 os (map_sum id (\<lambda>os''. os' @ os'') r, z)"
  by (cases r) (auto simp: handled_def)

lemma handled_try_then:
  assumes "wp m (handled cx z0 os)"
    and "\<And>os' z'. reaches cx z0 (os @ os') z' \<Longrightarrow> wp (f z') (handled cx z0 (os @ os'))"
  shows "wp (try_then m f) (handled cx z0 os)"
  using assms(1)
proof (rule wpE)
  fix p
  assume m: "m = Some p" and p: "handled cx z0 os p"
  obtain r z where rz: "p = (r, z)"
    by (cases p)
  show ?thesis
  proof (cases r)
    case (Inl e)
    with m p rz show ?thesis
      by (simp add: try_then_def handled_def)
  next
    case (Inr os')
    with p rz have "wp (f z) (handled cx z0 (os @ os'))"
      by (intro assms(2)) simp
    then obtain p' where "f z = Some p'" "handled cx z0 (os @ os') p'"
      by (rule wpE)
    with m rz Inr show ?thesis
      by (cases p') (auto simp: try_then_def intro: handled_map_sum)
  qed
qed

lemma try_each_Cons: "try_each f (x # xs) z = try_then (f x z) (try_each f xs)"
  by (simp add: try_then_def)

lemma handled_try_each:
  assumes "reaches cx z0 os z" and "\<And>x os z. reaches cx z0 os z \<Longrightarrow> wp (f x z) (handled cx z0 os)"
  shows "wp (try_each f xs z) (handled cx z0 os)"
  using assms(1)
proof (induction xs arbitrary: os z)
  case (Cons x xs)
  show ?case
    unfolding try_each_Cons using assms(2) [OF Cons.prems] Cons.IH by (rule handled_try_then)
qed simp

text \<open>What an entry point answers: the outcomes of what it did, or only that the sender is at fault.\<close>

definition answered ::
  "('v, 'h, 's, 'i, 'k, 'x) ctx \<Rightarrow> ('v, 'h, 's, 'i, 'k, 'x) zug \<Rightarrow>
     ('v, 'h, 's, 'i, 'k) outcome list \<times> ('v, 'h, 's, 'i, 'k, 'x) zug \<Rightarrow> bool" where
  "answered cx z0 p =
     (case p of (os, z) \<Rightarrow> \<exists>os'. reaches cx z0 os' z \<and> (os = os' \<or> (\<exists>s. os = [Disconnect s])))"

lemma answered_reaches: "reaches cx z0 os z \<Longrightarrow> answered cx z0 (os, z)"
  by (auto simp: answered_def)

lemma answered_disconnect: "reaches cx z0 [] z \<Longrightarrow> answered cx z0 ([Disconnect s], z)"
  by (auto simp: answered_def)

lemma answered_handled:
  "wp m (handled cx z0 []) \<Longrightarrow> wp (map_option outcomes_or_disconnect m) (answered cx z0)"
proof (erule wpE)
  fix p
  assume "m = Some p" and "handled cx z0 [] p"
  then show ?thesis
    by (cases p; cases "fst p") (auto simp: handled_def answered_def outcomes_or_disconnect_def)
qed

lemma answered_handle_sync_response:
  assumes inv: "zug_inv cx z"
  shows "wp (handle_sync_response cx resp sender now z) (answered cx z)"
proof -
  let ?z = "snd (try_remove_id (rs_sync_id resp) z)"
  have re: "reaches cx z [] ?z"
    unfolding try_remove_id_def by (auto intro: reaches_micro [OF reaches_refl [OF inv]] mi_sync_requests)
  have body: "wp (map_option outcomes_or_disconnect
       (try_then
         (try_then
           (try_each (\<lambda>m. handle_signed_message cx m sender now) ms ?z)
           (try_each (\<lambda>(m, content2, signature2). handle_evidence cx m content2 signature2 sender now)
             (rs_evidence resp)))
         (\<lambda>z. case maybe_prop of
                None \<Rightarrow> Some (Inr [], z)
              | Some p \<Rightarrow> handle_proposal cx (rs_round_id resp) p sender now z)))
    (answered cx z)" for ms maybe_prop
  proof (intro answered_handled handled_try_then handled_try_each)
    fix x os z'
    assume "reaches cx z os z'"
    then show "wp ((case x of (m, content2, signature2) \<Rightarrow>
        handle_evidence cx m content2 signature2 sender now) z') (handled cx z os)"
      by (cases x) (auto intro: handled_handle_evidence)
  next
    fix os z'
    assume "reaches cx z ([] @ os) z'"
    then show "wp (case maybe_prop of None \<Rightarrow> Some (Inr [], z')
        | Some p \<Rightarrow> handle_proposal cx (rs_round_id resp) p sender now z') (handled cx z ([] @ os))"
      by (auto split: option.split intro: handled_handle_proposal)
  qed (use re in \<open>auto intro: handled_handle_signed_message\<close>)
  show ?thesis
    using answered_disconnect [OF re] body
    by (simp add: handle_sync_response_def Let_def case_prod_unfold)
qed

lemma answered_handle_message:
  assumes inv: "zug_inv cx z"
  shows "wp (handle_message cx sender msg now z) (answered cx z)"
proof -
  note re = reaches_refl [OF inv]
  have proposal_msg: "wp (map_option outcomes_or_disconnect
      (try_then (handle_signed_message cx echo sender now z) (handle_proposal cx r p sender now))) (answered cx z)"
    for echo r p
    by (intro answered_handled handled_try_then handled_handle_signed_message handled_handle_proposal re)
  have signed_msg: "wp (map_option outcomes_or_disconnect (handle_signed_message cx m sender now z)) (answered cx z)" for m
    by (intro answered_handled handled_handle_signed_message re)
  have evidence: "wp (map_option outcomes_or_disconnect (handle_evidence cx m c2 sg2 sender now z)) (answered cx z)"
    for m c2 sg2
    by (intro answered_handled handled_handle_evidence re)
  show ?thesis
    using answered_disconnect [OF re] answered_handle_sync_response [OF inv] proposal_msg signed_msg evidence
    by (auto simp: handle_message_def split: option.split message.split)
qed

section \<open>Proposing and validation\<close>

lemma reaches_propose:
  assumes inv: "zug_inv cx z"
  shows "wp (propose cx pb now z) (\<lambda>(os, z'). reaches cx z os z')"
proof (cases "pending_proposal z")
  case None
  with reaches_refl [OF inv] show ?thesis
    by (simp add: propose_def)
next
  case (Some p)
  obtain c r maybe_parent where p: "p = (c, r, maybe_parent)"
    by (cases p)
  note re = reaches_refl [OF inv]
  show ?thesis
  proof (cases "c \<noteq> pb_context pb \<or> r \<noteq> current_round z")
    case True
    with Some p re show ?thesis
      by (simp add: propose_def)
  next
    case False
    let ?z = "z\<lparr>pending_proposal := None\<rparr>"
    let ?ids = "map fst (enumerate_ids (validators z))"
    let ?inactive = "filter (\<lambda>idx. active z ! idx = None \<and> \<not> is_faulty ?z idx) ?ids"
    have "calm cx z [] z ?z"
      by (rule calm_pending [OF calm_refl [OF re]]) (simp add: pending_inv_def)
    moreover have "q < current_round ?z"
      if "maybe_parent_round_id (hashed_proposal_new cx (proposal_with_block pb maybe_parent ?inactive)) = Some q" for q
    proof -
      have "maybe_parent = Some q"
        using that by (simp add: hashed_proposal_new_def proposal_with_block_def)
      then show ?thesis
        using inv Some p False by (simp add: zug_inv_def pending_inv_def)
    qed
    ultimately have "wp (create_echo_and_proposal cx (proposal_with_block pb maybe_parent ?inactive) ?z)
        (\<lambda>(os', z'). calm cx z ([] @ os') z z')"
      by (rule calm_create_echo_and_proposal)
    then obtain os1 z1 where
      1: "create_echo_and_proposal cx (proposal_with_block pb maybe_parent ?inactive) ?z = Some (os1, z1)"
        "reaches cx z os1 z1"
      by (rule wpE2) (simp add: calm_def)
    from reaches_update [OF 1(2)] obtain os2 z2 where
      2: "update cx now z1 = Some (os2, z2)" "reaches cx z (os1 @ os2) z2"
      by (rule wpE2)
    have "list_all (\<lambda>idx. idx < length (active z)) ?ids"
      using zug_invD(5) [OF inv]
      unfolding enumerate_ids_fst [OF validators_wf_len [OF zug_inv_validators_wf [OF inv]]]
      by (simp add: active_inv_def list_all_iff)
    with Some p False 1(1) 2 show ?thesis
      by (simp add: propose_def Let_def)
  qed
qed

lemma reaches_resolve_validity:
  assumes inv: "zug_inv cx z"
  shows "wp (resolve_validity cx pb valid now z) (\<lambda>(os, z'). reaches cx z os z')"
proof -
  let ?w = "case map_of (proposals_waiting_for_validation z) pb of None \<Rightarrow> [] | Some w \<Rightarrow> w"
  let ?z = "z\<lparr>proposals_waiting_for_validation := AList.delete pb (proposals_waiting_for_validation z)\<rparr>"
  have w: "waiting_validation_inv cx (proposals_waiting_for_validation z)"
    using inv by (simp add: zug_inv_def)
  then have "waiting_validation_inv cx (AList.delete pb (proposals_waiting_for_validation z))"
    unfolding waiting_validation_inv_def by (simp add: AList.delete_conv')
  then have re: "reaches cx z [] ?z"
    by (rule reaches_micro [OF reaches_refl [OF inv] mi_waiting_validation])
  have ok: "proposal_inv cx r hp \<and> r \<le> u32_max" if "(r, hp, s) \<in> set ?w" for r hp s
  proof (cases "map_of (proposals_waiting_for_validation z) pb")
    case (Some l)
    with that w show ?thesis
      unfolding waiting_validation_inv_def by (metis option.case(2))
  qed (use that in simp)
  have leaders: "wp (emit_each (\<lambda>(r, _, _) z. do { zug_leader cx z r; Some ([], z) }) ?w ?z)
      (\<lambda>(os, z'). reaches cx z os z')"
  proof (rule wp_emit_each [where I = "reaches cx z", OF re])
    fix x os z'
    assume "reaches cx z os z'"
    then show "wp ((case x of (r, _, _) \<Rightarrow> \<lambda>z. do { zug_leader cx z r; Some ([], z) }) z')
        (\<lambda>(os', s'). reaches cx z (os @ os') s')"
      using zug_leader_ok [OF reaches_inv, of cx z os z' "fst x"] by (auto split: prod.split)
  qed
  have "wp (emit_each (\<lambda>(r, hp, _) z. do {
        (inserted, z) \<leftarrow> add_proposal cx r hp z;
        Some (if inserted then [HandledProposedBlock pb] else [], z)
      }) ?w ?z) (\<lambda>(os, z'). reaches cx z os z')"
  proof (rule wp_emit_each [where I = "reaches cx z", OF re])
    fix x os z'
    assume x: "x \<in> set ?w" and re': "reaches cx z os z'"
    obtain r hp s where xs: "x = (r, hp, s)"
      by (cases x)
    with ok x have "proposal_inv cx r hp" "r \<le> u32_max"
      by blast+
    from calm_add_proposal [OF calm_refl [OF re'] this(2,1)] obtain b z1 where
      "add_proposal cx r hp z' = Some (b, z1)" "reaches cx z os z1"
      by (rule wpE2) (simp add: calm_def)
    with reaches_quiet [OF this(2), of "[HandledProposedBlock pb]"] xs
    show "wp ((case x of (r, hp, _) \<Rightarrow> \<lambda>z. do {
          (inserted, z) \<leftarrow> add_proposal cx r hp z;
          Some (if inserted then [HandledProposedBlock pb] else [], z)
        }) z') (\<lambda>(os', s'). reaches cx z (os @ os') s')"
      by simp
  qed
  then obtain os1 z1 where
    1: "emit_each (\<lambda>(r, hp, _) z. do {
        (inserted, z) \<leftarrow> add_proposal cx r hp z;
        Some (if inserted then [HandledProposedBlock pb] else [], z)
      }) ?w ?z = Some (os1, z1)" "reaches cx z os1 z1"
    by (rule wpE2)
  from reaches_update [OF 1(2)] obtain os2 z2 where
    2: "update cx now z1 = Some (os2, z2)" "reaches cx z (os1 @ os2) z2"
    by (rule wpE2)
  show ?thesis
    using leaders 1(1) 2 by (simp add: resolve_validity_def Let_def)
qed

end
