(* ===== verification/Zug_Control.thy ===== *)
theory Zug_Control
  imports Zug_Events
begin

text \<open>
  Timers, the calls of the era supervisor and sync requests. The calls that change the state are
  sequences of elementary steps. Answering a sync request never panics, whatever bit fields the peer
  sends, and a response holds only valid signatures and evidence; its votes are exactly those the
  peer is missing.
\<close>

section \<open>Timers and calls\<close>

lemma reaches_mark_dirty: "reaches cx z0 os z \<Longrightarrow> reaches cx z0 os (mark_dirty r z)"
  using calm_mark_dirty [OF calm_refl] unfolding calm_def by blast

lemma reaches_handle_update_timer:
  assumes inv: "zug_inv cx z"
  shows "wp (handle_update_timer cx ts now z) (\<lambda>(os, z'). reaches cx z os z')"
proof -
  let ?z = "if next_scheduled_update z \<le> ts then z\<lparr>next_scheduled_update := u64_max\<rparr> else z"
  have "reaches cx z [] ?z"
    using reaches_refl [OF inv] reaches_micro [OF reaches_refl [OF inv] mi_schedule] by simp
  from reaches_update [OF reaches_mark_dirty [OF this]] show ?thesis
    unfolding handle_update_timer_def Let_def by simp
qed

lemma reaches_set_paused:
  assumes inv: "zug_inv cx z"
  shows "wp (set_paused cx b now z) (\<lambda>(os, z'). reaches cx z os z')"
proof -
  have 1: "reaches cx z [] (z\<lparr>paused := b\<rparr>)"
    by (rule reaches_micro [OF reaches_refl [OF inv] mi_paused])
  from reaches_update [OF reaches_mark_dirty [OF reaches_micro [OF 1 mi_round_start]]]
  have 2: "wp (update cx now (mark_dirty r (z\<lparr>paused := b, current_round_start := ts\<rparr>)))
      (\<lambda>(os, z'). reaches cx z os z')" for r ts
    by simp
  show ?thesis
    unfolding set_paused_def Let_def using 1 2 by (cases b) simp_all
qed

lemma reaches_mark_faulty:
  assumes inv: "zug_inv cx z"
  shows "reaches cx z [] (mark_faulty vid z)"
proof (cases "\<exists>idx. get_index (validators z) vid = Some idx \<and> \<not> is_faulty z idx")
  case True
  then obtain idx where idx: "get_index (validators z) vid = Some idx" "\<not> is_faulty z idx"
    by blast
  then have "micro cx z [] [] (z\<lparr>faults := AList.update idx Indirect (faults z)\<rparr>)"
    using get_index_less [OF zug_inv_validators_wf [OF inv]] by (intro mi_mark_faulty) (auto simp: is_faulty_iff)
  with idx reaches_micro [OF reaches_refl [OF inv]] show ?thesis
    by (simp add: mark_faulty_def)
next
  case False
  then have "mark_faulty vid z = z"
    by (auto simp: mark_faulty_def split: option.split)
  with reaches_refl [OF inv] show ?thesis by simp
qed

lemma reaches_deactivate_validator:
  "zug_inv cx z \<Longrightarrow> reaches cx z [] (deactivate_validator z)"
  unfolding deactivate_validator_def by (rule reaches_micro [OF reaches_refl mi_deactivate])

lemma reaches_set_evidence_only:
  "zug_inv cx z \<Longrightarrow> reaches cx z [] (set_evidence_only z)"
  unfolding set_evidence_only_def by (rule reaches_micro [OF reaches_refl mi_evidence_only])

text \<open>The generator eventually draws an ID that is not in use.\<close>

definition draws_fresh :: "timestamp \<Rightarrow> nat list \<Rightarrow> ('v, 'h, 's, 'i, 'k, 'x) zug \<Rightarrow> bool" where
  "draws_fresh sys_now draws z \<longleftrightarrow>
     list_ex (\<lambda>d. map_of (prune_old sys_now (sent_sync_requests z)) d = None) draws"

lemma fresh_id_Some: "list_ex (\<lambda>d. map_of ids d = None) draws \<Longrightarrow> \<exists>d. fresh_id ids draws = Some d \<and> map_of ids d = None"
  by (induction draws) auto

lemma reaches_create_and_register_new_id:
  assumes "reaches cx z0 os z" and "draws_fresh sys_now draws z"
  shows "wp (create_and_register_new_id sys_now draws z) (\<lambda>(d, z'). reaches cx z0 os z')"
proof -
  obtain d where "fresh_id (prune_old sys_now (sent_sync_requests z)) draws = Some d"
    using fresh_id_Some assms(2) unfolding draws_fresh_def by blast
  then show ?thesis
    using reaches_micro [OF assms(1) mi_sync_requests] by (simp add: create_and_register_new_id_def Let_def)
qed

lemma heaviest_hash_returns:
  assumes "validators_wf (validators z)"
    and "\<And>h m. (h, m) \<in> set es \<Longrightarrow> distinct (map fst m) \<and> set (map fst m) \<subseteq> {..<nvals z}"
  shows "\<exists>h. heaviest_hash z es best = Some h"
  using assms(2)
proof (induction es arbitrary: best)
  case (Cons e es)
  obtain h m where e: "e = (h, m)"
    by (cases e)
  have "distinct (map fst m)" "set (map fst m) \<subseteq> {..<nvals z}"
    using Cons.prems [of h m] e by simp_all
  from sum_weights_exact [OF assms(1) this] obtain w where "sum_weights (validators z) (map fst m) = Some w"
    by (rule wpE)
  moreover have "\<exists>h. heaviest_hash z es best' = Some h" for best'
    using Cons.prems by (intro Cons.IH) auto
  ultimately show ?case
    using e by simp
qed simp

lemma reaches_create_sync_request:
  assumes inv: "zug_inv cx z" and draws: "draws_fresh sys_now draws z"
  shows "wp (create_sync_request sys_now draws first r z) (\<lambda>(req, z'). reaches cx z [] z')"
proof -
  from reaches_create_and_register_new_id [OF reaches_refl [OF inv] draws] obtain d z' where
    d: "create_and_register_new_id sys_now draws z = Some (d, z')" "reaches cx z [] z'"
    by (rule wpE2)
  show ?thesis
  proof (cases "zround z r")
    case None
    with d show ?thesis by (simp add: create_sync_request_def Let_def)
  next
    case (Some rd)
    note wf = round_inv_wf [OF zug_inv_round [OF inv Some]]
    have "distinct (map fst m) \<and> set (map fst m) \<subseteq> {..<nvals z}" if "(h, m) \<in> set (echoes rd)" for h m
      using round_wf_echo_map [OF wf, of h m] that round_wf_echoes [OF wf]
      by (simp add: alist_ok_def alist_keys_def)
    then have "\<exists>h. heaviest_hash z (echoes rd) None = Some h"
      by (intro heaviest_hash_returns [OF zug_inv_validators_wf [OF inv]]) blast
    with d Some show ?thesis
      by (cases "quorum_echoes rd") (auto simp: create_sync_request_def Let_def)
  qed
qed

lemma reaches_handle_sync_peer_timer:
  assumes inv: "zug_inv cx z" and draws: "draws_fresh sys_now draws z"
  shows "wp (handle_sync_peer_timer now sys_now idx_draw round_draw draws z) (\<lambda>(os, z'). reaches cx z os z')"
proof -
  have "0 < nvals z"
    using static_leader [OF zug_invD(2) [OF inv], of 0] by auto
  then have pos: "0 < count_u32 z"
    using validators_wf_len [OF zug_inv_validators_wf [OF inv]] by (simp add: count_u32_def as_u32_def)
  from reaches_create_sync_request [OF inv draws] obtain req z' where
    "create_sync_request sys_now draws (idx_draw mod count_u32 z)
      (if first_non_finalized_round_id z \<le> round_draw \<and> round_draw \<le> current_round z
       then round_draw else current_round z) z = Some (req, z')" "reaches cx z [] z'"
    by (rule wpE2)
  moreover from reaches_quiet [OF this(2)] have "reaches cx z (CreatedRequestToRandomValidator req #
      (case sync_state_interval (config z') of None \<Rightarrow> [] | Some i \<Rightarrow> [ScheduleTimer (sat_add64 now i) 0])) z'"
    by (simp split: option.split)
  ultimately show ?thesis
    using pos reaches_refl [OF inv] by (simp add: handle_sync_peer_timer_def Let_def)
qed

section \<open>Responding to sync requests\<close>

lemma lookup_all_Some:
  "(\<And>x. x \<in> set xs \<Longrightarrow> f x \<noteq> None) \<Longrightarrow> lookup_all f xs = Some (map (\<lambda>x. (x, the (f x))) xs)"
proof (induction xs)
  case (Cons x xs)
  then obtain y where "f x = Some y"
    by fastforce
  with Cons show ?case by simp
qed simp

lemma count_u32_nvals: "zug_inv cx z \<Longrightarrow> count_u32 z = nvals z"
  using validators_wf_len [OF zug_inv_validators_wf] by (fastforce simp: count_u32_def as_u32_def)

lemma map_of_fold_update:
  "map_of (fold (\<lambda>(k, v). AList.update k v) kvs m) = map_of (rev kvs @ m)"
  by (induction kvs arbitrary: m) (auto simp: fun_eq_iff map_add_def split: option.split)

lemma alist_ok_fold_update: "alist_ok m \<Longrightarrow> alist_ok (fold (\<lambda>(k, v). AList.update k v) kvs m)"
  by (induction kvs arbitrary: m) auto

lemma set_alist_ok: "alist_ok m \<Longrightarrow> set m = {(k, v). map_of m k = Some v}"
  by (auto simp: alist_ok_def)

lemma set_collect_btree:
  assumes "\<And>k v v'. (k, v) \<in> set kvs \<Longrightarrow> (k, v') \<in> set kvs \<Longrightarrow> v = v'"
  shows "set (collect_btree kvs) = set kvs"
proof -
  have "map_of (rev kvs) k = Some v \<longleftrightarrow> (k, v) \<in> set kvs" for k v
  proof
    assume "map_of (rev kvs) k = Some v"
    then show "(k, v) \<in> set kvs"
      by (auto dest: map_of_SomeD)
  next
    assume kv: "(k, v) \<in> set kvs"
    then obtain v' where "map_of (rev kvs) k = Some v'"
      by (cases "map_of (rev kvs) k") (auto simp: map_of_eq_None_iff image_iff)
    moreover from this have "(k, v') \<in> set kvs"
      by (auto dest: map_of_SomeD)
    ultimately show "map_of (rev kvs) k = Some v"
      using assms kv by blast
  qed
  moreover have "alist_ok (fold (\<lambda>(k, v). AList.update k v) kvs [])"
    by (rule alist_ok_fold_update) (simp add: alist_ok_def)
  ultimately show ?thesis
    by (simp add: collect_btree_def set_alist_ok map_of_fold_update)
qed

lemma masked_subset:
  assumes "first < n" and "n < 2 ^ 32" and "set vs \<subseteq> {..<n}"
  shows "set (iter_validator_bit_field n first (validator_bit_field n first vs AND w)) \<subseteq> set vs"
  using set_iter_masked [OF assms, of w] by auto

lemma bit_NOT_OR: "i < 128 \<Longrightarrow> bit (NOT (a OR b) :: 128 word) i \<longleftrightarrow> \<not> bit a i \<and> \<not> bit b i"
  by (simp add: bit_simps)

text \<open>The votes sent to a peer are exactly those in the requested window that it does not have.\<close>

lemma sync_votes_spec:
  assumes inv: "zug_inv cx z" and rd: "zround z r = Some rd" and first: "first < nvals z"
  shows "wp (sync_votes z rd first b vote_bits faulty_bits) (\<lambda>(sigs, our_bits).
    set sigs = {(v, sg). holds rd (Vote b) v sg \<and> quorum_votes rd \<noteq> Some (\<not> b) \<and>
      validator_bit_field_includes (nvals z) first v \<and>
      \<not> bit vote_bits (bit_index (nvals z) first v) \<and> \<not> bit faulty_bits (bit_index (nvals z) first v)})"
proof (cases "quorum_votes rd = Some (\<not> b)")
  case True
  have "iter_validator_bit_field (nvals z) first 0 = []"
    using iter_validator_bit_field_eq [of "nvals z" first 0] first
      validators_wf_len [OF zug_inv_validators_wf [OF inv]] by simp
  with True show ?thesis
    by (simp add: sync_votes_def count_u32_nvals [OF inv] collect_btree_def)
next
  case False
  note wf = round_inv_wf [OF zug_inv_round [OF inv rd]]
  let ?n = "nvals z" and ?vs = "keys_some (votes rd b)"
  let ?it = "iter_validator_bit_field ?n first (validator_bit_field ?n first ?vs AND NOT (vote_bits OR faulty_bits))"
  have n: "?n < 2 ^ 32"
    by (rule validators_wf_len [OF zug_inv_validators_wf [OF inv]])
  have len: "length (votes rd b) = ?n"
    by (rule round_wf_votes [OF wf])
  have vs: "set ?vs = {v. v < ?n \<and> votes rd b ! v \<noteq> None}"
    using set_keys_some [of "votes rd b"] len n by simp
  then have sub: "set ?vs \<subseteq> {..<?n}"
    by auto
  have it: "set ?it = {v \<in> set ?vs. bit_index ?n first v < 128 \<and>
      \<not> bit vote_bits (bit_index ?n first v) \<and> \<not> bit faulty_bits (bit_index ?n first v)}"
    unfolding set_iter_masked [OF first n sub] using bit_NOT_OR by blast
  have "vote_sig rd b v \<noteq> None" if "v \<in> set ?it" for v
    using that it vs len by (auto simp: vote_sig_def vmap_get_def)
  then have look: "lookup_all (vote_sig rd b) ?it = Some (map (\<lambda>v. (v, the (vote_sig rd b v))) ?it)"
    by (rule lookup_all_Some)
  have inc: "validator_bit_field_includes ?n first v \<longleftrightarrow> bit_index ?n first v < 128" if "v < ?n" for v
    by (rule validator_bit_field_includes_iff [OF first n that])
  have "set (collect_btree (map (\<lambda>v. (v, the (vote_sig rd b v))) ?it)) = (\<lambda>v. (v, the (vote_sig rd b v))) ` set ?it"
    by (subst set_collect_btree) auto
  also have "\<dots> = {(v, sg). holds rd (Vote b) v sg \<and>
      validator_bit_field_includes ?n first v \<and>
      \<not> bit vote_bits (bit_index ?n first v) \<and> \<not> bit faulty_bits (bit_index ?n first v)}"
    unfolding it using vs len inc by (auto simp: vote_sig_def vmap_get_def image_iff)
  finally show ?thesis
    using False look by (simp add: sync_votes_def count_u32_nvals [OF inv] Let_def)
qed

lemma sync_echoes_spec:
  assumes inv: "zug_inv cx z" and rd: "zround z r = Some rd" and first: "first < nvals z"
  shows "wp (sync_echoes z rd first proposal_hash has_prop echo_bits faulty_bits) (\<lambda>(prop_or_hash, sigs, our_bits).
    (sigs \<noteq> [] \<longrightarrow> proposal_hash \<noteq> None) \<and>
    (\<forall>h v sg. proposal_hash = Some h \<longrightarrow> (v, sg) \<in> set sigs \<longrightarrow> holds rd (Echo h) v sg) \<and>
    (case prop_or_hash of
       None \<Rightarrow> True
     | Some (Inr h) \<Rightarrow> proposal_hash = Some h
     | Some (Inl p) \<Rightarrow> \<exists>hp. proposal rd = Some hp \<and> p = hp_inner hp \<and> proposal_hash = Some (hp_hash hp)))"
proof (cases "Option.bind proposal_hash (map_of (echoes rd))")
  case None
  then show ?thesis
    by (cases proposal_hash) (auto simp: sync_echoes_def)
next
  case (Some em)
  then obtain h where h: "proposal_hash = Some h" "map_of (echoes rd) h = Some em"
    by (cases proposal_hash) auto
  note wf = round_inv_wf [OF zug_inv_round [OF inv rd]]
  let ?n = "nvals z"
  let ?it = "iter_validator_bit_field ?n first
    (validator_bit_field ?n first (map fst em) AND NOT (echo_bits OR faulty_bits))"
  have n: "?n < 2 ^ 32"
    by (rule validators_wf_len [OF zug_inv_validators_wf [OF inv]])
  have "set ?it \<subseteq> set (map fst em)"
    by (rule masked_subset [OF first n]) (use round_wf_echo_map [OF wf h(2)] in \<open>simp add: alist_keys_def\<close>)
  then have ne: "map_of em v \<noteq> None" if "v \<in> set ?it" for v
    using that by (auto simp: map_of_eq_None_iff)
  define sigs where "sigs = map (\<lambda>v. (v, the (map_of em v))) ?it"
  define lead where "lead = (if validator_bit_field_includes ?n first (leader_idx rd) then []
    else case map_of em (leader_idx rd) of None \<Rightarrow> [] | Some sg \<Rightarrow> [(leader_idx rd, sg)])"
  have look: "lookup_all (map_of em) ?it = Some sigs"
    unfolding sigs_def using ne by (rule lookup_all_Some)
  have in_sigs: "map_of em v = Some sg" if "(v, sg) \<in> set sigs" for v sg
    using that ne by (auto simp: sigs_def)
  have in_lead: "map_of em v = Some sg" if "(v, sg) \<in> set lead" for v sg
    using that by (auto simp: lead_def split: if_splits option.splits)
  have uniq: "v = v'" if "(k, v) \<in> set (sigs @ lead)" "(k, v') \<in> set (sigs @ lead)" for k v v'
  proof -
    have "map_of em k = Some v" "map_of em k = Some v'"
      using that in_sigs in_lead by auto
    then show ?thesis by simp
  qed
  then have all: "set (collect_btree (sigs @ lead)) = set (sigs @ lead)"
    by (rule set_collect_btree)
  have some: "set (collect_btree sigs) = set sigs"
    by (rule set_collect_btree) (rule uniq, auto)
  have "map_of em v = Some sg" if "(v, sg) \<in> set (collect_btree (sigs @ lead))" for v sg
    using that in_sigs in_lead unfolding all by auto
  moreover have "map_of em v = Some sg" if "(v, sg) \<in> set (collect_btree sigs)" for v sg
    using that in_sigs unfolding some by auto
  ultimately show ?thesis
    using h look by (auto simp: sync_echoes_def count_u32_nvals [OF inv] Let_def split: option.split
        simp flip: lead_def)
qed

lemma sync_evidence_returns:
  assumes inv: "zug_inv cx z" and "set vs \<subseteq> faulty_set z"
  shows "\<exists>res. sync_evidence z sender vs = Some res \<and> (\<forall>os ev. res = Inr (os, ev) \<longrightarrow>
    (\<forall>(m, c2, sg2) \<in> set ev. evidence_valid cx (validators z) (instance_id (params z)) m c2 sg2))"
  using assms(2)
proof (induction vs)
  case (Cons v vs)
  then obtain res where res: "sync_evidence z sender vs = Some res"
    and valid: "\<forall>os ev. res = Inr (os, ev) \<longrightarrow>
      (\<forall>(m, c2, sg2) \<in> set ev. evidence_valid cx (validators z) (instance_id (params z)) m c2 sg2)"
    by auto
  obtain f where f: "map_of (faults z) v = Some f"
    using Cons.prems alist_keys_map_of [of v "faults z"] by (auto simp: faulty_set_def)
  have "v < nvals z"
    using Cons.prems zug_inv_faults_wf [OF inv] by (auto simp: faults_wf_def)
  then obtain k where k: "id_at (validators z) v = Some k"
    by (cases "id_at (validators z) v") (auto simp: id_at_None_iff)
  have direct: "evidence_valid cx (validators z) (instance_id (params z)) m c2 sg2" if "f = Direct m c2 sg2" for m c2 sg2
    using zug_invD(4) [OF inv] f that by (auto simp: faults_inv_def)
  show ?case
    using res valid f k direct by (cases f; cases res) auto
qed simp

text \<open>The hash the receiver of a response takes the echoes to be for.\<close>

definition response_hash ::
  "('v, 'h, 's, 'i, 'k, 'x) ctx \<Rightarrow> ('v, 'h, 'i, 's) sync_response \<Rightarrow> 'h option" where
  "response_hash cx resp =
     (case rs_proposal_or_hash resp of
        None \<Rightarrow> None
      | Some (Inl p) \<Rightarrow> Some (hp_hash (hashed_proposal_new cx p))
      | Some (Inr h) \<Rightarrow> Some h)"

definition response_valid ::
  "('v, 'h, 's, 'i, 'k, 'x) ctx \<Rightarrow> ('v, 'h, 's, 'i, 'k, 'x) zug \<Rightarrow> ('v, 'h, 'i, 's) sync_response \<Rightarrow> bool" where
  "response_valid cx z resp \<longleftrightarrow>
     list_all (msg_valid cx (validators z) (instance_id (params z)))
       (response_messages resp (response_hash cx resp)) \<and>
     list_all (\<lambda>(m, c2, sg2). evidence_valid cx (validators z) (instance_id (params z)) m c2 sg2) (rs_evidence resp)"

lemma signed_messages_valid:
  assumes inv: "zug_inv cx z" and first: "first < nvals z"
  shows "\<exists>ms. lookup_all (vmap_get (active z)) (iter_validator_bit_field (nvals z) first
      (validator_bit_field (nvals z) first (keys_some (active z)) AND w)) = Some ms \<and>
    list_all (msg_valid cx (validators z) (instance_id (params z))) (List.map_filter snd ms)"
proof -
  have n: "nvals z < 2 ^ 32"
    by (rule validators_wf_len [OF zug_inv_validators_wf [OF inv]])
  have len: "length (active z) = nvals z"
    using zug_invD(5) [OF inv] by (simp add: active_inv_def)
  then have keys: "set (keys_some (active z)) \<subseteq> {..<nvals z}"
    using set_keys_some [of "active z"] n by auto
  let ?it = "iter_validator_bit_field (nvals z) first (validator_bit_field (nvals z) first (keys_some (active z)) AND w)"
  have "set ?it \<subseteq> {..<nvals z}"
    using masked_subset [OF first n keys] keys by blast
  then have get: "vmap_get (active z) v = Some (active z ! v)" if "v \<in> set ?it" for v
    using that len by (auto simp: vmap_get_def)
  then have "lookup_all (vmap_get (active z)) ?it = Some (map (\<lambda>v. (v, the (vmap_get (active z) v))) ?it)"
    by (intro lookup_all_Some) simp
  moreover have "msg_valid cx (validators z) (instance_id (params z)) m"
    if "m \<in> set (List.map_filter snd (map (\<lambda>v. (v, the (vmap_get (active z) v))) ?it))" for m
  proof -
    from that obtain v where v: "v \<in> set ?it" "the (vmap_get (active z) v) = Some m"
      by (auto simp: map_filter_def)
    then have "active z ! v = Some m" "v < length (active z)"
      using get [OF v(1)] \<open>set ?it \<subseteq> {..<nvals z}\<close> len by auto
    with zug_invD(5) [OF inv] show ?thesis
      by (simp add: active_inv_def)
  qed
  ultimately show ?thesis
    by (auto simp: list_all_iff)
qed

lemma quiet_sync_evidence:
  "sync_evidence z sender vs = Some (Inr (os, ev)) \<Longrightarrow> quiet os"
  by (induction vs arbitrary: os ev)
    (auto split: fault.splits Option.bind_splits simp: map_sum_def split: sum.splits)

lemma handle_sync_request_spec:
  assumes inv: "zug_inv cx z" and inst: "sr_instance_id req = instance_id (params z)"
  shows "wp (handle_sync_request req sender z) (\<lambda>(os, res). quiet os \<and>
    (\<forall>resp. res = Some (SyncResponse resp) \<longrightarrow> response_valid cx z resp))"
proof (cases "nvals z \<le> sr_first_validator_idx req \<or> zround z (sr_round_id req) = None")
  case True
  then show ?thesis
    by (auto simp: handle_sync_request_def count_u32_nvals [OF inv] Let_def)
next
  case False
  let ?first = "sr_first_validator_idx req" and ?n = "nvals z"
  from False obtain rd where first: "?first < ?n" and rd: "zround z (sr_round_id req) = Some rd"
    by auto
  note ri = zug_inv_round [OF inv rd]
  have held: "msg_valid cx (validators z) (instance_id (params z))
      \<lparr>sm_round_id = sr_round_id req, sm_instance_id = instance_id (params z), sm_content = c,
       sm_validator_idx = v, sm_signature = sg\<rparr>" if "holds rd c v sg" for c v sg
    using ri that by (auto simp: round_inv_def mk_msg_def)
  have n: "?n < 2 ^ 32"
    by (rule validators_wf_len [OF zug_inv_validators_wf [OF inv]])
  define differs where "differs = (quorum_echoes rd \<noteq> sr_proposal_hash req \<and> quorum_echoes rd \<noteq> None)"
  define hash where "hash = (if differs then quorum_echoes rd else sr_proposal_hash req)"
  define our where "our = validator_bit_field ?n ?first (map fst (faults z))"
  from sync_echoes_spec [OF inv rd first, of hash "differs \<or> sr_has_proposal req"
      "if differs then 0 else sr_echoes req" "sr_faulty req OR our"] obtain ph es eb where
    echoes: "sync_echoes z rd ?first hash (differs \<or> sr_has_proposal req)
      (if differs then 0 else sr_echoes req) (sr_faulty req OR our) = Some (ph, es, eb)"
    and es: "es \<noteq> [] \<longrightarrow> hash \<noteq> None" "\<forall>h v sg. hash = Some h \<longrightarrow> (v, sg) \<in> set es \<longrightarrow> holds rd (Echo h) v sg"
    and ph: "case ph of None \<Rightarrow> True | Some (Inr h) \<Rightarrow> hash = Some h
      | Some (Inl p) \<Rightarrow> \<exists>hp. proposal rd = Some hp \<and> p = hp_inner hp \<and> hash = Some (hp_hash hp)"
    by (elim wpE case_prodE conjE) (rule that; assumption?; simp)
  have "wp (sync_votes z rd ?first b bits (sr_faulty req OR our)) (\<lambda>(sigs, _).
      \<forall>(v, sg) \<in> set sigs. holds rd (Vote b) v sg)" for b bits
    using sync_votes_spec [OF inv rd first] by (rule wp_mono2) auto
  then have "\<exists>vs vb. sync_votes z rd ?first b bits (sr_faulty req OR our) = Some (vs, vb) \<and>
      (\<forall>(v, sg) \<in> set vs. holds rd (Vote b) v sg)" for b bits
    by (metis (mono_tags, lifting) wp_returns prod.collapse case_prod_beta)
  then obtain ts tb fs fb where
    votes: "sync_votes z rd ?first True (sr_true_votes req) (sr_faulty req OR our) = Some (ts, tb)"
      "sync_votes z rd ?first False (sr_false_votes req) (sr_faulty req OR our) = Some (fs, fb)"
    and ts: "\<forall>(v, sg) \<in> set ts. holds rd (Vote True) v sg" and fs: "\<forall>(v, sg) \<in> set fs. holds rd (Vote False) v sg"
    by meson
  have "set (iter_validator_bit_field ?n ?first (our AND NOT (sr_faulty req))) \<subseteq> set (map fst (faults z))"
    unfolding our_def using zug_inv_faults_wf [OF inv]
    by (intro masked_subset [OF first n]) (auto simp: faults_wf_def faulty_set_def alist_keys_def)
  then have "set (iter_validator_bit_field ?n ?first (our AND NOT (sr_faulty req))) \<subseteq> faulty_set z"
    by (simp add: faulty_set_def alist_keys_def)
  from sync_evidence_returns [OF inv this, of sender] obtain ev where
    ev: "sync_evidence z sender (iter_validator_bit_field ?n ?first (our AND NOT (sr_faulty req))) = Some ev"
    and ev_valid: "\<forall>os e. ev = Inr (os, e) \<longrightarrow>
      (\<forall>(m, c2, sg2) \<in> set e. evidence_valid cx (validators z) (instance_id (params z)) m c2 sg2)"
    by blast
  have act: "\<exists>ms. lookup_all (vmap_get (active z)) (iter_validator_bit_field ?n ?first
        (validator_bit_field ?n ?first (keys_some (active z)) AND w)) = Some ms \<and>
      list_all (msg_valid cx (validators z) (instance_id (params z))) (List.map_filter snd ms)" for w
    using signed_messages_valid [OF inv first] .
  let ?other = "NOT (sr_active req OR eb OR tb OR fb OR our)"
  from act [of ?other] obtain ms where
    ms: "lookup_all (vmap_get (active z)) (iter_validator_bit_field ?n ?first
        (validator_bit_field ?n ?first (keys_some (active z)) AND ?other)) = Some ms"
      "list_all (msg_valid cx (validators z) (instance_id (params z))) (List.map_filter snd ms)"
    by blast
  have rh: "h = None \<or> h = hash" if "h = (case ph of None \<Rightarrow> None
      | Some (Inl p) \<Rightarrow> Some (hp_hash (hashed_proposal_new cx p)) | Some (Inr h) \<Rightarrow> Some h)" for h
    using that ph ri by (auto simp: hashed_proposal_new_def round_inv_def proposal_inv_def split: option.splits sum.splits)
  have eq: "handle_sync_request req sender z =
    (case ev of
       Inl _ \<Rightarrow> Some ([Disconnect sender], None)
     | Inr (os, evidence) \<Rightarrow>
         Some (os, Some (SyncResponse
           \<lparr>rs_round_id = sr_round_id req, rs_proposal_or_hash = ph, rs_echo_sigs = es, rs_true_vote_sigs = ts,
            rs_false_vote_sigs = fs, rs_signed_messages = List.map_filter snd ms, rs_evidence = evidence,
            rs_instance_id = sr_instance_id req, rs_sync_id = sr_sync_id req\<rparr>)))"
    unfolding handle_sync_request_def Let_def count_u32_nvals [OF inv] rd option.case
    unfolding differs_def [symmetric] hash_def [symmetric] our_def [symmetric] echoes
    using first votes ev ms(1) by (simp split: sum.split)
  show ?thesis
  proof (cases ev)
    case (Inl u)
    then show ?thesis by (simp add: eq)
  next
    case (Inr p)
    obtain os e where p: "p = (os, e)"
      by (cases p)
    let ?resp = "\<lparr>rs_round_id = sr_round_id req, rs_proposal_or_hash = ph, rs_echo_sigs = es, rs_true_vote_sigs = ts,
      rs_false_vote_sigs = fs, rs_signed_messages = List.map_filter snd ms, rs_evidence = e,
      rs_instance_id = sr_instance_id req, rs_sync_id = sr_sync_id req\<rparr>"
    have "response_hash cx ?resp = None \<or> response_hash cx ?resp = hash"
      by (rule rh) (simp add: response_hash_def)
    then have "response_valid cx z ?resp"
      using ms(2) ts fs es(2) held ev_valid Inr p inst
      by (auto simp: response_valid_def response_messages_def Let_def list_all_iff split: option.split)
    with Inr p quiet_sync_evidence ev show ?thesis
      by (simp add: eq)
  qed
qed

end
