(* ===== verification/Zug_Signing.thy ===== *)
theory Zug_Signing
  imports Zug_Simulation
begin

text \<open>
  We never sign two contradicting messages. The rounds remember every message of ours until we are
  known to be faulty, and from then on we are not active any more; the elementary steps that sign
  require that the round does not hold a message of the same kind. The only step that forgets is
  \<open>set_evidence_only\<close>.
\<close>

section \<open>Messages that are kept\<close>

definition kept :: "('v, 'h, 's, 'i, 'k, 'x) zug \<Rightarrow> ('h, 'i, 's) signed_message \<Rightarrow> bool" where
  "kept z m \<longleftrightarrow>
     in_round z m \<or> sm_validator_idx m \<in> faulty_set z \<and> our_idx z \<noteq> Some (sm_validator_idx m)"

lemma in_round_put_round:
  assumes "in_round z m" and "\<And>rd. zround z r = Some rd \<Longrightarrow> signers rd (sm_content m) \<subseteq> signers rd' (sm_content m)"
  shows "in_round (put_round r rd' z) m"
  using assms by (auto simp: in_round_def)

lemma kept_put_round:
  assumes "kept z m" and "\<And>rd. zround z r = Some rd \<Longrightarrow> signers rd (sm_content m) \<subseteq> signers rd' (sm_content m)"
  shows "kept (put_round r rd' z) m"
  using assms in_round_put_round [of z m r rd'] by (auto simp: kept_def faulty_set_def our_idx_def)

lemma kept_put_same:
  assumes "kept z m" and "zround z r = Some rd" and "echoes rd' = echoes rd" and "votes rd' = votes rd"
  shows "kept (put_round r rd' z) m"
  using assms(1) by (rule kept_put_round) (use assms(2) signers_cong [OF assms(3,4)] in auto)

lemma kept_without:
  assumes inv: "zug_inv cx z" and rd: "zround z r = Some rd" and v: "v \<in> faulty_set z" "our_idx z \<noteq> Some v"
    and "kept z m"
  shows "kept (put_round r (without v rd) z) m"
proof (cases "sm_validator_idx m = v")
  case True
  with v show ?thesis
    by (simp add: kept_def faulty_set_def our_idx_def)
next
  case False
  have "signers (without v rd) c = signers rd c - {v}" for c
    by (rule signers_without [OF round_inv_wf [OF zug_inv_round [OF inv rd]]])
  with False rd \<open>kept z m\<close> show ?thesis
    by (auto simp: kept_def in_round_def faulty_set_def our_idx_def)
qed

lemma kept_with_vote:
  assumes inv: "zug_inv cx z" and rd: "zround z r = Some rd" and "kept z m"
    and v: "msg_valid cx (validators z) (instance_id (params z)) (mk_msg r (instance_id (params z)) (Vote b) v sg)"
  shows "kept (put_round r (with_vote b v sg rd) z) m"
  using assms(3)
proof (rule kept_put_round)
  fix rd'
  assume "zround z r = Some rd'"
  with rd show "signers rd' (sm_content m) \<subseteq> signers (with_vote b v sg rd) (sm_content m)"
    using signers_with_vote [OF round_inv_wf [OF zug_inv_round [OF inv rd]]] msg_valid_less [OF v] by auto
qed

lemma kept_pruned:
  assumes "kept z m" and "pruned cx vs ls X (rounds z) rds"
  shows "kept (z\<lparr>rounds := rds, first_non_finalized_round_id := f\<rparr>) m"
proof (cases "in_round z m")
  case True
  then obtain rd where rd: "map_of (rounds z) (sm_round_id m) = Some rd" "sm_validator_idx m \<in> signers rd (sm_content m)"
    by (auto simp: in_round_def zround_def)
  have "map_of rds (sm_round_id m) = Some (if sm_round_id m \<in> X then prune_skipped rd else rd)"
    using assms(2) rd(1) by (simp add: pruned_def)
  moreover have "signers (prune_skipped rd) = signers rd"
    by (rule signers_cong) simp_all
  ultimately show ?thesis
    using rd(2) by (auto simp: kept_def in_round_def zround_def)
next
  case False
  with assms(1) show ?thesis
    by (auto simp: kept_def faulty_set_def our_idx_def)
qed

lemma micro_kept:
  assumes "micro cx z fins msgs z'" and inv: "zug_inv cx z" and "kept z m" and "\<not> evidence_only z'"
  shows "kept z' m"
  using assms(1,3,4)
proof (cases rule: micro.cases)
  case (mi_echo r rd h v sg)
  with assms(3) show ?thesis
    by (auto intro!: kept_put_round simp: signers_insert_echo)
next
  case (mi_sign_echo r rd v h sg entries)
  with assms(3) show ?thesis
    by (auto intro!: kept_put_round simp: signers_insert_echo)
next
  case (mi_vote r rd b v sg)
  with assms(3) inv show ?thesis
    by (auto intro: kept_with_vote)
next
  case (mi_sign_vote r rd v b sg entries)
  with assms(3) inv show ?thesis
    by (auto intro: kept_with_vote)
next
  case (mi_create_round r l)
  with assms(3) show ?thesis by (auto intro: kept_put_round)
next
  case (mi_remove r rd v)
  with assms(3) inv show ?thesis by (auto intro: kept_without)
next
  case (mi_finalize r rds)
  with assms(3) show ?thesis by (auto intro: kept_pruned)
next
  case (mi_fault m c2 sg2 v av)
  with assms(3) show ?thesis
    by (auto simp: kept_def in_round_def zround_def faulty_set_def our_idx_def)
next
  case (mi_activate av)
  with assms(3) show ?thesis
    by (auto simp: kept_def in_round_def zround_def faulty_set_def our_idx_def)
next
  case mi_deactivate
  with assms(3) show ?thesis
    by (auto simp: kept_def in_round_def zround_def faulty_set_def our_idx_def)
next
  case (mi_mark_faulty v)
  with assms(3) show ?thesis
    by (auto simp: kept_def in_round_def zround_def faulty_set_def our_idx_def)
next
  case (mi_quorum_echoes r rd h)
  with assms(3) show ?thesis by (auto intro: kept_put_same)
next
  case (mi_quorum_votes r rd b)
  with assms(3) show ?thesis by (auto intro: kept_put_same)
next
  case (mi_proposal r rd hp)
  with assms(3) show ?thesis by (auto intro: kept_put_same)
next
  case (mi_accept r rd hp k)
  with assms(3) show ?thesis by (auto intro: kept_put_same)
next
  case mi_evidence_only
  with assms(4) show ?thesis by simp
qed (use assms(3) in \<open>simp_all add: kept_def in_round_def zround_def faulty_set_def our_idx_def\<close>)

lemma micro_evidence_only: "micro cx z fins msgs z' \<Longrightarrow> evidence_only z \<Longrightarrow> evidence_only z'"
  by (induction rule: micro.induct) auto

section \<open>No double signing\<close>

definition same_slot :: "('h, 'i, 's) signed_message \<Rightarrow> ('h, 'i, 's) signed_message \<Rightarrow> bool" where
  "same_slot m m' \<longleftrightarrow> sm_round_id m = sm_round_id m' \<and> sm_validator_idx m = sm_validator_idx m'"

definition consistent :: "('h, 'i, 's) signed_message set \<Rightarrow> bool" where
  "consistent S \<longleftrightarrow> (\<forall>m \<in> S. \<forall>m' \<in> S. same_slot m m' \<longrightarrow> \<not> contradicts (sm_content m) (sm_content m'))"



lemma consistent_insert:
  "consistent (insert m S) \<longleftrightarrow>
    consistent S \<and> (\<forall>m' \<in> S. same_slot m m' \<longrightarrow> \<not> contradicts (sm_content m) (sm_content m'))"
  unfolding consistent_def by (auto simp: contradicts_sym same_slot_def)

lemma micro_signs:
  assumes "micro cx z fins msgs z'" and inv: "zug_inv cx z" and "msgs \<noteq> []"
  shows "\<exists>m. msgs = [m] \<and> kept z' m \<and>
    (\<forall>m'. kept z m' \<longrightarrow> same_slot m m' \<longrightarrow> \<not> contradicts (sm_content m) (sm_content m'))"
  using assms(1,3)
proof (cases rule: micro.cases)
  case (mi_sign_echo r rd v m h sg entries)
  note wf = round_inv_wf [OF zug_inv_round [OF inv mi_sign_echo(4)]]
  have "\<not> contradicts (sm_content m) (sm_content m')" if "kept z m'" "same_slot m m'" for m'
    using that mi_sign_echo round_has_echoed_iff [OF wf, of v]
    by (cases "sm_content m'") (auto simp: kept_def in_round_def same_slot_def)
  moreover have "kept z' m"
    using mi_sign_echo by (auto simp: kept_def in_round_def signers_insert_echo)
  ultimately show ?thesis
    using mi_sign_echo by blast
next
  case (mi_sign_vote r rd v m b sg entries)
  note wf = round_inv_wf [OF zug_inv_round [OF inv mi_sign_vote(4)]]
  have v: "v < nvals z"
    using mi_sign_vote msg_valid_less [of cx "validators z" _ m] by auto
  have "\<not> contradicts (sm_content m) (sm_content m')" if "kept z m'" "same_slot m m'" for m'
    using that mi_sign_vote round_has_voted_iff [OF wf v]
    by (cases "sm_content m'") (auto simp: kept_def in_round_def same_slot_def)
  moreover have "kept z' m"
    using mi_sign_vote by (auto simp: kept_def in_round_def signers_with_vote [OF wf v])
  ultimately show ?thesis
    using mi_sign_vote by blast
qed auto

lemma mrun_consistent:
  assumes "mrun cx z fins msgs z'" and "zug_inv cx z" and "\<not> evidence_only z'"
    and "\<And>m. m \<in> S \<Longrightarrow> kept z m" and "consistent S"
  shows "(\<forall>m \<in> S \<union> set msgs. kept z' m) \<and> consistent (S \<union> set msgs)"
  using assms
proof (induction rule: mrun.induct)
  case (mrun_step z fins msgs z' fins' msgs' z'')
  have ev: "\<not> evidence_only z'"
    using micro_evidence_only [OF mrun_step.hyps(2)] mrun_step.prems(2) by blast
  note inv = mrun_inv [OF mrun_step.hyps(1) mrun_step.prems(1)]
  have IH: "\<forall>m \<in> S \<union> set msgs. kept z' m" "consistent (S \<union> set msgs)"
    using mrun_step.IH [OF mrun_step.prems(1) ev mrun_step.prems(3,4)] by blast+
  have old: "\<forall>m \<in> S \<union> set msgs. kept z'' m"
    using IH(1) micro_kept [OF mrun_step.hyps(2) inv] mrun_step.prems(2) by blast
  show ?case
  proof (cases "msgs' = []")
    case True
    with old IH(2) show ?thesis by simp
  next
    case False
    from micro_signs [OF mrun_step.hyps(2) inv this] obtain m where
      m: "msgs' = [m]" "kept z'' m" "\<And>m'. kept z' m' \<Longrightarrow> same_slot m m' \<Longrightarrow> \<not> contradicts (sm_content m) (sm_content m')"
      by blast
    with old IH show ?thesis
      by (simp add: consistent_insert)
  qed
qed simp

lemma reaches_consistent:
  assumes "reaches cx z os z'" and "\<not> evidence_only z'"
    and "\<And>m. m \<in> S \<Longrightarrow> kept z m" and "consistent S"
  shows "(\<forall>m \<in> S \<union> set (signed_in os). kept z' m) \<and> consistent (S \<union> set (signed_in os))"
proof -
  from assms(1) obtain msgs where "zug_inv cx z" "mrun cx z (finalized_in os) msgs z'" "set (signed_in os) \<subseteq> set msgs"
    by (auto simp: reaches_def)
  with mrun_consistent [OF this(2,1) assms(2-)] show ?thesis
    unfolding consistent_def by blast
qed

text \<open>A message is in the write-ahead log at the moment it is signed.\<close>

lemma mrun_recorded:
  assumes "mrun cx z fins msgs z'" and "m \<in> set msgs"
  shows "\<exists>fins1 msgs1 z1 entries. mrun cx z fins1 msgs1 z1 \<and> m \<notin> set msgs1 \<and>
    write_wal z1 = Some entries \<and> WalSignedMessage m \<in> set entries"
  using assms
proof (induction rule: mrun.induct)
  case (mrun_step z fins msgs z' fins' msgs' z'')
  show ?case
  proof (cases "m \<in> set msgs")
    case False
    with mrun_step have "m \<in> set msgs'"
      by simp
    with mrun_step.hyps(2) have "\<exists>entries. write_wal z' = Some entries \<and> WalSignedMessage m \<in> set entries"
      by (cases rule: micro.cases) auto
    with mrun_step.hyps(1) False show ?thesis by blast
  qed (use mrun_step in blast)
qed simp

section \<open>What never changes\<close>

definition same_static :: "('v, 'h, 's, 'i, 'k, 'x) zug \<Rightarrow> ('v, 'h, 's, 'i, 'k, 'x) zug \<Rightarrow> bool" where
  "same_static z z' \<longleftrightarrow>
     validators z' = validators z \<and> params z' = params z \<and> leader_sequence z' = leader_sequence z \<and>
     config z' = config z"

lemma micro_static: "micro cx z fins msgs z' \<Longrightarrow> same_static z z'"
  by (induction rule: micro.induct) (auto simp: same_static_def)

lemma mrun_static: "mrun cx z fins msgs z' \<Longrightarrow> same_static z z'"
  by (induction rule: mrun.induct) (auto dest: micro_static simp: same_static_def)

lemma reaches_static: "reaches cx z os z' \<Longrightarrow> same_static z z'"
  by (auto simp: reaches_def dest: mrun_static)

lemma mrun_evidence_only: "mrun cx z fins msgs z' \<Longrightarrow> evidence_only z \<Longrightarrow> evidence_only z'"
  by (induction rule: mrun.induct) (auto dest: micro_evidence_only)

lemma reaches_evidence_only: "reaches cx z os z' \<Longrightarrow> evidence_only z \<Longrightarrow> evidence_only z'"
  by (auto simp: reaches_def dest: mrun_evidence_only)

section \<open>The write-ahead log\<close>

text \<open>The log only grows while it is open, and stays closed once it is closed.\<close>

lemma micro_wal:
  assumes "micro cx z fins msgs z'" and "write_wal z' = Some w'"
  shows "\<exists>w es. write_wal z = Some w \<and> w' = w @ es \<and> (\<forall>m \<in> set msgs. WalSignedMessage m \<in> set w)"
  using assms by (cases rule: micro.cases) auto

lemma mrun_wal:
  assumes "mrun cx z fins msgs z'" and "write_wal z' = Some w'"
  shows "\<exists>w es. write_wal z = Some w \<and> w' = w @ es \<and> (\<forall>m \<in> set msgs. WalSignedMessage m \<in> set w')"
  using assms
proof (induction arbitrary: w' rule: mrun.induct)
  case (mrun_step z fins msgs z' fins' msgs' z'')
  from micro_wal [OF mrun_step.hyps(2) mrun_step.prems] obtain w1 es1 where
    1: "write_wal z' = Some w1" "w' = w1 @ es1" "\<forall>m \<in> set msgs'. WalSignedMessage m \<in> set w1"
    by blast
  from mrun_step.IH [OF 1(1)] 1(2,3) show ?case by auto
qed simp

lemma reaches_wal:
  assumes "reaches cx z os z'" and "write_wal z' = Some w'"
  shows "\<exists>w es. write_wal z = Some w \<and> w' = w @ es \<and> (\<forall>m \<in> set (signed_in os). WalSignedMessage m \<in> set w')"
  using assms mrun_wal by (fastforce simp: reaches_def)

end
