(* ===== verification/Zug_Replay.thy ===== *)
theory Zug_Replay
  imports Zug_Control Zug_Signing
begin

text \<open>
  The replay of the write-ahead log and the activation of a validator. A log that holds what a node
  records can be replayed without a panic; if the replay reads it to its end, every message in it is
  in its round again, or its signer is known to be faulty. So a node that restarts with its log does
  not contradict what it signed before.
\<close>

section \<open>Ancestors in the log\<close>

lemma wal_ancestors_returns:
  assumes "zug_inv cx z"
  shows "\<exists>res. wal_ancestors z r ac = Some res"
proof (induction r arbitrary: ac rule: less_induct)
  case (less r)
  show ?case
  proof (cases "\<exists>rd hp q. zround z r = Some rd \<and> proposal rd = Some hp \<and> quorum_echoes rd = Some (hp_hash hp) \<and>
      maybe_parent_round_id hp = Some q")
    case True
    then obtain rd hp q where rd: "zround z r = Some rd" "proposal rd = Some hp" "quorum_echoes rd = Some (hp_hash hp)"
      "maybe_parent_round_id hp = Some q"
      by blast
    have "q < r"
      using zug_inv_round [OF assms rd(1)] rd(2,4) by (simp add: round_inv_def proposal_inv_def)
    with less.IH rd show ?thesis
      by (subst wal_ancestors.simps) (simp add: Let_def)
  next
    case False
    show ?thesis
    proof (cases "Option.bind (zround z r) proposal")
      case None
      then show ?thesis
        by (subst wal_ancestors.simps) simp
    next
      case (Some hp)
      with False show ?thesis
        by (subst wal_ancestors.simps) (cases "zround z r"; cases "maybe_parent_round_id hp"; simp add: Let_def)
    qed
  qed
qed

section \<open>Replay\<close>

lemma reaches_keep_on_replay:
  assumes "reaches cx z0 (os @ os') z"
  shows "reaches cx z0 (os @ filter keep_on_replay os') z"
  using assms
proof (rule reaches_outcomes)
  have "finalized_in (filter keep_on_replay os') = finalized_in os'"
    by (induction os') (auto simp: keep_on_replay_def split: outcome.splits)
  then show "finalized_in (os @ filter keep_on_replay os') = finalized_in (os @ os')"
    by simp
  show "set (signed_in (os @ filter keep_on_replay os')) \<subseteq> set (signed_in (os @ os'))"
    by (auto simp: signed_in_def)
qed

definition recovered :: "('v, 'h, 's, 'i, 'k, 'x) zug \<Rightarrow> ('v, 'h, 'i, 's) wal_entry \<Rightarrow> bool" where
  "recovered z e \<longleftrightarrow> (\<forall>m. e = WalSignedMessage m \<longrightarrow> kept z m)"

lemma reaches_replay_entry:
  assumes re: "reaches cx z0 os z" and e: "entry_valid cx (validators z) (instance_id (params z)) e"
  shows "wp (replay_entry cx now e z) (\<lambda>(os', cont, z'). reaches cx z0 (os @ os') z' \<and> (cont \<longrightarrow> recovered z' e))"
proof (cases e)
  case (WalSignedMessage m)
  with e have "msg_valid cx (validators z) (instance_id (params z)) m" "sm_round_id m \<le> u32_max"
    by simp_all
  from reaches_add_content [OF re this] obtain b z' where
    "add_content cx m z = Some (b, z')" "reaches cx z0 os z'" "b \<longrightarrow> in_round z' m"
    by (rule wpE2) blast
  with WalSignedMessage show ?thesis
    by (simp add: replay_entry_def recovered_def kept_def)
next
  case (WalProposal p r)
  with e have r: "r \<le> u32_max" and parent: "\<forall>q. p_parent p = Some q \<longrightarrow> q < r"
    by simp_all
  obtain ancestors where ancestors:
    "(case p_parent p of None \<Rightarrow> Some (Some []) | Some q \<Rightarrow> wal_ancestors z q []) = Some ancestors"
    using wal_ancestors_returns [OF reaches_inv [OF re]] by (cases "p_parent p") auto
  from calm_round_mut [OF calm_refl [OF re] r] obtain rd z1 where
    1: "round_mut cx r z = Some (rd, z1)" "calm cx z0 os z z1" "zround z1 r = Some rd"
    by (rule wpE2) blast
  define hp where "hp = hashed_proposal_new cx p"
  have "proposal_inv cx r hp"
    using parent by (simp add: proposal_inv_def hp_def hashed_proposal_new_def)
  then have "calm cx z0 os z (put_round r (snd (insert_proposal hp rd)) z1)"
    by (rule calm_insert_proposal [OF 1(2,3)])
  then have 2: "reaches cx z0 os (put_round r (snd (insert_proposal hp rd)) z1)"
    by (simp add: calm_def)
  have 3: "reaches cx z0 (os @ (case p_block p of None \<Rightarrow> []
      | Some block \<Rightarrow> [HandledProposedBlock \<lparr>pb_value = block,
          pb_context = \<lparr>bc_timestamp = p_timestamp p, bc_ancestor_values = vs\<rparr>\<rparr>]))
      (mark_dirty r (put_round r (snd (insert_proposal hp rd)) z1))" for vs
    by (rule reaches_quiet [OF reaches_mark_dirty [OF 2]]) (simp split: option.split)
  show ?thesis
    using re WalProposal ancestors 1(1) 2 3
    by (cases ancestors) (auto simp: replay_entry_def recovered_def Let_def case_prod_unfold simp flip: hp_def)
next
  case (WalEvidence m c2 sg2)
  show ?thesis
  proof (cases "id_at (validators z) (sm_validator_idx m)")
    case None
    with re WalEvidence show ?thesis
      by (simp add: replay_entry_def recovered_def)
  next
    case (Some k)
    have "evidence_valid cx (validators z) (instance_id (params z)) m c2 sg2"
      using e WalEvidence by simp
    from reaches_handle_fault_no_wal [OF re this] obtain os1 z1 where
      "handle_fault_no_wal cx m k c2 sg2 now z = Some (os1, z1)" "reaches cx z0 (os @ os1) z1"
      by (rule wpE2)
    with WalEvidence Some reaches_keep_on_replay show ?thesis
      by (simp add: replay_entry_def recovered_def)
  qed
qed

lemma reaches_kept:
  assumes "kept z m" and "reaches cx z os z'" and "\<not> evidence_only z'"
  shows "kept z' m"
  using reaches_consistent [OF assms(2,3), of "{m}"] assms(1) by (simp add: consistent_def)

lemma recovered_reaches:
  "recovered z e \<Longrightarrow> reaches cx z os z' \<Longrightarrow> \<not> evidence_only z' \<Longrightarrow> recovered z' e"
  unfolding recovered_def using reaches_kept by blast

definition entries_valid ::
  "('v, 'h, 's, 'i, 'k, 'x) ctx \<Rightarrow> ('v, 'h, 's, 'i, 'k, 'x) zug \<Rightarrow> ('v, 'h, 'i, 's) wal_entry list \<Rightarrow> bool" where
  "entries_valid cx z es \<longleftrightarrow> list_all (entry_valid cx (validators z) (instance_id (params z))) es"

lemma reaches_replay:
  assumes "zug_inv cx z" and "entries_valid cx z es"
  shows "wp (replay cx now es z) (\<lambda>(os, fin, z'). reaches cx z os z' \<and>
    (fin \<and> \<not> evidence_only z' \<longrightarrow> list_all (recovered z') es))"
  using assms
proof (induction es arbitrary: z)
  case Nil
  then show ?case by (simp add: reaches_refl)
next
  case (Cons e es)
  have e: "entry_valid cx (validators z) (instance_id (params z)) e"
    using Cons.prems(2) by (simp add: entries_valid_def)
  from reaches_replay_entry [OF reaches_refl [OF Cons.prems(1)] e, of now] obtain os1 b z1 where
    1: "replay_entry cx now e z = Some (os1, b, z1)" "reaches cx z os1 z1" "b \<longrightarrow> recovered z1 e"
    by (auto elim!: wpE)
  have "entries_valid cx z1 es"
    using reaches_static [OF 1(2)] Cons.prems(2) by (simp add: same_static_def entries_valid_def)
  from Cons.IH [OF reaches_inv [OF 1(2)] this] obtain os2 fin z2 where
    2: "replay cx now es z1 = Some (os2, fin, z2)" "reaches cx z1 os2 z2"
      "fin \<and> \<not> evidence_only z2 \<longrightarrow> list_all (recovered z2) es"
    by (auto elim!: wpE)
  show ?case
  proof (cases b)
    case False
    with 1 show ?thesis by simp
  next
    case True
    with 1 2 reaches_trans [OF 1(2) 2(2)] recovered_reaches [OF _ 2(2)] show ?thesis
      by simp
  qed
qed

section \<open>Opening the log\<close>

definition opens ::
  "('v, 'h, 's, 'i, 'k, 'x) ctx \<Rightarrow> ('v, 'h, 'i, 's) wal_entry list \<Rightarrow>
     ('v, 'h, 's, 'i, 'k, 'x) zug \<Rightarrow> ('v, 'h, 's, 'i, 'k, 'x) zug \<Rightarrow> bool" where
  "opens cx es z z' \<longleftrightarrow>
     z' = z \<or>
     write_wal z = None \<and> entries_valid cx z es \<and>
       (\<not> evidence_only z \<longrightarrow> list_all (recovered z) es) \<and> z' = z\<lparr>write_wal := Some es\<rparr>"

lemma opens_inv: "opens cx es z z' \<Longrightarrow> zug_inv cx z \<Longrightarrow> zug_inv cx z'"
  by (auto simp: opens_def zug_inv_def wal_inv_def entries_valid_def)

lemma opens_kept: "opens cx es z z' \<Longrightarrow> kept z' m \<longleftrightarrow> kept z m"
  by (auto simp: opens_def kept_def in_round_def zround_def faulty_set_def our_idx_def)

text \<open>A log is put to use only if every message in it has been recovered.\<close>

lemma reaches_open_wal:
  assumes inv: "zug_inv cx z" and closed: "write_wal z = None" and es: "entries_valid cx z (wf_entries file)"
  shows "wp (open_wal cx file now z) (\<lambda>(os, z'). \<exists>z1.
    reaches cx z os z1 \<and> opens cx (wf_entries file) z1 z')"
proof (cases "wf_readable file")
  case False
  with inv closed show ?thesis
    by (auto simp: open_wal_def opens_def intro: reaches_refl)
next
  case True
  from reaches_replay [OF inv es, of now] obtain os fin z1 where
    1: "replay cx now (wf_entries file) z = Some (os, fin, z1)" "reaches cx z os z1"
      "fin \<and> \<not> evidence_only z1 \<longrightarrow> list_all (recovered z1) (wf_entries file)"
    by (auto elim!: wpE)
  have none: "write_wal z1 = None"
    using reaches_wal [OF 1(2)] closed by (cases "write_wal z1") auto
  have "entries_valid cx z1 (wf_entries file)"
    using reaches_static [OF 1(2)] es by (simp add: same_static_def entries_valid_def)
  with 1 none have "opens cx (wf_entries file) z1 (if fin \<and> \<not> wf_read_error file \<and> wf_appendable file
      then z1\<lparr>write_wal := Some (wf_entries file)\<rparr> else z1)"
    by (auto simp: opens_def)
  with True 1 none show ?thesis
    by (auto simp: open_wal_def)
qed

definition opens_file ::
  "('v, 'h, 's, 'i, 'k, 'x) ctx \<Rightarrow> ('v, 'h, 'i, 's) wal_file option \<Rightarrow>
     ('v, 'h, 's, 'i, 'k, 'x) zug \<Rightarrow> ('v, 'h, 's, 'i, 'k, 'x) zug \<Rightarrow> bool" where
  "opens_file cx file z z' \<longleftrightarrow> z' = z \<or> (\<exists>f. file = Some f \<and> opens cx (wf_entries f) z z')"

lemma opens_file_inv: "opens_file cx file z z' \<Longrightarrow> zug_inv cx z \<Longrightarrow> zug_inv cx z'"
  by (auto simp: opens_file_def dest: opens_inv)

lemma opens_file_static: "opens_file cx file z z' \<Longrightarrow> same_static z z'"
  by (auto simp: opens_file_def opens_def same_static_def)

lemma reaches_activate_validator:
  assumes inv: "zug_inv cx z" and key: "\<And>idx. get_index (validators z) k = Some idx \<Longrightarrow> key_pair cx k sk"
    and entries: "\<And>f. file = Some f \<Longrightarrow> entries_valid cx z (wf_entries f)"
  shows "wp (activate_validator cx k sk now file z) (\<lambda>(os, z').
    \<exists>os1 z1 z2 os2. reaches cx z os1 z1 \<and> opens_file cx file z1 z2 \<and> reaches cx z2 os2 z' \<and>
      (os = os1 @ os2 \<or> os = []))"
proof -
  have "wp (if write_wal z = None
      then (case file of Some f \<Rightarrow> open_wal cx f now z | None \<Rightarrow> Some ([], z)) else Some ([], z))
    (\<lambda>(os, z'). \<exists>z1. reaches cx z os z1 \<and> opens_file cx file z1 z')"
  proof (cases "write_wal z = None \<and> file \<noteq> None")
    case True
    then obtain f where f: "file = Some f" "write_wal z = None"
      by auto
    from reaches_open_wal [OF inv f(2) entries [OF f(1)], of now] f show ?thesis
      by (auto simp: opens_file_def elim!: wp_mono2)
  qed (use reaches_refl [OF inv] in \<open>auto simp: opens_file_def\<close>)
  then obtain os1 z2 z1 where
    1: "(if write_wal z = None
        then (case file of Some f \<Rightarrow> open_wal cx f now z | None \<Rightarrow> Some ([], z)) else Some ([], z)) = Some (os1, z2)"
      "reaches cx z os1 z1" "opens_file cx file z1 z2"
    by (rule wpE2) blast
  have inv2: "zug_inv cx z2"
    by (rule opens_file_inv [OF 1(3) reaches_inv [OF 1(2)]])
  have vs: "validators z2 = validators z"
    using reaches_static [OF 1(2)] opens_file_static [OF 1(3)] by (simp add: same_static_def)
  have act: "reaches cx z2 (fst (schedule_update ts z3)) (snd (schedule_update ts z3))"
    if "get_index (validators z2) k = Some idx" "\<not> is_faulty z2 idx"
      "z3 = z2\<lparr>active_validator := Some \<lparr>av_idx = idx, av_secret = sk\<rparr>\<rparr>" for idx ts z3
  proof -
    have "own_inv cx (validators z2) (Some \<lparr>av_idx = idx, av_secret = sk\<rparr>)"
      using that(1) key vs get_index_id_at [OF zug_inv_validators_wf [OF inv2]] by (auto simp: own_inv_def)
    then have "micro cx z2 [] [] z3"
      unfolding that(3) by (rule mi_activate) (use that(2) in \<open>simp add: is_faulty_iff\<close>)
    from calm_schedule_update [OF calm_refl [OF reaches_micro [OF reaches_refl [OF inv2] this]]] show ?thesis
      by (simp add: calm_def)
  qed
  show ?thesis
  proof (cases "\<exists>idx. write_wal z2 \<noteq> None \<and> get_index (validators z2) k = Some idx \<and> \<not> is_faulty z2 idx")
    case True
    then obtain idx where idx: "write_wal z2 \<noteq> None" "get_index (validators z2) k = Some idx" "\<not> is_faulty z2 idx"
      by blast
    from act [OF idx(2,3) refl, of "max (start_timestamp (params z2)) now"] 1(2,3) idx show ?thesis
      unfolding activate_validator_def 1(1) by (auto simp: Let_def case_prod_unfold)
  next
    case False
    then have "activate_validator cx k sk now file z = Some (if write_wal z2 = None then [] else os1, z2)"
      unfolding activate_validator_def 1(1) by (auto split: option.split)
    with 1(2,3) reaches_refl [OF inv2] show ?thesis
      by fastforce
  qed
qed

end
