(* ===== verification/Zug_Participation.thy ===== *)
theory Zug_Participation
  imports Zug_Control "HOL-Library.Product_Lexorder"
begin

text \<open>
  The participation report (\<open>protocols/zug/participation.rs\<close>, \<open>Zug::log_participation\<close> and
  \<open>utils::div_round\<close>) and the timers of a Zug instance (\<open>Zug::handle_timer\<close>).

  The report lists every validator that is faulty or has not been seen in the last two rounds,
  exactly once, and its percentages are rounded shares of the total weight.
\<close>

section \<open>Rounded division (utils.rs)\<close>

text \<open>On \<open>u128\<close>: the sum wraps around, dividing by zero panics.\<close>

definition div_round :: "nat \<Rightarrow> nat \<Rightarrow> nat option" where
  "div_round numerator denominator =
     (if denominator = 0 then None
      else Some ((numerator + denominator div 2) mod 2 ^ 128 div denominator))"



section \<open>Status of a validator\<close>

datatype participation_status =
  LastSeenInRound round_id
| Inactive
| EquivocatedInOtherEra
| Equivocated

text \<open>The derived order: by variant, then by round.\<close>

fun status_rank :: "participation_status \<Rightarrow> nat \<times> round_id" where
  "status_rank (LastSeenInRound r) = (0, r)"
| "status_rank Inactive = (1, 0)"
| "status_rank EquivocatedInOtherEra = (2, 0)"
| "status_rank Equivocated = (3, 0)"

lemma status_rank_inj: "status_rank s = status_rank t \<longleftrightarrow> s = t"
  by (cases s; cases t) auto

instantiation participation_status :: linorder
begin

definition less_eq_participation_status :: "participation_status \<Rightarrow> participation_status \<Rightarrow> bool" where
  "less_eq_participation_status s t \<longleftrightarrow> status_rank s \<le> status_rank t"

definition less_participation_status :: "participation_status \<Rightarrow> participation_status \<Rightarrow> bool" where
  "less_participation_status s t \<longleftrightarrow> status_rank s < status_rank t"

instance
  by standard
    (auto simp: less_eq_participation_status_def less_participation_status_def less_le status_rank_inj)

end

text \<open>\<open>std::cmp::Reverse\<close>.\<close>

datatype 'a reversed = Reverse (unreverse: 'a)

instantiation reversed :: (linorder) linorder
begin

definition less_eq_reversed :: "'a reversed \<Rightarrow> 'a reversed \<Rightarrow> bool" where
  "less_eq_reversed a b \<longleftrightarrow> unreverse b \<le> unreverse a"

definition less_reversed :: "'a reversed \<Rightarrow> 'a reversed \<Rightarrow> bool" where
  "less_reversed a b \<longleftrightarrow> unreverse b < unreverse a"

instance
  by standard (auto simp: less_eq_reversed_def less_reversed_def reversed.expand)

end

definition for_index ::
  "nat \<Rightarrow> ('v, 'h, 's, 'i, 'k, 'x) zug \<Rightarrow> participation_status option" where
  "for_index idx z =
     (case map_of (faults z) idx of
        Some Banned \<Rightarrow> Some EquivocatedInOtherEra
      | Some Indirect \<Rightarrow> Some EquivocatedInOtherEra
      | Some (Direct _ _ _) \<Rightarrow> Some Equivocated
      | None \<Rightarrow>
          (case Option.bind (vmap_get (active z) idx) (map_option sm_round_id) of
             None \<Rightarrow> Some Inactive
           | Some r \<Rightarrow> if sat_add32 r 2 < current_round z then Some (LastSeenInRound r) else None))"

section \<open>The report\<close>

type_synonym 'k status_line = "nat \<times> 'k \<times> participation_status"

record ('i, 'k) participation =
  pa_instance_id :: 'i
  pa_faulty_stake_percent :: nat
  pa_inactive_stake_percent :: nat
  pa_inactive_validators :: "'k status_line list"
  pa_faulty_validators :: "'k status_line list"

text \<open>The accumulators of the loop of \<open>log_participation\<close>.\<close>

record 'k tally =
  inactive_w :: nat
  faulty_w :: nat
  inactive_lines :: "'k status_line list"
  faulty_lines :: "'k status_line list"

definition is_fault_status :: "participation_status \<Rightarrow> bool" where
  "is_fault_status s =
     (case s of
        Equivocated \<Rightarrow> True
      | EquivocatedInOtherEra \<Rightarrow> True
      | Inactive \<Rightarrow> False
      | LastSeenInRound _ \<Rightarrow> False)"

definition tally_validator ::
  "('v, 'h, 's, 'i, 'k, 'x) zug \<Rightarrow> nat \<times> 'k \<Rightarrow> 'k tally \<Rightarrow> 'k tally option" where
  "tally_validator z p t =
     (let (idx, v_id) = p in
      case for_index idx z of
        None \<Rightarrow> Some t
      | Some status \<Rightarrow>
          do {
            w \<leftarrow> weight_at (validators z) idx;
            if is_fault_status status
            then Some (t\<lparr>faulty_w := sat_add64 (faulty_w t) (unat w),
                         faulty_lines := faulty_lines t @ [(idx, v_id, status)]\<rparr>)
            else Some (t\<lparr>inactive_w := sat_add64 (inactive_w t) (unat w),
                         inactive_lines := inactive_lines t @ [(idx, v_id, status)]\<rparr>)
          })"

definition status_key :: "'k status_line \<Rightarrow> participation_status reversed \<times> nat" where
  "status_key l = (case l of (idx, _, status) \<Rightarrow> (Reverse status, idx))"

definition sat_mul128 :: "nat \<Rightarrow> nat \<Rightarrow> nat" where
  "sat_mul128 a b = min (a * b) (2 ^ 128 - 1)"

definition log_participation ::
  "('v, 'h, 's, 'i, 'k, 'x) zug \<Rightarrow> ('i, 'k) participation option" where
  "log_participation z =
     do {
       let total_w = unat (total_weight (validators z));
       t \<leftarrow> for_each (tally_validator z) (enumerate_ids (validators z))
         \<lparr>inactive_w = 0, faulty_w = 0, inactive_lines = [], faulty_lines = []\<rparr>;
       let inactive_w_100 = sat_mul128 (inactive_w t) 100;
       let faulty_w_100 = sat_mul128 (faulty_w t) 100;
       inactive_percent \<leftarrow> div_round inactive_w_100 total_w;
       faulty_percent \<leftarrow> div_round faulty_w_100 total_w;
       Some
         \<lparr>pa_instance_id = instance_id (params z),
          pa_faulty_stake_percent = faulty_percent mod 256,
          pa_inactive_stake_percent = inactive_percent mod 256,
          pa_inactive_validators = sort_key status_key (inactive_lines t),
          pa_faulty_validators = sort_key status_key (faulty_lines t)\<rparr>
     }"

section \<open>Timers\<close>

text \<open>
  What the generator and the clock of the process return while the sync timer is handled: the draws
  for the first validator, for the round and for the random ID, and the system time.
\<close>

record sync_draws =
  sd_now :: timestamp
  sd_idx :: nat
  sd_round :: round_id
  sd_ids :: "nat list"

definition handle_timer ::
  "('v, 'h, 's, 'i, 'k, 'x) ctx \<Rightarrow> timestamp \<Rightarrow> timestamp \<Rightarrow> nat \<Rightarrow> sync_draws \<Rightarrow>
     ('v, 'h, 's, 'i, 'k, 'x) zug \<Rightarrow>
     (('v, 'h, 's, 'i, 'k) outcome list \<times> ('v, 'h, 's, 'i, 'k, 'x) zug) option" where
  "handle_timer cx ts now timer_id rng z =
     (if timer_id = 0
      then handle_sync_peer_timer now (sd_now rng) (sd_idx rng) (sd_round rng) (sd_ids rng) z
      else if timer_id = 1 then handle_update_timer cx ts now z
      else if timer_id = 2
      then do {
        log_participation z;
        case log_participation_interval (config z) of
          None \<Rightarrow> Some ([], z)
        | Some interval \<Rightarrow>
            Some (if \<not> evidence_only z \<and> \<not> finalized_switch_block z
                  then [ScheduleTimer (sat_add64 now interval) timer_id] else [], z)
      }
      else Some ([], z))"

section \<open>What the report says\<close>

definition report_lines ::
  "('v, 'h, 's, 'i, 'k, 'x) zug \<Rightarrow> bool \<Rightarrow> (nat \<times> 'k) list \<Rightarrow> 'k status_line list" where
  "report_lines z b ids = List.map_filter (\<lambda>(idx, k).
     case for_index idx z of
       None \<Rightarrow> None
     | Some s \<Rightarrow> if is_fault_status s = b then Some (idx, k, s) else None) ids"

definition report_weight :: "('v, 'h, 's, 'i, 'k, 'x) zug \<Rightarrow> 'k status_line list \<Rightarrow> nat" where
  "report_weight z ls = (\<Sum>l\<leftarrow>ls. weight_nat (validators z) (fst l))"

lemma report_lines_simps [simp]:
  "report_lines z b [] = []"
  "report_lines z b ((idx, k) # ids) =
     (case for_index idx z of
        None \<Rightarrow> report_lines z b ids
      | Some s \<Rightarrow> if is_fault_status s = b then (idx, k, s) # report_lines z b ids else report_lines z b ids)"
  by (auto simp: report_lines_def List.map_filter_simps split: option.split)

lemma for_each_tally:
  assumes "set (map fst ids) \<subseteq> {..<nvals z}"
    and "faulty_w t + report_weight z (report_lines z True ids) \<le> u64_max"
    and "inactive_w t + report_weight z (report_lines z False ids) \<le> u64_max"
  shows "for_each (tally_validator z) ids t = Some
    \<lparr>inactive_w = inactive_w t + report_weight z (report_lines z False ids),
     faulty_w = faulty_w t + report_weight z (report_lines z True ids),
     inactive_lines = inactive_lines t @ report_lines z False ids,
     faulty_lines = faulty_lines t @ report_lines z True ids\<rparr>"
  using assms
proof (induction ids arbitrary: t)
  case Nil
  then show ?case by (simp add: report_weight_def)
next
  case (Cons p ids)
  obtain idx k where p: "p = (idx, k)" by (cases p)
  have w: "weight_at (validators z) idx = Some (v_weight (validators_vec (validators z) ! idx))"
    using Cons.prems(1) p by (simp add: weight_at_def vs_len_def)
  show ?case
  proof (cases "for_index idx z")
    case None
    then have "report_lines z b (p # ids) = report_lines z b ids" for b
      by (simp add: p)
    with Cons None show ?thesis
      by (simp add: p tally_validator_def)
  next
    case (Some s)
    then have ls: "report_lines z b (p # ids) =
        (if is_fault_status s = b then (idx, k, s) # report_lines z b ids else report_lines z b ids)" for b
      by (simp add: p)
    define t1 where "t1 = (if is_fault_status s
      then t\<lparr>faulty_w := faulty_w t + weight_nat (validators z) idx, faulty_lines := faulty_lines t @ [(idx, k, s)]\<rparr>
      else t\<lparr>inactive_w := inactive_w t + weight_nat (validators z) idx, inactive_lines := inactive_lines t @ [(idx, k, s)]\<rparr>)"
    have cons: "report_weight z ((idx, k, s) # l) = weight_nat (validators z) idx + report_weight z l" for l
      by (simp add: report_weight_def)
    have step: "tally_validator z p t = Some t1"
      using Cons.prems(2,3) Some w unfolding ls
      by (auto simp: p tally_validator_def t1_def sat_add64_def weight_nat_def report_weight_def)
    have "for_each (tally_validator z) ids t1 = Some
      \<lparr>inactive_w = inactive_w t1 + report_weight z (report_lines z False ids),
       faulty_w = faulty_w t1 + report_weight z (report_lines z True ids),
       inactive_lines = inactive_lines t1 @ report_lines z False ids,
       faulty_lines = faulty_lines t1 @ report_lines z True ids\<rparr>"
      by (rule Cons.IH) (use Cons.prems in \<open>auto simp: t1_def ls cons\<close>)
    with step show ?thesis
      by (auto simp: t1_def ls cons)
  qed
qed

lemma report_lines_idx:
  "map fst (report_lines z b ids) =
    filter (\<lambda>v. \<exists>s. for_index v z = Some s \<and> is_fault_status s = b) (map fst ids)"
  by (induction ids) (auto split: option.split)


lemma enumerate_ids_idx:
  assumes "validators_wf vs"
  shows "map fst (enumerate_ids vs) = [0..<vs_len vs]"
proof -
  have "vs_len vs < 2 ^ 32"
    using assms by (simp add: validators_wf_def)
  then have "map fst (enumerate_ids vs) = map fst (enumerate 0 (validators_vec vs))"
    unfolding enumerate_ids_def map_map
    by (intro map_cong) (auto simp: in_set_enumerate_eq vs_len_def)
  then show ?thesis
    by (simp add: vs_len_def)
qed


definition reported :: "('v, 'h, 's, 'i, 'k, 'x) zug \<Rightarrow> bool \<Rightarrow> nat set" where
  "reported z b = {v. v < nvals z \<and> (\<exists>s. for_index v z = Some s \<and> is_fault_status s = b)}"

lemma report_weight_eq:
  assumes "validators_wf (validators z)"
  shows "report_weight z (report_lines z b (enumerate_ids (validators z))) =
    weight_of_set (validators z) (reported z b)"
proof -
  let ?ls = "report_lines z b (enumerate_ids (validators z))"
  have idx: "map fst ?ls = filter (\<lambda>v. \<exists>s. for_index v z = Some s \<and> is_fault_status s = b) [0..<nvals z]"
    by (simp add: report_lines_idx enumerate_ids_idx [OF assms])
  then have "distinct (map fst ?ls)" and set: "set (map fst ?ls) = reported z b"
    by (auto simp only: reported_def) auto
  have "report_weight z ?ls = (\<Sum>v\<leftarrow>map fst ?ls. weight_nat (validators z) v)"
    by (simp add: report_weight_def comp_def)
  also have "\<dots> = (\<Sum>v \<in> set (map fst ?ls). weight_nat (validators z) v)"
    by (rule sum_list_distinct_conv_sum_set) fact
  finally show ?thesis
    by (simp only: set weight_of_set_def)
qed

lemma for_index_fault:
  assumes "zug_inv cx z"
  shows "reported z True = faulty_set z"
proof -
  have "faulty_set z \<subseteq> {..<nvals z}"
    using assms by (simp add: zug_inv_def faults_inv_def faulty_set_def)
  moreover have "(\<exists>s. for_index v z = Some s \<and> is_fault_status s) \<longleftrightarrow> v \<in> faulty_set z" for v
    using alist_keys_map_of [of v "faults z"] map_of_alist_keys [of "faults z" v]
    by (cases "map_of (faults z) v")
      (auto simp: for_index_def faulty_set_def is_fault_status_def split: option.splits fault.split)
  ultimately show ?thesis
    by (auto simp: reported_def)
qed

text \<open>Rounding a share of the total to a percentage stays below 256, so the cast to \<open>u8\<close> is exact.\<close>

lemma div_round_percent:
  assumes "w \<le> t" and "0 < t" and "t < 2 ^ 64"
  shows "div_round (sat_mul128 w 100) t = Some ((100 * w + t div 2) div t)" and "(100 * w + t div 2) div t \<le> 100"
proof -
  have "100 * w + t div 2 < 2 ^ 128"
    using assms(1,3) by simp
  then show "div_round (sat_mul128 w 100) t = Some ((100 * w + t div 2) div t)"
    using assms(2) by (simp add: div_round_def sat_mul128_def mult.commute)
  have "100 * w + t div 2 < 101 * t"
    using assms(1,2) by simp
  then have "(100 * w + t div 2) div t < 101"
    using assms(2) by (simp add: div_less_iff_less_mult)
  then show "(100 * w + t div 2) div t \<le> 100" by simp
qed

lemma zug_inv_total_weight:
  assumes "zug_inv cx z"
  shows "0 < unat (total_weight (validators z))"
  using assms by (auto simp: zug_inv_def static_inv_def word_less_nat_alt)

lemma reported_le:
  assumes "zug_inv cx z"
  shows "weight_of_set (validators z) (reported z b) \<le> unat (total_weight (validators z))"
  by (rule weight_of_set_le_total [OF zug_inv_validators_wf [OF assms]]) (auto simp: reported_def)

lemma log_participation_eq:
  assumes inv: "zug_inv cx z"
  defines "vs \<equiv> validators z"
  shows "log_participation z = Some
    \<lparr>pa_instance_id = instance_id (params z),
     pa_faulty_stake_percent =
       (100 * weight_of_set vs (faulty_set z) + unat (total_weight vs) div 2) div unat (total_weight vs),
     pa_inactive_stake_percent =
       (100 * weight_of_set vs (reported z False) + unat (total_weight vs) div 2) div unat (total_weight vs),
     pa_inactive_validators = sort_key status_key (report_lines z False (enumerate_ids vs)),
     pa_faulty_validators = sort_key status_key (report_lines z True (enumerate_ids vs))\<rparr>"
proof -
  have wf: "validators_wf vs"
    using zug_inv_validators_wf [OF inv] by (simp add: vs_def)
  have total: "0 < unat (total_weight vs)" "unat (total_weight vs) < 2 ^ 64"
    using zug_inv_total_weight [OF inv] unat_less_64 [of "total_weight vs"] by (simp_all add: vs_def)
  have w: "report_weight z (report_lines z b (enumerate_ids vs)) = weight_of_set vs (reported z b)" for b
    using report_weight_eq [of z b] wf by (simp add: vs_def)
  have le: "weight_of_set vs (reported z b) \<le> unat (total_weight vs)" for b
    using reported_le [OF inv] by (simp add: vs_def)
  have "for_each (tally_validator z) (enumerate_ids vs)
      \<lparr>inactive_w = 0, faulty_w = 0, inactive_lines = [], faulty_lines = []\<rparr> = Some
      \<lparr>inactive_w = weight_of_set vs (reported z False), faulty_w = weight_of_set vs (reported z True),
       inactive_lines = report_lines z False (enumerate_ids vs),
       faulty_lines = report_lines z True (enumerate_ids vs)\<rparr>"
    using le [of True] le [of False] total(2) enumerate_ids_idx [OF wf]
    by (subst for_each_tally) (auto simp: w [unfolded vs_def] u64_max_def vs_def simp flip: set_map)
  then show ?thesis
    unfolding log_participation_def Let_def
    using div_round_percent [OF le [of True] total] div_round_percent [OF le [of False] total]
    by (simp add: vs_def for_index_fault [OF inv])
qed

lemma reaches_handle_timer:
  assumes inv: "zug_inv cx z" and draws: "timer_id = 0 \<longrightarrow> draws_fresh (sd_now rng) (sd_ids rng) z"
  shows "wp (handle_timer cx ts now timer_id rng z) (\<lambda>(os, z'). reaches cx z os z')"
proof -
  have "reaches cx z [ScheduleTimer t i] z" for t i
    using inv by (auto simp: reaches_def finalized_in_def signed_in_def intro: mrun_refl)
  with reaches_handle_sync_peer_timer [OF inv draws [rule_format]] reaches_handle_update_timer [OF inv]
    log_participation_eq [OF inv] reaches_refl [OF inv] show ?thesis
    by (simp add: handle_timer_def split: option.split)
qed

section \<open>Properties\<close>


end
