(* ===== verification/Zug_Start.thy ===== *)
theory Zug_Start
  imports Zug_Replay Zug_Participation
begin

text \<open>
  The constructor of a Zug instance: from the stakes of an era \<open>Zug::new\<close> always returns a state, and
  that state satisfies the invariant. What it needs is that the era has between one and \<open>2 ^ 32 - 1\<close>
  validators with different keys and a positive total stake, and that the finality threshold is a
  fraction below one; the code asserts the latter.
\<close>

section \<open>The leader sequence exists\<close>

lemma cumulate_returns:
  assumes "(if cums = [] then 0 else unat (last cums)) + (\<Sum>w\<leftarrow>ws. unat w) < 2 ^ 64"
  shows "\<exists>cs. cumulate cums ws = Some cs"
  using assms
proof (induction ws arbitrary: cums)
  case Nil
  then show ?case by simp
next
  case (Cons w ws)
  let ?a = "if cums = [] then 0 else last cums"
  have sum: "unat ?a + unat w + (\<Sum>w\<leftarrow>ws. unat w) < 2 ^ 64"
    using Cons.prems by (simp split: if_splits)
  then have "unat ?a + unat w < 2 ^ 64" by simp
  then have "weight_checked_add ?a w = Some (?a + w)" and "unat (?a + w) = unat ?a + unat w"
    by (simp_all only: weight_checked_add_def unat_plus_if_size) (auto simp: word_size)
  with Cons.IH [of "cums @ [?a + w]"] sum show ?case
    by simp
qed

lemma iter_idx:
  assumes "length xs < 2 ^ 32"
  shows "map (\<lambda>(idx, _). as_u32 idx) (filter (\<lambda>(_, v). P v) (enumerate 0 xs)) =
    filter (\<lambda>i. P (xs ! i)) [0..<length xs]"
proof -
  have e: "enumerate 0 xs = map (\<lambda>i. (i, xs ! i)) [0..<length xs]"
    by (rule nth_equalityI) (simp_all add: nth_enumerate_eq)
  have "map (\<lambda>(idx, _). as_u32 idx) (filter (\<lambda>(_, v). P v) (enumerate 0 xs)) =
    map as_u32 (filter (\<lambda>i. P (xs ! i)) [0..<length xs])"
    unfolding e by (simp add: filter_map comp_def)
  also have "\<dots> = map (\<lambda>i. i) (filter (\<lambda>i. P (xs ! i)) [0..<length xs])"
    using assms by (intro map_cong) auto
  finally show ?thesis by simp
qed

lemma for_each_vmap_set:
  assumes "set idxs \<subseteq> {..<length m}"
  shows "\<exists>m'. for_each (\<lambda>vidx m. vmap_set m vidx a) idxs m = Some m' \<and> length m' = length m \<and>
    (\<forall>i < length m. m' ! i = (if i \<in> set idxs then a else m ! i))"
  using assms
proof (induction idxs arbitrary: m)
  case (Cons v idxs)
  from Cons.IH [of "m[v := a]"] Cons.prems show ?case
    by (auto simp: vmap_set_def nth_list_update)
qed simp

lemma leader_sequence_new_returns:
  assumes "validators_wf vs" and "0 < unat (total_weight vs)" and len: "length can = vs_len vs"
  shows "\<exists>ls. leader_sequence_new seed (validator_weights vs) can = Some ls"
proof -
  let ?ws = "validator_weights vs"
  let ?wl = "map (\<lambda>(idx, w). if can ! idx then w else 0) (enumerate 0 ?ws)"
  have n: "length ?ws = vs_len vs"
    by (simp add: validator_weights_def vs_len_def)
  have sum: "(\<Sum>w\<leftarrow>?ws. unat w) = unat (total_weight vs)"
    using assms(1)
    by (simp add: validators_wf_def weight_nat_def sum_list_sum_nth validator_weights_def vs_len_def
        atLeast0LessThan)
  then have lt: "(\<Sum>w\<leftarrow>?ws. unat w) < 2 ^ 64"
    using unat_less_64 [of "total_weight vs"] by simp
  have "(\<Sum>w\<leftarrow>?wl. unat w) \<le> (\<Sum>w\<leftarrow>?ws. unat w)"
    by (simp add: sum_list_sum_nth nth_enumerate_eq atLeast0LessThan sum_mono)
  with cumulate_returns [of "[]" ?ws] cumulate_returns [of "[]" ?wl] lt obtain cw cwl where
    c: "cumulate [] ?ws = Some cw" "cumulate [] ?wl = Some cwl"
    by auto
  have "?ws \<noteq> []"
    using sum assms(2) by auto
  then have "cw \<noteq> []" and "0 < last cw"
    using cumulate_Nil(1,4) [OF c(1)] sum assms(2) by (auto simp: word_less_nat_alt)
  with c n len show ?thesis
    by (simp add: leader_sequence_new_def)
qed

section \<open>A new instance\<close>

definition era_ok :: "('k \<times> nat) list \<Rightarrow> core_config \<Rightarrow> bool" where
  "era_ok stakes core \<longleftrightarrow>
     distinct (map fst stakes) \<and> length stakes < 2 ^ 32 \<and>
     0 < sum_list (map snd stakes) \<and> sum_list (map snd stakes) < 2 ^ 512 \<and>
     fst (finality_threshold_fraction core) < snd (finality_threshold_fraction core)"

text \<open>What the constructor leaves in the state.\<close>

definition blank :: "('v, 'h, 's, 'i, 'k, 'x) zug \<Rightarrow> bool" where
  "blank z \<longleftrightarrow>
     rounds z = [] \<and> write_wal z = None \<and> active_validator z = None \<and> \<not> evidence_only z \<and>
     current_round z = 0 \<and> first_non_finalized_round_id z = 0"

lemma alist_ok_const: "distinct xs \<Longrightarrow> alist_ok (map (\<lambda>x. (x, a)) xs)"
  by (simp add: alist_ok_def comp_def)

lemma new_with_params_inv:
  assumes cx: "collision_free cx" "gen_in_range (cx_gen cx)"
    and vs: "validators_wf vs" "has_proposer vs" "0 < unat (total_weight vs)" and t: "ftt ps < total_weight vs"
  shows "wp (new_with_params vs ps cfg prev seed) (\<lambda>z.
    zug_inv cx z \<and> blank z \<and> validators z = vs \<and> params z = ps \<and> config z = cfg \<and>
    faulty_set z = {v. v < vs_len vs \<and> v_banned (validators_vec vs ! v)})"
proof -
  have n: "length (validators_vec vs) < 2 ^ 32" "length (validator_weights vs) = vs_len vs"
    using vs(1) by (simp_all add: validators_wf_def validator_weights_def vs_len_def)
  let ?cannot = "filter (\<lambda>i. \<not> v_can_propose (validators_vec vs ! i)) [0..<vs_len vs]"
  have idx: "iter_cannot_propose_idx vs = ?cannot"
    "iter_banned_idx vs = filter (\<lambda>i. v_banned (validators_vec vs ! i)) [0..<vs_len vs]"
    using iter_idx [OF n(1)] by (simp_all add: iter_cannot_propose_idx_def iter_banned_idx_def vs_len_def)
  have "set ?cannot \<subseteq> {..<length (map (\<lambda>_. True) (validator_weights vs))}"
    using n(2) by auto
  from for_each_vmap_set [OF this, of False] n(2) obtain can where
    can: "for_each (\<lambda>vidx m. vmap_set m vidx False) ?cannot (map (\<lambda>_. True) (validator_weights vs)) = Some can"
      "length can = vs_len vs" "\<And>i. i < vs_len vs \<Longrightarrow> can ! i \<longleftrightarrow> v_can_propose (validators_vec vs ! i)"
    by auto
  from leader_sequence_new_returns [OF vs(1,3) can(2)] obtain ls where
    ls: "leader_sequence_new seed (validator_weights vs) can = Some ls"
    by blast
  have "\<exists>i < vs_len vs. can ! i \<and> validator_weights vs ! i \<noteq> 0"
  proof -
    from vs(2) obtain i where "i < vs_len vs" "v_can_propose (validators_vec vs ! i)"
      "v_weight (validators_vec vs ! i) \<noteq> 0"
      by (auto simp: has_proposer_def list_ex_iff in_set_conv_nth vs_len_def weight_is_zero_def)
    with can(3) show ?thesis
      by (auto intro!: exI [of _ i] simp: validator_weights_def vs_len_def)
  qed
  then have "leader_ok (cx_gen cx) ls (vs_len vs)"
    using leader_ok_new [OF ls _ _ cx(2)] n can(2) vs(1) by (simp add: validators_wf_def)
  then have "static_inv cx vs ps ls"
    using vs(1) t by (simp add: static_inv_def)
  moreover have "faults_inv cx vs (instance_id ps) (map (\<lambda>i. (i, Banned)) (iter_banned_idx vs))"
    by (auto simp: faults_inv_def alist_ok_const idx alist_keys_def dest!: map_of_SomeD)
  ultimately show ?thesis
    using can(1) ls cx n(2)
    by (simp add: new_with_params_def idx(1) zug_inv_def blank_def rounds_inv_def alist_ok_def active_inv_def
        chain_inv_def final_inv_def prefix_inv_def bounds_inv_def waiting_parent_inv_def
        waiting_validation_inv_def pending_inv_def own_inv_def)
      (simp add: faulty_set_def alist_keys_def idx image_image)
qed

lemma zug_new_inv:
  assumes cx: "collision_free cx" "gen_in_range (cx_gen cx)" and era: "era_ok stakes core"
  shows "wp (zug_new inst stakes faulty inactive core cfg prev start seed) (\<lambda>z.
    zug_inv cx z \<and> blank z \<and> instance_id (params z) = inst \<and> config z = cfg \<and>
    common_validators faulty inactive stakes = Some (validators z))"
proof -
  obtain n d where nd: "finality_threshold_fraction core = (n, d)"
    by (cases "finality_threshold_fraction core")
  from common_validators_wp [of stakes faulty inactive] era obtain vs where
    vs: "common_validators faulty inactive stakes = Some vs" "validators_wf vs" "has_proposer vs"
      "0 < unat (total_weight vs)"
    by (auto simp: era_ok_def elim!: wpE)
  from era nd obtain t where t: "common_ftt (n, d) vs = Some t"
    by (simp add: era_ok_def common_ftt_def)
  have less: "t < total_weight vs"
    using common_ftt_less(2) [OF t] vs(4) by (simp add: word_less_nat_alt unat_gt_0)
  let ?ps = "\<lparr>instance_id = inst, min_block_time = minimum_block_time core, start_timestamp = start,
    end_height = minimum_era_height core, end_timestamp = sat_add64 start (era_duration core), ftt = t\<rparr>"
  have new: "zug_new inst stakes faulty inactive core cfg prev start seed = new_with_params vs ?ps cfg prev seed"
    by (simp add: zug_new_def vs(1) nd t)
  have "ftt ?ps < total_weight vs"
    using less by simp
  from new_with_params_inv [OF cx vs(2-4) this, of cfg prev seed] show ?thesis
    unfolding new vs(1) by (rule wp_mono) simp
qed

end
