(* ===== verification/Zug_Node.thy ===== *)
theory Zug_Node
  imports Zug_Start
begin

text \<open>
  A Zug instance as a state machine: the calls the node makes on the \<open>ConsensusProtocol\<close> trait object
  are its events, \<open>handle_event\<close> is the dispatch, and a run is any sequence of calls. The hypotheses on
  the environment are collected in \<open>event_ok\<close>.

  \<^item> No event panics and every event keeps the invariant (\<open>handle_event_advances\<close>), so both hold in
    every state of every run (the interpretation \<open>zug_system\<close>).
  \<^item> We never sign two contradicting messages in a run, nor after a restart that replays the log.
  \<^item> While the log is open, it holds every message we have signed since.
\<close>

section \<open>Events\<close>

datatype ('v, 'h, 's, 'i, 'k, 'x) event =
  EvMessage timestamp node_id "('v, 'h, 'i, 's) message option"
| EvRequest node_id "('h, 'i) sync_request option"
| EvTimer timestamp timestamp nat sync_draws
| EvIsCurrent timestamp
| EvPropose timestamp "'v proposed_block"
| EvResolveValidity timestamp "'v proposed_block" bool
| EvActivate timestamp 'k 'x "('v, 'h, 'i, 's) wal_file option"
| EvDeactivate
| EvSetEvidenceOnly
| EvMarkFaulty 'k
| EvSendEvidence node_id 'k
| EvSetPaused timestamp bool

definition handle_event ::
  "('v, 'h, 's, 'i, 'k, 'x) ctx \<Rightarrow> ('v, 'h, 's, 'i, 'k, 'x) event \<Rightarrow> ('v, 'h, 's, 'i, 'k, 'x) zug \<Rightarrow>
     (('v, 'h, 's, 'i, 'k) outcome list \<times> ('v, 'h, 's, 'i, 'k, 'x) zug) option" where
  "handle_event cx e z =
     (case e of
        EvMessage now sender msg \<Rightarrow> handle_message cx sender msg now z
      | EvRequest sender msg \<Rightarrow> do { (os, _) \<leftarrow> handle_request_message sender msg z; Some (os, z) }
      | EvTimer ts now timer_id rng \<Rightarrow> handle_timer cx ts now timer_id rng z
      | EvIsCurrent now \<Rightarrow> Some (handle_is_current now z, z)
      | EvPropose now pb \<Rightarrow> propose cx pb now z
      | EvResolveValidity now pb valid \<Rightarrow> resolve_validity cx pb valid now z
      | EvActivate now k sk file \<Rightarrow> activate_validator cx k sk now file z
      | EvDeactivate \<Rightarrow> Some ([], deactivate_validator z)
      | EvSetEvidenceOnly \<Rightarrow> Some ([], set_evidence_only z)
      | EvMarkFaulty k \<Rightarrow> Some ([], mark_faulty k z)
      | EvSendEvidence peer k \<Rightarrow> Some (send_evidence peer k z, z)
      | EvSetPaused now b \<Rightarrow> set_paused cx b now z)"

text \<open>
  What the environment grants: the random number generator eventually draws an ID that is not in
  use, our secret key belongs to our ID, and the log file holds entries that were valid when they were
  written.
\<close>

fun event_ok ::
  "('v, 'h, 's, 'i, 'k, 'x) ctx \<Rightarrow> ('v, 'h, 's, 'i, 'k, 'x) event \<Rightarrow> ('v, 'h, 's, 'i, 'k, 'x) zug \<Rightarrow> bool" where
  "event_ok cx (EvTimer _ _ timer_id rng) z \<longleftrightarrow> (timer_id = 0 \<longrightarrow> draws_fresh (sd_now rng) (sd_ids rng) z)"
| "event_ok cx (EvActivate _ k sk file) z \<longleftrightarrow>
     (get_index (validators z) k \<noteq> None \<longrightarrow> key_pair cx k sk) \<and>
     (\<forall>f. file = Some f \<longrightarrow> entries_valid cx z (wf_entries f))"
| "event_ok cx _ z \<longleftrightarrow> True"

fun event_file :: "('v, 'h, 's, 'i, 'k, 'x) event \<Rightarrow> ('v, 'h, 'i, 's) wal_file option" where
  "event_file (EvActivate _ _ _ file) = file"
| "event_file _ = None"

text \<open>
  What an event does: elementary steps, perhaps with the log opened in between. The outcomes are those
  of the steps, or they are dropped and only a request to disconnect the sender is left.
\<close>

definition advances ::
  "('v, 'h, 's, 'i, 'k, 'x) ctx \<Rightarrow> ('v, 'h, 'i, 's) wal_file option \<Rightarrow> ('v, 'h, 's, 'i, 'k, 'x) zug \<Rightarrow>
     ('v, 'h, 's, 'i, 'k) outcome list \<Rightarrow> ('v, 'h, 's, 'i, 'k, 'x) zug \<Rightarrow> bool" where
  "advances cx file z os z' \<longleftrightarrow>
     (\<exists>os1 z1 z2 os2. reaches cx z os1 z1 \<and> opens_file cx file z1 z2 \<and> reaches cx z2 os2 z' \<and> (os = os1 @ os2 \<or> os = [] \<or> (\<exists>s. os = [Disconnect s])))"

lemma advances_reaches: "reaches cx z os z' \<Longrightarrow> advances cx file z os z'"
  unfolding advances_def opens_file_def using reaches_refl [OF reaches_inv] by fastforce

lemma advances_answered: "answered cx z (os, z') \<Longrightarrow> advances cx file z os z'"
  unfolding advances_def opens_file_def answered_def using reaches_refl [OF reaches_inv] by fastforce

lemma advances_quiet: "zug_inv cx z \<Longrightarrow> quiet os \<Longrightarrow> advances cx file z os z"
  using advances_reaches [OF reaches_quiet [OF reaches_refl]] by fastforce

lemma advances_inv: "advances cx file z os z' \<Longrightarrow> zug_inv cx z'"
  by (auto simp: advances_def dest: reaches_inv)

lemma quiet_request:
  assumes "zug_inv cx z"
  shows "wp (handle_request_message sender msg z) (\<lambda>(os, _). quiet os)"
  by (auto simp: handle_request_message_def split: option.split
      intro: wp_mono2 [OF handle_sync_request_spec [OF assms]])

lemma handle_event_advances:
  assumes inv: "zug_inv cx z" and ok: "event_ok cx e z"
  shows "wp (handle_event cx e z) (\<lambda>(os, z'). advances cx (event_file e) z os z')"
proof (cases e)
  case (EvMessage now sender msg)
  then show ?thesis
    by (auto simp: handle_event_def intro: advances_answered wp_mono [OF answered_handle_message [OF inv]])
next
  case (EvRequest sender msg)
  then show ?thesis
    by (auto simp: handle_event_def intro: advances_quiet [OF inv] wp_mono2 [OF quiet_request [OF inv]])
next
  case (EvTimer ts now i rng)
  with ok show ?thesis
    by (auto simp: handle_event_def intro: advances_reaches wp_mono2 [OF reaches_handle_timer [OF inv]])
next
  case (EvPropose now pb)
  then show ?thesis
    by (auto simp: handle_event_def intro: advances_reaches wp_mono2 [OF reaches_propose [OF inv]])
next
  case (EvResolveValidity now pb b)
  then show ?thesis
    by (auto simp: handle_event_def intro: advances_reaches wp_mono2 [OF reaches_resolve_validity [OF inv]])
next
  case (EvSetPaused now b)
  then show ?thesis
    by (auto simp: handle_event_def intro: advances_reaches wp_mono2 [OF reaches_set_paused [OF inv]])
next
  case (EvActivate now k sk f)
  have "wp (activate_validator cx k sk now f z) (\<lambda>(os, z'). advances cx (event_file e) z os z')"
    by (rule wp_mono2 [OF reaches_activate_validator [OF inv]])
      (use ok EvActivate in \<open>auto simp: advances_def\<close>)
  with EvActivate show ?thesis
    by (simp add: handle_event_def)
next
  case EvDeactivate
  with reaches_deactivate_validator [OF inv] show ?thesis
    by (simp add: handle_event_def advances_reaches)
next
  case EvSetEvidenceOnly
  with reaches_set_evidence_only [OF inv] show ?thesis
    by (simp add: handle_event_def advances_reaches)
next
  case (EvMarkFaulty k)
  with reaches_mark_faulty [OF inv] show ?thesis
    by (simp add: handle_event_def advances_reaches)
next
  case (EvIsCurrent now)
  then show ?thesis
    by (auto simp: handle_event_def handle_is_current_def split: option.split intro!: advances_quiet [OF inv])
next
  case (EvSendEvidence peer k)
  then show ?thesis
    by (auto simp: handle_event_def send_evidence_def split: option.split fault.split intro!: advances_quiet [OF inv])
qed

section \<open>Runs\<close>

definition starts ::
  "('v, 'h, 's, 'i, 'k::linorder, 'x) ctx \<Rightarrow> ('v, 'h, 'i, 's) wal_file \<Rightarrow>
     ('v, 'h, 's, 'i, 'k) outcome list \<Rightarrow> ('v, 'h, 's, 'i, 'k, 'x) zug \<Rightarrow> bool" where
  "starts cx file os z \<longleftrightarrow>
     collision_free cx \<and> gen_in_range (cx_gen cx) \<and>
     (\<exists>inst stakes faulty inactive core cfg prev start seed now.
        era_ok stakes core \<and>
        (\<forall>z0. zug_new inst stakes faulty inactive core cfg prev start seed = Some z0 \<longrightarrow>
          entries_valid cx z0 (wf_entries file)) \<and>
        new_boxed cx inst stakes faulty inactive core cfg prev start seed now file = Some (os, z))"

definition zug_step ::
  "('v, 'h, 's, 'i, 'k, 'x) ctx \<Rightarrow> ('v, 'h, 's, 'i, 'k, 'x) zug \<Rightarrow> ('v, 'h, 's, 'i, 'k, 'x) event \<Rightarrow>
     ('v, 'h, 's, 'i, 'k) outcome list \<Rightarrow> ('v, 'h, 's, 'i, 'k, 'x) zug \<Rightarrow> bool" where
  "zug_step cx z e os z' \<longleftrightarrow> event_ok cx e z \<and> handle_event cx e z = Some (os, z')"

lemma new_boxed_spec:
  assumes cx: "collision_free cx" "gen_in_range (cx_gen cx)" and era: "era_ok stakes core"
    and entries: "\<forall>z0. zug_new inst stakes faulty inactive core cfg prev start seed = Some z0 \<longrightarrow>
      entries_valid cx z0 (wf_entries file)"
  shows "wp (new_boxed cx inst stakes faulty inactive core cfg prev start seed now file) (\<lambda>(os, z).
    \<exists>z0 z1. blank z0 \<and> reaches cx z0 os z1 \<and> opens cx (wf_entries file) z1 z)"
proof -
  from zug_new_inv [OF cx era, of inst faulty inactive cfg prev start seed] obtain z0 where
    z0: "zug_new inst stakes faulty inactive core cfg prev start seed = Some z0" "zug_inv cx z0" "blank z0"
    by (auto elim!: wpE)
  then have "write_wal z0 = None"
    by (simp add: blank_def)
  from reaches_open_wal [OF z0(2) this entries [rule_format, OF z0(1)], of now] z0 show ?thesis
    unfolding new_boxed_def z0(1) by (auto elim!: wp_mono2)
qed

lemma startsE:
  assumes "starts cx file os z"
  obtains z0 z1 where "blank z0" "reaches cx z0 os z1" "opens cx (wf_entries file) z1 z"
proof -
  from assms obtain inst stakes faulty inactive core cfg prev start seed now where
    *: "collision_free cx" "gen_in_range (cx_gen cx)" "era_ok stakes core"
    "\<forall>z0. zug_new inst stakes faulty inactive core cfg prev start seed = Some z0 \<longrightarrow>
      entries_valid cx z0 (wf_entries file)"
    "new_boxed cx inst stakes faulty inactive core cfg prev start seed now file = Some (os, z)"
    unfolding starts_def by blast
  from new_boxed_spec [where now = now, OF *(1-4)] *(5) that show ?thesis
    by auto
qed

lemma starts_inv: "starts cx file os z \<Longrightarrow> zug_inv cx z"
  by (elim startsE) (blast intro: opens_inv reaches_inv)

lemma zug_step_advances: "zug_inv cx z \<Longrightarrow> zug_step cx z e os z' \<Longrightarrow> advances cx (event_file e) z os z'"
  using handle_event_advances [of cx z e] by (auto simp: zug_step_def)

interpretation zug_system:
  transition_system "\<lambda>z. \<exists>file os. starts cx file os z" "zug_step cx" "zug_inv cx" for cx
  by unfold_locales (auto intro: starts_inv advances_inv zug_step_advances)

lemma same_static_trans: "same_static a b \<Longrightarrow> same_static b c \<Longrightarrow> same_static a c"
  by (simp add: same_static_def)

lemma advances_static: "advances cx file z os z' \<Longrightarrow> same_static z z'"
  unfolding advances_def by (meson reaches_static opens_file_static same_static_trans)

lemma run_static:
  fixes cx :: "('v, 'h, 's, 'i, 'k::linorder, 'x) ctx"
  assumes "run (zug_step cx) z es os z'" and "zug_inv cx z"
  shows "same_static z z'"
  using assms
proof (induction rule: run.induct)
  case (run_step z es os z' e os' z'')
  then show ?case
    using zug_step_advances [OF zug_system.run_inv] advances_static same_static_trans by blast
qed (simp add: same_static_def)

section \<open>Signing in runs\<close>

lemma mrun_closed:
  assumes "mrun cx z fins msgs z'" and "write_wal z = None"
  shows "msgs = [] \<and> write_wal z' = None"
  using assms
proof (induction rule: mrun.induct)
  case (mrun_step z fins msgs z' fins' msgs' z'')
  then have "write_wal z' = None" by simp
  with mrun_step.hyps(2) have "msgs' = [] \<and> write_wal z'' = None"
    by (cases rule: micro.cases) auto
  with mrun_step show ?case by simp
qed simp

lemma reaches_closed:
  "reaches cx z os z' \<Longrightarrow> write_wal z = None \<Longrightarrow> signed_in os = [] \<and> write_wal z' = None"
  by (auto simp: reaches_def dest: mrun_closed)

lemma consistent_subset: "consistent T \<Longrightarrow> S \<subseteq> T \<Longrightarrow> consistent S"
  unfolding consistent_def by (meson subsetD)

text \<open>
  The messages \<open>M\<close> of an earlier session and those signed in this one: they do not contradict each
  other, the state remembers those of this session, and it remembers \<open>M\<close> unless the log has not been
  opened yet and nothing has been signed.
\<close>

definition session ::
  "('h, 'i, 's) signed_message set \<Rightarrow> ('v, 'h, 's, 'i, 'k) outcome list \<Rightarrow> ('v, 'h, 's, 'i, 'k, 'x) zug \<Rightarrow> bool" where
  "session M os z \<longleftrightarrow>
     (\<not> evidence_only z \<longrightarrow>
       (\<forall>m \<in> set (signed_in os). kept z m) \<and> consistent (M \<union> set (signed_in os)) \<and>
       ((\<forall>m \<in> M. kept z m) \<or> signed_in os = [] \<and> write_wal z = None))"

definition logged :: "('h, 'i, 's) signed_message set \<Rightarrow> ('v, 'h, 'i, 's) wal_file \<Rightarrow> bool" where
  "logged M file \<longleftrightarrow> WalSignedMessage ` M \<subseteq> set (wf_entries file)"

lemma session_mono:
  assumes "session M os z" and "set (signed_in os') \<subseteq> set (signed_in os)"
  shows "session M os' z"
proof -
  have "consistent (M \<union> set (signed_in os'))" if "consistent (M \<union> set (signed_in os))"
    by (rule consistent_subset [OF that]) (use assms(2) in blast)
  with assms show ?thesis
    by (auto simp: session_def)
qed

lemma session_reaches:
  assumes "session M os z" and "reaches cx z os' z'"
  shows "session M (os @ os') z'"
proof (cases "evidence_only z'")
  case False
  then have "\<not> evidence_only z"
    using reaches_evidence_only [OF assms(2)] by blast
  with assms(1) have old: "\<forall>m \<in> set (signed_in os). kept z m" "consistent (M \<union> set (signed_in os))"
    "(\<forall>m \<in> M. kept z m) \<or> signed_in os = [] \<and> write_wal z = None"
    by (auto simp: session_def)
  show ?thesis
  proof (cases "\<forall>m \<in> M. kept z m")
    case True
    with old reaches_consistent [OF assms(2) False, of "M \<union> set (signed_in os)"] show ?thesis
      by (auto simp: session_def Un_assoc)
  next
    case closed: False
    with old(3) reaches_closed [OF assms(2)] old(2) show ?thesis
      by (auto simp: session_def)
  qed
qed (simp add: session_def)

lemma session_opens:
  assumes "session M os z" and "opens cx (wf_entries file) z z'" and "logged M file"
  shows "session M os z'"
  using assms opens_kept [OF assms(2)]
  by (auto simp: session_def opens_def logged_def list_all_iff recovered_def)

lemma session_advances:
  assumes "session M os z" and "advances cx file z os' z'" and "\<And>f. file = Some f \<Longrightarrow> logged M f"
  shows "session M (os @ os') z'"
proof -
  from assms(2) obtain os1 z1 z2 os2 where
    1: "reaches cx z os1 z1" "opens_file cx file z1 z2" "reaches cx z2 os2 z'"
      "os' = os1 @ os2 \<or> os' = [] \<or> (\<exists>s. os' = [Disconnect s])"
    by (auto simp: advances_def)
  have "session M (os @ os1) z2"
    using session_reaches [OF assms(1) 1(1)] session_opens assms(3) 1(2) by (auto simp: opens_file_def)
  then have "session M ((os @ os1) @ os2) z'"
    using 1(3) by (rule session_reaches)
  then show ?thesis
    by (rule session_mono) (use 1(4) in auto)
qed

lemma session_run:
  fixes cx :: "('v, 'h, 's, 'i, 'k::linorder, 'x) ctx"
  assumes "run (zug_step cx) z es os z'" and "zug_inv cx z" and "session M [] z"
    and "\<And>e f. e \<in> set es \<Longrightarrow> event_file e = Some f \<Longrightarrow> logged M f"
  shows "session M os z'"
  using assms
proof (induction rule: run.induct)
  case (run_step z es os z' e os' z'')
  have "session M os z'"
    by (rule run_step.IH) (use run_step.prems in auto)
  moreover have "advances cx (event_file e) z' os' z''"
    by (rule zug_step_advances [OF zug_system.run_inv [OF run_step.hyps(1) run_step.prems(1)] run_step.hyps(2)])
  ultimately show ?case
    by (rule session_advances) (use run_step.prems(3) in auto)
qed simp

lemma starts_session:
  assumes "starts cx file os z" and "logged M file" and "consistent M"
  shows "session M [] z"
proof -
  from assms(1) obtain z0 z1 where
    1: "blank z0" "reaches cx z0 os z1" "opens cx (wf_entries file) z1 z"
    by (rule startsE)
  then have "session M [] z0"
    using assms(3) by (simp add: session_def blank_def)
  then have "session M ([] @ os) z1"
    using 1(2) by (rule session_reaches)
  then have "session M os z"
    using session_opens [OF _ 1(3) assms(2)] by simp
  then show ?thesis
    by (rule session_mono) simp
qed

text \<open>While it is open, the log grows, and it holds every message that is signed.\<close>

lemma advances_wal:
  assumes adv: "advances cx None z os z'" and w': "write_wal z' = Some w'"
  shows "\<exists>w es. write_wal z = Some w \<and> w' = w @ es \<and> (\<forall>m \<in> set (signed_in os). WalSignedMessage m \<in> set w')"
proof -
  from adv obtain os1 z1 os2 where
    1: "reaches cx z os1 z1" "reaches cx z1 os2 z'" "os = os1 @ os2 \<or> os = [] \<or> (\<exists>s. os = [Disconnect s])"
    by (auto simp: advances_def opens_file_def)
  from reaches_wal [OF 1(2) w'] obtain w1 es1 where
    2: "write_wal z1 = Some w1" "w' = w1 @ es1" "\<forall>m \<in> set (signed_in os2). WalSignedMessage m \<in> set w'"
    by blast
  from reaches_wal [OF 1(1) 2(1)] 1(3) 2(2,3) show ?thesis
    by auto
qed

lemma run_wal:
  fixes cx :: "('v, 'h, 's, 'i, 'k::linorder, 'x) ctx"
  assumes "run (zug_step cx) z es os z'" and "zug_inv cx z" and "write_wal z' = Some w'"
    and "\<And>e. e \<in> set es \<Longrightarrow> event_file e = None"
  shows "\<exists>w es. write_wal z = Some w \<and> w' = w @ es \<and> (\<forall>m \<in> set (signed_in os). WalSignedMessage m \<in> set w')"
  using assms
proof (induction arbitrary: w' rule: run.induct)
  case (run_step z es os z' e os' z'')
  have "advances cx None z' os' z''"
    using zug_step_advances [OF zug_system.run_inv [OF run_step.hyps(1) run_step.prems(1)] run_step.hyps(2)]
      run_step.prems(3) by simp
  from advances_wal [OF this run_step.prems(2)] obtain w1 es1 where
    1: "write_wal z' = Some w1" "w' = w1 @ es1" "\<forall>m \<in> set (signed_in os'). WalSignedMessage m \<in> set w'"
    by blast
  from run_step.IH [OF run_step.prems(1) 1(1)] run_step.prems(3) 1(2,3) show ?case
    by auto
qed simp

end
