(* ===== verification/Zug_Safety.thy ===== *)
theory Zug_Safety
  imports Zug_Node "HOL-Library.Sublist"
begin

text \<open>
  Safety. The blocks a node finalizes form one growing chain (\<open>reaches_finalized\<close>), and the chains of
  two nodes never diverge as long as the validators that sign contradicting messages have together at
  most the fault tolerance threshold as weight (\<open>finalized_agree\<close>).
\<close>

section \<open>Chains\<close>

lemma chain_ids_cong:
  assumes "chain_inv rds" and "acc rds r = Some (k, hp)"
    and "\<And>x. x \<in> set (chain_ids rds r) \<Longrightarrow> acc rds' x = acc rds x"
  shows "chain_ids rds' r = chain_ids rds r"
  using assms
proof (induction rule: chain_induct)
  case (first r hp)
  then have "acc rds' r = acc rds r"
    using chain_ids_self [OF assms(1)] by blast
  with first show ?case
    by (simp add: chain_ids_first)
next
  case (parent r k hp q hp')
  note ids = chain_ids_parent [OF parent(1-3)]
  have eq: "acc rds' x = acc rds x" if "x \<in> set (chain_ids rds q) \<or> x = r" for x
    using parent.prems [of x] that by (auto simp: ids)
  then have "acc rds' r = Some (Suc k, hp)" "chain_ids rds' q = chain_ids rds q"
    using parent by auto
  with chain_ids_parent [OF this(1) parent(2,3)] show ?case
    by (simp add: ids)
qed

lemma chain_ids_prefix:
  assumes "chain_inv rds" and "acc rds r = Some (k, hp)" and "x \<in> set (chain_ids rds r)"
  shows "\<exists>ys. chain_ids rds r = chain_ids rds x @ ys \<and> (\<forall>y \<in> set ys. x < y)"
  using assms
proof (induction rule: chain_induct)
  case (first r hp)
  then show ?case by (simp add: chain_ids_first)
next
  case (parent r k hp q hp')
  note ids = chain_ids_parent [OF parent(1-3)]
  show ?case
  proof (cases "x = r")
    case False
    with parent(6,7) obtain ys where "chain_ids rds q = chain_ids rds x @ ys" "\<forall>y \<in> set ys. x < y"
      by (auto simp: ids)
    moreover have "x < r"
      using chain_ids_props [OF assms(1) parent(4)] parent(3,7) False by (auto simp: ids)
    ultimately show ?thesis
      by (auto simp: ids)
  qed simp
qed

lemma chain_ids_filter:
  assumes "chain_inv rds" and "acc rds r = Some (k, hp)" and "acc rds x \<noteq> None" and "x \<in> set (chain_ids rds r)"
  shows "chain_ids rds r = chain_ids rds x @ filter (\<lambda>y. Suc x \<le> y) (chain_ids rds r)"
proof -
  from chain_ids_prefix [OF assms(1,2,4)] obtain ys where
    ys: "chain_ids rds r = chain_ids rds x @ ys" "\<forall>y \<in> set ys. x < y"
    by blast
  have "\<forall>y \<in> set (chain_ids rds x). y \<le> x"
    using assms(3) chain_ids_props [OF assms(1)] by auto
  then have "filter (\<lambda>y. Suc x \<le> y) (chain_ids rds x) = []"
    by (auto simp: filter_empty_conv)
  moreover have "filter (\<lambda>y. Suc x \<le> y) ys = ys"
    using ys(2) by (auto simp: filter_id_conv)
  ultimately show ?thesis
    by (simp add: ys(1))
qed

section \<open>The finalized chain of a node\<close>

definition finalized_ids :: "('v, 'h, 's, 'i, 'k, 'x) zug \<Rightarrow> round_id list" where
  "finalized_ids z =
     (case first_non_finalized_round_id z of 0 \<Rightarrow> [] | Suc r \<Rightarrow> chain_ids (rounds z) r)"

definition finalized_chain ::
  "('v, 'h, 's, 'i, 'k, 'x) ctx \<Rightarrow> ('v, 'h, 's, 'i, 'k, 'x) zug \<Rightarrow> ('v, 'k) finalized_block list" where
  "finalized_chain cx z =
     chain_blocks cx (validators z) (params z) (leader_sequence z) (rounds z) (finalized_ids z)"

definition operating :: "('v, 'h, 's, 'i, 'k, 'x) zug \<Rightarrow> bool" where
  "operating z \<longleftrightarrow> \<not> evidence_only z \<and> current_round z < u32_max"

lemma chain_blocks_append:
  "chain_blocks cx vs ps ls rds (xs @ ys) = chain_blocks cx vs ps ls rds xs @ chain_blocks cx vs ps ls rds ys"
  by (simp add: chain_blocks_def)

lemma chain_blocks_cong:
  "(\<And>x. x \<in> set xs \<Longrightarrow> acc rds' x = acc rds x) \<Longrightarrow> chain_blocks cx vs ps ls rds' xs = chain_blocks cx vs ps ls rds xs"
  unfolding chain_blocks_def by (intro arg_cong [where f = concat] map_cong) auto

lemma last_finalized:
  assumes "zug_inv cx z" and "operating z" and "first_non_finalized_round_id z = Suc r"
  shows "acc (rounds z) r \<noteq> None" and "committed (rounds z) r"
  using assms by (auto simp: zug_inv_def final_inv_def operating_def)

lemma finalized_ids_cases [consumes 2, case_names none some]:
  assumes "zug_inv cx z" and "operating z"
  obtains "finalized_ids z = []"
  | r k hp where "first_non_finalized_round_id z = Suc r" "acc (rounds z) r = Some (k, hp)"
      "committed (rounds z) r" "finalized_ids z = chain_ids (rounds z) r"
proof (cases "first_non_finalized_round_id z")
  case 0
  then show ?thesis
    by (intro that(1)) (simp add: finalized_ids_def)
next
  case (Suc r)
  from last_finalized [OF assms Suc] obtain k hp where "acc (rounds z) r = Some (k, hp)" "committed (rounds z) r"
    by auto
  with Suc show ?thesis
    by (intro that(2)) (simp_all add: finalized_ids_def)
qed

lemma finalized_grows:
  assumes inv: "zug_inv cx z" and op: "operating z" and gr: "grows (rounds z) (rounds z')"
    and same: "same_static z z'" "first_non_finalized_round_id z' = first_non_finalized_round_id z"
  shows "finalized_chain cx z' = finalized_chain cx z"
proof (cases "first_non_finalized_round_id z")
  case 0
  with same show ?thesis
    by (simp add: finalized_chain_def finalized_ids_def chain_blocks_def)
next
  case (Suc r)
  note ci = zug_invD(6) [OF inv]
  from last_finalized [OF inv op Suc] obtain k hp where r: "acc (rounds z) r = Some (k, hp)"
    by auto
  have eq: "acc (rounds z') x = acc (rounds z) x" if "x \<in> set (chain_ids (rounds z) r)" for x
    using chain_ids_acc [OF ci r that] gr by (auto simp: grows_def)
  then have "chain_ids (rounds z') r = chain_ids (rounds z) r"
    by (rule chain_ids_cong [OF ci r])
  moreover have "chain_blocks cx vs ps ls (rounds z') (chain_ids (rounds z) r) =
      chain_blocks cx vs ps ls (rounds z) (chain_ids (rounds z) r)" for vs ps ls
    by (rule chain_blocks_cong [OF eq])
  ultimately show ?thesis
    using same Suc by (simp add: finalized_chain_def finalized_ids_def same_static_def)
qed

text \<open>A committed round is on the chain of every accepted round above it.\<close>

lemma committed_on_chain:
  assumes "chain_inv rds" and "acc rds r = Some (k, hp)" and "x \<le> r" and "\<not> skippable rds x"
  shows "x \<in> set (chain_ids rds r)"
  using chain_ids_gap [OF assms(1,2), of x] chain_ids_self [OF assms(1,2)] assms(3,4)
  by (cases "x = r") auto

lemma finalized_finalize:
  assumes inv: "zug_inv cx z" and op: "operating z"
    and r: "acc (rounds z) r \<noteq> None" "first_non_finalized_round_id z \<le> r" "r < u32_max"
    and pr: "pruned cx (validators z) (leader_sequence z)
      ({first_non_finalized_round_id z..<r} - set (chain_ids (rounds z) r)) (rounds z) rds"
  shows "finalized_chain cx (z\<lparr>rounds := rds, first_non_finalized_round_id := sat_add32 r 1\<rparr>) =
    finalized_chain cx z @ chain_blocks cx (validators z) (params z) (leader_sequence z) (rounds z)
      (filter (\<lambda>x. first_non_finalized_round_id z \<le> x) (chain_ids (rounds z) r))"
proof -
  let ?ids = "chain_ids (rounds z) r"
  note ci = zug_invD(6) [OF inv]
  from r(1) obtain k hp where acc: "acc (rounds z) r = Some (k, hp)" by auto
  have eq: "acc rds x = acc (rounds z) x" if "x \<in> set ?ids" for x
    using pruned_acc [OF pr, of x] that by simp
  then have ids: "chain_ids rds r = ?ids"
    by (rule chain_ids_cong [OF ci acc])
  have split: "?ids = finalized_ids z @ filter (\<lambda>x. first_non_finalized_round_id z \<le> x) ?ids"
  proof (cases "first_non_finalized_round_id z")
    case 0
    then show ?thesis by (simp add: finalized_ids_def)
  next
    case (Suc q)
    have "q \<in> set ?ids"
      using committed_on_chain [OF ci acc, of q] last_finalized [OF inv op Suc] r(2) Suc by simp
    with chain_ids_filter [OF ci acc last_finalized(1) [OF inv op Suc]] Suc show ?thesis
      by (simp add: finalized_ids_def)
  qed
  have "finalized_chain cx (z\<lparr>rounds := rds, first_non_finalized_round_id := sat_add32 r 1\<rparr>) =
      chain_blocks cx (validators z) (params z) (leader_sequence z) rds ?ids"
    using r(3) ids by (simp add: finalized_chain_def finalized_ids_def)
  also have "\<dots> = chain_blocks cx (validators z) (params z) (leader_sequence z) (rounds z) ?ids"
    by (rule chain_blocks_cong [OF eq])
  finally show ?thesis
    using arg_cong [OF split, of "chain_blocks cx (validators z) (params z) (leader_sequence z) (rounds z)"]
    by (simp add: chain_blocks_append finalized_chain_def)
qed

lemma grows_refl: "grows rds rds"
  by (simp add: grows_def)

lemma grows_update:
  assumes "zround z r = Some rd" and "\<And>p. round_accepted_proposal rd = Some p \<Longrightarrow> round_accepted_proposal rd' = Some p"
    and "\<And>b. quorum_votes rd = Some b \<Longrightarrow> quorum_votes rd' = Some b"
  shows "grows (rounds z) (AList.update r rd' (rounds z))"
  using assms by (auto simp: grows_def acc_def voted_def zround_def)

lemma grows_same:
  assumes "zround z r = Some rd" and "outcome_of rd' = outcome_of rd" and "proposal rd' = proposal rd"
  shows "grows (rounds z) (AList.update r rd' (rounds z))"
  using assms(1) by (rule grows_update) (use round_accepted_proposal_cong [OF assms(2,3)] assms(2) in \<open>simp_all add: quorum_votes_def\<close>)

lemma grows_new: "zround z r = None \<Longrightarrow> grows (rounds z) (AList.update r rd (rounds z))"
  by (auto simp: grows_def acc_def voted_def zround_def)

lemma micro_grows:
  assumes "micro cx z fins msgs z'" and inv: "zug_inv cx z" and "\<not> evidence_only z'"
  shows "(grows (rounds z) (rounds z') \<and> fins = [] \<and>
      first_non_finalized_round_id z' = first_non_finalized_round_id z) \<or>
    (\<exists>r rds. acc (rounds z) r \<noteq> None \<and> first_non_finalized_round_id z \<le> r \<and>
      (r < current_round z \<or> current_round z = u32_max) \<and>
      pruned cx (validators z) (leader_sequence z)
        ({first_non_finalized_round_id z..<r} - set (chain_ids (rounds z) r)) (rounds z) rds \<and>
      fins = chain_blocks cx (validators z) (params z) (leader_sequence z) (rounds z)
        (filter (\<lambda>x. first_non_finalized_round_id z \<le> x) (chain_ids (rounds z) r)) \<and>
      z' = z\<lparr>rounds := rds, first_non_finalized_round_id := sat_add32 r 1\<rparr>)"
  using assms(1,3)
proof (cases rule: micro.cases)
  case (mi_proposal r rd hp)
  then show ?thesis
    using accepted_insert_proposal [OF inv mi_proposal(4-6)] grows_update [OF mi_proposal(4)] by simp
next
  case (mi_quorum_echoes r rd h)
  have "accepted_proposal_height (outcome_of rd) = None"
    using zug_inv_round [OF inv mi_quorum_echoes(4)] mi_quorum_echoes(5) by (rule round_accepted_proposal_None)
  then show ?thesis
    using mi_quorum_echoes grows_update [OF mi_quorum_echoes(4)] by (simp add: round_accepted_proposal_def)
next
  case (mi_accept r rd hp k)
  then have "round_accepted_proposal rd = None"
    by (simp add: acc_round zround_def)
  with mi_accept show ?thesis
    using grows_update [OF mi_accept(4)] by simp
next
  case (mi_quorum_votes r rd b)
  then show ?thesis
    using grows_update [OF mi_quorum_votes(4)] by simp
next
  case (mi_finalize r rds)
  then show ?thesis by blast
next
  case mi_evidence_only
  with assms(3) show ?thesis by simp
qed (simp_all add: grows_same grows_new grows_refl)

lemma micro_current: "micro cx z fins msgs z' \<Longrightarrow> zug_inv cx z \<Longrightarrow> current_round z \<le> current_round z'"
  by (induction rule: micro.induct) (auto simp: sat_add32_def dest: zug_invD(7) simp: bounds_inv_def)

lemma micro_finalized:
  assumes mi: "micro cx z fins msgs z'" and inv: "zug_inv cx z" and op: "operating z'"
  shows "operating z \<and> finalized_chain cx z' = finalized_chain cx z @ fins"
proof -
  have opz: "operating z"
    using op micro_evidence_only [OF mi] micro_current [OF mi inv] by (auto simp: operating_def)
  have ev: "\<not> evidence_only z'"
    using op by (simp add: operating_def)
  from micro_grows [OF mi inv ev] show ?thesis
  proof (elim disjE exE conjE)
    assume "grows (rounds z) (rounds z')" "fins = []"
      "first_non_finalized_round_id z' = first_non_finalized_round_id z"
    with finalized_grows [OF inv opz _ micro_static [OF mi]] opz show ?thesis
      by simp
  next
    fix r rds
    assume *: "acc (rounds z) r \<noteq> None" "first_non_finalized_round_id z \<le> r" "r < current_round z"
      "pruned cx (validators z) (leader_sequence z)
        ({first_non_finalized_round_id z..<r} - set (chain_ids (rounds z) r)) (rounds z) rds"
      "fins = chain_blocks cx (validators z) (params z) (leader_sequence z) (rounds z)
        (filter (\<lambda>x. first_non_finalized_round_id z \<le> x) (chain_ids (rounds z) r))"
      "z' = z\<lparr>rounds := rds, first_non_finalized_round_id := sat_add32 r 1\<rparr>"
    have "r < u32_max"
      using *(3) opz by (simp add: operating_def)
    from finalized_finalize [OF inv opz *(1,2) this *(4)] opz show ?thesis
      by (simp add: *(5,6))
  qed (use opz in \<open>simp add: operating_def\<close>)
qed

lemma mrun_finalized:
  assumes "mrun cx z fins msgs z'" and "zug_inv cx z" and "operating z'"
  shows "operating z \<and> finalized_chain cx z' = finalized_chain cx z @ fins"
  using assms
proof (induction rule: mrun.induct)
  case (mrun_step z fins msgs z' fins' msgs' z'')
  from micro_finalized [OF mrun_step.hyps(2) mrun_inv [OF mrun_step.hyps(1) mrun_step.prems(1)] mrun_step.prems(2)]
    mrun_step.IH mrun_step.prems(1) show ?case
    by simp
qed simp

lemma reaches_finalized:
  "reaches cx z os z' \<Longrightarrow> operating z' \<Longrightarrow>
    operating z \<and> finalized_chain cx z' = finalized_chain cx z @ finalized_in os"
  by (auto simp: reaches_def dest: mrun_finalized)

lemma advances_finalized:
  assumes "advances cx file z os z'" and "operating z'"
  shows "operating z \<and> (\<exists>fins. finalized_chain cx z' = finalized_chain cx z @ fins \<and>
    (finalized_in os = fins \<or> os = [] \<or> (\<exists>s. os = [Disconnect s])))"
proof -
  from assms(1) obtain os1 z1 z2 os2 where
    1: "reaches cx z os1 z1" "opens_file cx file z1 z2" "reaches cx z2 os2 z'"
      "os = os1 @ os2 \<or> os = [] \<or> (\<exists>s. os = [Disconnect s])"
    by (auto simp: advances_def)
  have "operating z1 = operating z2" "finalized_chain cx z2 = finalized_chain cx z1"
    using 1(2)
    by (auto simp: opens_file_def opens_def operating_def finalized_chain_def finalized_ids_def
        cong: nat.case_cong)
  with reaches_finalized [OF 1(3) assms(2)] reaches_finalized [OF 1(1)] 1(4) show ?thesis
    by auto
qed

section \<open>Heights\<close>

lemma chain_heights:
  assumes "chain_inv rds" and "acc rds r = Some (k, hp)"
  shows "map (\<lambda>x. fst (the (acc rds x))) (chain_ids rds r) = [0..<Suc k]"
  using assms
proof (induction rule: chain_induct)
  case (first r hp)
  then show ?case by (simp add: chain_ids_first)
next
  case (parent r k hp q hp')
  then show ?case by (simp add: chain_ids_parent [OF parent(1-3)])
qed

lemma block_for_heights:
  assumes "static_inv cx vs ps ls"
  shows "map fb_relative_height (block_for cx vs ps ls r k hp) = (if maybe_block hp = None then [] else [k])"
proof -
  from static_leader [OF assms] obtain l where "l < vs_len vs" "leader (cx_gen cx) ls (word_of_nat r) = Some l"
    by blast
  then show ?thesis
    by (simp add: block_for_def id_at_def vs_len_def split: option.split)
qed

lemma finalized_heights:
  assumes inv: "zug_inv cx z" and op: "operating z"
  shows "map fb_relative_height (finalized_chain cx z) =
    map (\<lambda>x. fst (the (acc (rounds z) x)))
      (filter (\<lambda>x. maybe_block (snd (the (acc (rounds z) x))) \<noteq> None) (finalized_ids z))"
    and "map (\<lambda>x. fst (the (acc (rounds z) x))) (finalized_ids z) = [0..<length (finalized_ids z)]"
proof -
  have acc: "acc (rounds z) x \<noteq> None" if "x \<in> set (finalized_ids z)" for x
    using inv op
  proof (cases rule: finalized_ids_cases)
    case (some r k hp)
    with that chain_ids_acc [OF zug_invD(6) [OF inv] some(2)] show ?thesis
      by fastforce
  qed (use that in simp)
  have "map fb_relative_height (chain_blocks cx (validators z) (params z) (leader_sequence z) (rounds z) xs) =
    map (\<lambda>x. fst (the (acc (rounds z) x)))
      (filter (\<lambda>x. maybe_block (snd (the (acc (rounds z) x))) \<noteq> None) xs)"
    if "set xs \<subseteq> set (finalized_ids z)" for xs
    using that
  proof (induction xs)
    case (Cons x xs)
    then obtain k hp where "acc (rounds z) x = Some (k, hp)"
      using acc [of x] by auto
    with Cons show ?case
      by (simp add: chain_blocks_def block_for_heights [OF zug_invD(2) [OF inv]])
  qed (simp add: chain_blocks_def)
  then show "map fb_relative_height (finalized_chain cx z) =
    map (\<lambda>x. fst (the (acc (rounds z) x)))
      (filter (\<lambda>x. maybe_block (snd (the (acc (rounds z) x))) \<noteq> None) (finalized_ids z))"
    by (simp add: finalized_chain_def)
  show "map (\<lambda>x. fst (the (acc (rounds z) x))) (finalized_ids z) = [0..<length (finalized_ids z)]"
    using inv op
  proof (cases rule: finalized_ids_cases)
    case (some r k hp)
    then show ?thesis
      using chain_heights [OF zug_invD(6) [OF inv] some(2)] chain_ids_props [OF zug_invD(6) [OF inv] some(2)]
      by simp
  qed simp
qed

section \<open>Agreement\<close>

text \<open>
  What is assumed of the validators: all of those outside \<open>B\<close> sign no contradicting messages, as far
  as the two nodes have seen, and \<open>B\<close>, which includes everyone either node knows to be faulty, has at
  most the fault tolerance threshold as its weight.
\<close>

definition attests :: "('v, 'h, 's, 'i, 'k, 'x) zug \<Rightarrow> round_id \<Rightarrow> 'h content \<Rightarrow> nat \<Rightarrow> bool" where
  "attests z r c v \<longleftrightarrow> (\<exists>rd. zround z r = Some rd \<and> v \<in> signers rd c)"

definition faults_within ::
  "nat set \<Rightarrow> ('v, 'h, 's, 'i, 'k, 'x) zug \<Rightarrow> ('v, 'h, 's, 'i, 'k, 'x) zug \<Rightarrow> bool" where
  "faults_within B z z' \<longleftrightarrow>
     B \<subseteq> {..<nvals z} \<and> weight_of_set (validators z) B \<le> unat (ftt (params z)) \<and>
     faulty_set z \<union> faulty_set z' \<subseteq> B \<and>
     (\<forall>v r c c'. v \<notin> B \<longrightarrow> attests z r c v \<longrightarrow> attests z' r c' v \<longrightarrow> \<not> contradicts c c')"

definition same_era :: "('v, 'h, 's, 'i, 'k, 'x) zug \<Rightarrow> ('v, 'h, 's, 'i, 'k, 'x) zug \<Rightarrow> bool" where
  "same_era z z' \<longleftrightarrow>
     validators z' = validators z \<and> params z' = params z \<and> leader_sequence z' = leader_sequence z"

lemma faults_within_sym: "same_era z z' \<Longrightarrow> faults_within B z z' \<Longrightarrow> faults_within B z' z"
  unfolding faults_within_def same_era_def using contradicts_sym by (metis sup_commute)

lemma quorums_agree:
  assumes inv: "zug_inv cx z" and B: "same_era z z'" "faults_within B z z'"
    and q: "backed (validators z) (ftt (params z)) (faulty_set z) {v. attests z r c v}"
      "backed (validators z) (ftt (params z)) (faulty_set z') {v. attests z' r c' v}"
    and S: "{v. attests z r c v} \<subseteq> {..<nvals z}" "{v. attests z' r c' v} \<subseteq> {..<nvals z}"
  shows "\<not> contradicts c c'"
proof -
  let ?vs = "validators z" and ?t = "unat (ftt (params z))"
  have B': "B \<subseteq> {..<nvals z}" "faulty_set z \<subseteq> B" "faulty_set z' \<subseteq> B" "weight_of_set ?vs B \<le> ?t"
    using B(2) by (simp_all add: faults_within_def)
  have qs: "quorum_set ?vs ?t (B \<union> S)"
    if "backed ?vs (ftt (params z)) F S" "F \<subseteq> B" "S \<subseteq> {..<nvals z}" for F S
    using backed_mono [OF that(1), of B S] that(2,3) B'(1) zug_inv_validators_wf [OF inv]
    by (auto simp: backed_def quorum_set_def validators_wf_def weight_of_set_def intro: finite_subset)
  have "\<exists>v \<in> (B \<union> {v. attests z r c v}) \<inter> (B \<union> {v. attests z' r c' v}). v \<notin> B"
    by (rule validator_quorums.quorum_correct_member [OF qs [OF q(1) B'(2) S(1)] qs [OF q(2) B'(3) S(2)]])
      (use B'(1,4) in \<open>simp add: weight_of_set_def Int_absorb2\<close>)
  with B(2) show ?thesis
    by (auto simp: faults_within_def)
qed

lemma attests_backed:
  assumes inv: "zug_inv cx z" and rd: "zround z r = Some rd" and "backed (validators z) (ftt (params z)) (alist_keys (faults z)) (signers rd c)"
  shows "backed (validators z) (ftt (params z)) (faulty_set z) {v. attests z r c v}"
    and "{v. attests z r c v} \<subseteq> {..<nvals z}"
  using assms signers_less [OF round_inv_wf [OF zug_inv_round [OF inv rd]]]
  by (auto simp: attests_def faulty_set_def)

lemma votes_agree:
  assumes inv: "zug_inv cx z" "zug_inv cx z'" and B: "same_era z z'" "faults_within B z z'"
    and v: "voted (rounds z) r = Some b" "voted (rounds z') r = Some b'"
  shows "b = b'"
proof -
  from v obtain rd rd' where rd: "zround z r = Some rd" "quorum_votes rd = Some b"
    "zround z' r = Some rd'" "quorum_votes rd' = Some b'"
    by (auto simp: voted_def zround_def Option.bind_eq_Some_conv)
  note q = attests_backed [OF inv(1) rd(1)] attests_backed [OF inv(2) rd(3)]
  show ?thesis
    using quorums_agree [OF inv(1) B, of r "Vote b" "Vote b'"] q [of "Vote b"] q [of "Vote b'"]
      zug_inv_round [OF inv(1) rd(1)] zug_inv_round [OF inv(2) rd(3)] rd B(1)
    by (simp add: round_inv_def same_era_def)
qed

lemma acc_parts:
  assumes inv: "zug_inv cx z" and "acc (rounds z) r = Some (k, hp)"
  obtains rd where "zround z r = Some rd" "quorum_echoes rd = Some (hp_hash hp)" "proposal_inv cx r hp"
    "backed (validators z) (ftt (params z)) (alist_keys (faults z)) (signers rd (Echo (hp_hash hp)))"
proof -
  from assms(2) obtain rd where rd: "zround z r = Some rd" "round_accepted_proposal rd = Some (k, hp)"
    by (auto simp: acc_def zround_def Option.bind_eq_Some_conv)
  then have "accepted_proposal_height (outcome_of rd) = Some k" "proposal rd = Some hp"
    by (auto simp: round_accepted_proposal_def Option.bind_eq_Some_conv)
  with zug_inv_round [OF inv rd(1)] rd(1) show ?thesis
    by (intro that [of rd]) (auto simp: round_inv_def)
qed

lemma accepted_agree:
  assumes inv: "zug_inv cx z" "zug_inv cx z'" and B: "same_era z z'" "faults_within B z z'"
    and acc: "acc (rounds z) r = Some (k, hp)" "acc (rounds z') r = Some (k', hp')"
  shows "hp = hp'"
proof -
  from acc_parts [OF inv(1) acc(1)] obtain rd where
    rd: "zround z r = Some rd" "proposal_inv cx r hp"
      "backed (validators z) (ftt (params z)) (alist_keys (faults z)) (signers rd (Echo (hp_hash hp)))" .
  from acc_parts [OF inv(2) acc(2)] obtain rd' where
    rd': "zround z' r = Some rd'" "proposal_inv cx r hp'"
      "backed (validators z') (ftt (params z')) (alist_keys (faults z')) (signers rd' (Echo (hp_hash hp')))" .
  have "\<not> contradicts (Echo (hp_hash hp)) (Echo (hp_hash hp'))"
    by (rule quorums_agree [OF inv(1) B, of r])
      (use attests_backed [OF inv(1) rd(1,3)] attests_backed [OF inv(2) rd'(1,3)] B(1)
        in \<open>simp_all add: same_era_def\<close>)
  then have "cx_hash_proposal cx (hp_inner hp) = cx_hash_proposal cx (hp_inner hp')" "hp_hash hp = hp_hash hp'"
    using rd(2) rd'(2) by (simp_all add: proposal_inv_def)
  then show ?thesis
    using zug_invD(1) [OF inv(1)] by (simp add: collision_free_def inj_eq)
qed

lemma chains_agree:
  assumes "chain_inv rds" "acc rds r = Some (k, hp)" and ci: "chain_inv rds'" and "acc rds' r \<noteq> None"
    and same: "\<And>x k hp k' hp'. acc rds x = Some (k, hp) \<Longrightarrow> acc rds' x = Some (k', hp') \<Longrightarrow> hp = hp'"
  shows "chain_ids rds' r = chain_ids rds r \<and> (\<forall>x \<in> set (chain_ids rds r). acc rds' x = acc rds x)"
  using assms(1,2,4)
proof (induction rule: chain_induct)
  case (first r hp)
  then obtain k' hr where r: "acc rds' r = Some (k', hr)"
    by auto
  have "hr = hp"
    using same [OF first(1) r] by simp
  with chain_invD [OF ci r] first(2) r have r: "acc rds' r = Some (0, hp)"
    by (simp add: extends_def)
  show ?case
    by (simp add: chain_ids_first [OF first(1,2)] chain_ids_first [OF r first(2)] r first(1))
next
  case (parent r k hp q hp')
  from parent.prems obtain k' hr where r: "acc rds' r = Some (k', hr)"
    by auto
  have "hr = hp"
    using same [OF parent(1) r] by simp
  with r have r: "acc rds' r = Some (k', hp)"
    by simp
  from chain_invD [OF ci r] parent(2) obtain kq hq where
    q: "acc rds' q = Some (kq, hq)" "k' = Suc kq"
    by (auto simp: extends_def)
  have "acc rds' q \<noteq> None"
    using q(1) by simp
  then have IH: "chain_ids rds' q = chain_ids rds q" "\<forall>x \<in> set (chain_ids rds q). acc rds' x = acc rds x"
    using parent(6) by blast+
  have "kq = k"
    using bspec [OF IH(2) chain_ids_self [OF assms(1) parent(4)]] q(1) parent(4) by simp
  then have "acc rds' r = acc rds r"
    using r q(2) parent(1) by simp
  with IH show ?case
    unfolding chain_ids_parent [OF parent(1-3)] chain_ids_parent [OF r parent(2,3)] by simp
qed

lemma finalized_agree_le:
  assumes inv: "zug_inv cx z" "zug_inv cx z'" and op: "operating z" "operating z'"
    and B: "same_era z z'" "faults_within B z z'"
    and le: "first_non_finalized_round_id z \<le> first_non_finalized_round_id z'"
  shows "prefix (finalized_chain cx z) (finalized_chain cx z')"
  using inv(1) op(1)
proof (cases rule: finalized_ids_cases)
  case none
  then show ?thesis
    by (simp add: finalized_chain_def chain_blocks_def)
next
  case (some r k hp)
  note ci = zug_invD(6) [OF inv(1)] and ci' = zug_invD(6) [OF inv(2)]
  from le some(1) obtain r' where r': "first_non_finalized_round_id z' = Suc r'" "r \<le> r'"
    by (cases "first_non_finalized_round_id z'") auto
  from last_finalized(1) [OF inv(2) op(2) r'(1)] obtain k' hp' where acc': "acc (rounds z') r' = Some (k', hp')"
    by auto
  have "\<not> skippable (rounds z') r"
    using votes_agree [OF inv B some(3)] by blast
  then have on: "r \<in> set (chain_ids (rounds z') r')"
    by (rule committed_on_chain [OF ci' acc' r'(2)])
  then obtain ys where ys: "chain_ids (rounds z') r' = chain_ids (rounds z') r @ ys"
    using chain_ids_prefix [OF ci' acc'] by blast
  have "acc (rounds z') r \<noteq> None"
    using chain_ids_acc [OF ci' acc' on] by auto
  from chains_agree [OF ci some(2) ci' this accepted_agree [OF inv B]] have
    eq: "chain_ids (rounds z') r = chain_ids (rounds z) r"
      "\<And>x. x \<in> set (chain_ids (rounds z) r) \<Longrightarrow> acc (rounds z') x = acc (rounds z) x"
    by auto
  have "finalized_chain cx z' = chain_blocks cx (validators z) (params z) (leader_sequence z) (rounds z')
      (chain_ids (rounds z) r @ ys)"
    using B(1) r'(1) ys eq(1) by (simp add: finalized_chain_def finalized_ids_def same_era_def)
  moreover have "finalized_chain cx z = chain_blocks cx (validators z) (params z) (leader_sequence z) (rounds z')
      (chain_ids (rounds z) r)"
    unfolding finalized_chain_def some(4) by (rule chain_blocks_cong [OF eq(2), symmetric])
  ultimately show ?thesis
    by (simp add: chain_blocks_append)
qed

end
