(* ===== verification/Zug_Example.thy ===== *)
theory Zug_Example
  imports Zug_Safety "HOL-Library.Code_Target_Numeral"
begin

text \<open>
  A concrete instance of the parameters and a concrete run, on which the hypotheses of the theorems
  about runs hold: an era with a single validator, which starts with an empty log, is activated, is
  asked to propose, and finalizes its first block on its own. The hash of a proposal is the proposal
  itself, a signature is the ID of the signer, and the generator always draws zero.
\<close>

section \<open>Parameters\<close>

type_synonym demo_hash = "nat proposal option"

type_synonym demo_zug = "(nat, demo_hash, nat, nat, nat, nat) zug"

definition demo_cx :: "(nat, demo_hash, nat, nat, nat, nat) ctx" where
  "demo_cx =
     \<lparr>cx_hash_proposal = Some,
      cx_hash_fields = (\<lambda>_ _ _ _. None),
      cx_sign = (\<lambda>x _. x),
      cx_verify = (\<lambda>_ k s. s = k),
      cx_needs_validation = (\<lambda>_. False),
      cx_gen = (\<lambda>_ _. 0),
      cx_wal_write = (\<lambda>_ _. True),
      cx_exp2 = (\<lambda>_. 1)\<rparr>"

definition demo_core :: core_config where
  "demo_core =
     \<lparr>minimum_block_time = 1, minimum_era_height = 5, era_duration = 10,
      finality_threshold_fraction = (1, 3)\<rparr>"

definition demo_config :: zug_config where
  "demo_config =
     \<lparr>sync_state_interval = None, log_participation_interval = None, proposal_timeout = 100,
      proposal_grace_period = 10, proposal_timeout_inertia = 5, clock_tolerance = 5\<rparr>"

definition demo_stakes :: "(nat \<times> nat) list" where
  "demo_stakes = [(7, 1)]"

definition demo_file :: "(nat, demo_hash, nat, nat) wal_entry list \<Rightarrow> (nat, demo_hash, nat, nat) wal_file" where
  "demo_file es = \<lparr>wf_readable = True, wf_entries = es, wf_read_error = False, wf_appendable = True\<rparr>"

definition demo_new ::
  "(nat, demo_hash, nat, nat) wal_entry list \<Rightarrow>
     ((nat, demo_hash, nat, nat, nat) outcome list \<times> demo_zug) option" where
  "demo_new es =
     new_boxed demo_cx 3 demo_stakes [] [] demo_core demo_config None 0 0 0 (demo_file es)"

lemma demo_cx_ok [simp]:
  "collision_free demo_cx" "gen_in_range (cx_gen demo_cx)" "key_pair demo_cx k k"
  by (simp_all add: demo_cx_def collision_free_def gen_in_range_def key_pair_def)

lemma demo_era_ok: "era_ok demo_stakes demo_core"
  by (simp add: era_ok_def demo_stakes_def demo_core_def)

section \<open>The run\<close>

definition demo_draws :: sync_draws where
  "demo_draws = \<lparr>sd_now = 0, sd_idx = 0, sd_round = 0, sd_ids = [0]\<rparr>"

definition demo_block :: "nat proposed_block" where
  "demo_block = \<lparr>pb_value = 42, pb_context = \<lparr>bc_timestamp = 0, bc_ancestor_values = []\<rparr>\<rparr>"

definition demo_events :: "(nat, demo_hash, nat, nat, nat, nat) event list" where
  "demo_events = [EvActivate 0 7 7 None, EvTimer 0 0 1 demo_draws, EvPropose 1 demo_block]"

fun play ::
  "('v, 'h, 's, 'i, 'k, 'x) ctx \<Rightarrow> ('v, 'h, 's, 'i, 'k, 'x) event list \<Rightarrow> ('v, 'h, 's, 'i, 'k, 'x) zug \<Rightarrow>
     (('v, 'h, 's, 'i, 'k) outcome list \<times> ('v, 'h, 's, 'i, 'k, 'x) zug) option" where
  "play cx [] z = Some ([], z)"
| "play cx (e # es) z =
     do { (os, z) \<leftarrow> handle_event cx e z; (os', z) \<leftarrow> play cx es z; Some (os @ os', z) }"

definition view ::
  "('v, 'h, 's, 'i, 'k, 'x) zug \<Rightarrow>
     (round_id \<times> ('v, 'h) hashed_proposal option \<times> ('h \<times> (nat \<times> 's) list) list \<times> 's option list \<times> 's option list \<times>
       'h round_outcome) list \<times> ('v, 'h, 'i, 's) wal_entry list option \<times> bool \<times> round_id \<times> round_id \<times> (nat \<times> ('h, 'i, 's) fault) list" where
  "view z =
     (map (\<lambda>(r, rd). (r, proposal rd, echoes rd, votes rd True, votes rd False, outcome_of rd)) (rounds z),
      write_wal z, evidence_only z, current_round z, first_non_finalized_round_id z, faults z)"

definition demo_proposal :: "nat proposal" where
  "demo_proposal = \<lparr>p_timestamp = 0, p_block = Some 42, p_parent = None, p_inactive = None\<rparr>"

definition demo_echo :: "(demo_hash, nat, nat) signed_message" where
  "demo_echo = mk_msg 0 3 (Echo (Some demo_proposal)) 0 7"

definition demo_vote :: "(demo_hash, nat, nat) signed_message" where
  "demo_vote = mk_msg 0 3 (Vote True) 0 7"

definition demo_finalized :: "(nat, nat) finalized_block" where
  "demo_finalized =
     \<lparr>fb_value = 42, fb_timestamp = 0, fb_relative_height = 0, fb_equivocators = [],
      fb_terminal_block_data = None, fb_proposer = 7\<rparr>"

definition demo_log :: "(nat, demo_hash, nat, nat) wal_entry list" where
  "demo_log = [WalSignedMessage demo_echo, WalProposal demo_proposal 0, WalSignedMessage demo_vote]"

definition demo_rounds where
  "demo_rounds =
     [(0 :: nat, Some \<lparr>hp_hash = Some demo_proposal, hp_inner = demo_proposal\<rparr>, [(Some demo_proposal, [(0 :: nat, 7 :: nat)])],
       [Some (7 :: nat)], [None],
       \<lparr>accepted_proposal_height = Some 0, quorum_echoes_of = Some (Some demo_proposal), quorum_votes_of = Some True\<rparr>),
      (1, None, [], [None], [None],
       \<lparr>accepted_proposal_height = None, quorum_echoes_of = None, quorum_votes_of = None\<rparr>)]"

lemma demo_run_eval:
  "map_option (\<lambda>(os, z). (os, view z)) (do { (_, z) \<leftarrow> demo_new []; play demo_cx demo_events z }) =
     Some ([ScheduleTimer 0 1, CreateNewBlock \<lparr>bc_timestamp = 0, bc_ancestor_values = []\<rparr> 110, ScheduleTimer 110 1,
        CreatedGossipMessage (ProposalMsg 0 3 demo_proposal demo_echo),
        CreatedGossipMessage (Signed demo_vote), FinalizedBlock demo_finalized,
        CreateNewBlock \<lparr>bc_timestamp = 1, bc_ancestor_values = [42]\<rparr> 111],
      (demo_rounds, Some demo_log, False, 1, 1, []))"
  by code_simp

section \<open>The run as a run of the state machine\<close>

lemma run_Cons: "run step s1 es os' s' \<Longrightarrow> step s e os s1 \<Longrightarrow> run step s (e # es) (os @ os') s'"
proof (induction s1 es os' s' rule: run.induct)
  case (run_refl s1)
  from run.run_step [of step, OF run.run_refl run_refl] show ?case by simp
next
  case (run_step s1 es os1 s' e' os' s'')
  then have "run step s ((e # es) @ [e']) ((os @ os1) @ os') s''"
    by (intro run.run_step)
  then show ?case by simp
qed

lemma play_run:
  assumes "play cx es z = Some (os, z')" and "\<And>e z. e \<in> set es \<Longrightarrow> event_ok cx e z"
  shows "run (zug_step cx) z es os z'"
  using assms
proof (induction es arbitrary: z os)
  case Nil
  then show ?case by (simp add: run_refl)
next
  case (Cons e es)
  then obtain os1 z1 os2 where "handle_event cx e z = Some (os1, z1)" "play cx es z1 = Some (os2, z')"
    "os = os1 @ os2"
    by (auto simp: Option.bind_eq_Some_conv)
  with Cons show ?case
    by (auto intro!: run_Cons simp: zug_step_def)
qed

lemma demo_events_ok: "e \<in> set demo_events \<Longrightarrow> event_ok demo_cx e z"
  by (auto simp: demo_events_def)

lemma demo_starts:
  assumes "demo_new es = Some (os, z)"
    and "\<And>z0. zug_new 3 demo_stakes [] [] demo_core demo_config None 0 0 = Some z0 \<Longrightarrow> entries_valid demo_cx z0 es"
  shows "starts demo_cx (demo_file es) os z"
  unfolding starts_def using assms demo_era_ok demo_cx_ok by (fastforce simp: demo_new_def demo_file_def)

definition demo_init :: demo_zug where
  "demo_init = snd (the (demo_new []))"

definition demo_done :: demo_zug where
  "demo_done = snd (the (play demo_cx demo_events demo_init))"

definition demo_outcomes :: "(nat, demo_hash, nat, nat, nat) outcome list" where
  "demo_outcomes = fst (the (play demo_cx demo_events demo_init))"

lemma demo_facts:
  shows "\<exists>os. demo_new [] = Some (os, demo_init)"
    and "play demo_cx demo_events demo_init = Some (demo_outcomes, demo_done)"
    and "signed_in demo_outcomes = [demo_echo, demo_vote]"
    and "finalized_in demo_outcomes = [demo_finalized]"
    and "view demo_done = (demo_rounds, Some demo_log, False, 1, 1, [])"
  using demo_run_eval
  by (auto simp: Option.bind_eq_Some_conv demo_init_def demo_done_def demo_outcomes_def split: prod.splits)

lemma demo_starts_init: "\<exists>os. starts demo_cx (demo_file []) os demo_init"
  using demo_facts(1) demo_starts by (fastforce simp: entries_valid_def)

lemma demo_run: "run (zug_step demo_cx) demo_init demo_events demo_outcomes demo_done"
  by (rule play_run [OF demo_facts(2) demo_events_ok])

section \<open>A second session\<close>

text \<open>
  The node restarts with the log of the first session. It recovers its first block and goes on to
  finalize a second one.
\<close>

definition demo_block2 :: "nat proposed_block" where
  "demo_block2 = \<lparr>pb_value = 43, pb_context = \<lparr>bc_timestamp = 1, bc_ancestor_values = [42]\<rparr>\<rparr>"

definition demo_events2 :: "(nat, demo_hash, nat, nat, nat, nat) event list" where
  "demo_events2 = [EvActivate 0 7 7 None, EvTimer 0 1 1 demo_draws, EvPropose 2 demo_block2]"

definition demo_proposal2 :: "nat proposal" where
  "demo_proposal2 = \<lparr>p_timestamp = 1, p_block = Some 43, p_parent = Some 0, p_inactive = Some []\<rparr>"

definition demo_echo2 :: "(demo_hash, nat, nat) signed_message" where
  "demo_echo2 = mk_msg 1 3 (Echo (Some demo_proposal2)) 0 7"

definition demo_vote2 :: "(demo_hash, nat, nat) signed_message" where
  "demo_vote2 = mk_msg 1 3 (Vote True) 0 7"

definition demo_log2 :: "(nat, demo_hash, nat, nat) wal_entry list" where
  "demo_log2 = demo_log @ [WalSignedMessage demo_echo2, WalProposal demo_proposal2 1, WalSignedMessage demo_vote2]"

definition demo_finalized2 :: "(nat, nat) finalized_block" where
  "demo_finalized2 =
     \<lparr>fb_value = 43, fb_timestamp = 1, fb_relative_height = 1, fb_equivocators = [],
      fb_terminal_block_data = None, fb_proposer = 7\<rparr>"

definition demo_rounds2 where
  "demo_rounds2 =
     [hd demo_rounds,
      (1 :: nat, Some \<lparr>hp_hash = Some demo_proposal2, hp_inner = demo_proposal2\<rparr>, [(Some demo_proposal2, [(0 :: nat, 7 :: nat)])],
       [Some (7 :: nat)], [None],
       \<lparr>accepted_proposal_height = Some 1, quorum_echoes_of = Some (Some demo_proposal2), quorum_votes_of = Some True\<rparr>),
      (2, None, [], [None], [None],
       \<lparr>accepted_proposal_height = None, quorum_echoes_of = None, quorum_votes_of = None\<rparr>)]"

lemma demo_run2_eval:
  "map_option (\<lambda>(os, z). (signed_in os, finalized_in os, view z))
     (do { (_, z) \<leftarrow> demo_new demo_log; play demo_cx demo_events2 z }) =
   Some ([demo_echo2, demo_vote2], [demo_finalized, demo_finalized2],
     (demo_rounds2, Some demo_log2, False, 2, 2, []))"
  by code_simp

definition demo_params :: "nat params" where
  "demo_params =
     \<lparr>instance_id = 3, min_block_time = 1, start_timestamp = 0, end_height = 5, end_timestamp = 10, ftt = 0\<rparr>"

lemma demo_validators_eval:
  "map_option (\<lambda>z. (validators_vec (validators z), total_weight (validators z), params z))
     (zug_new 3 demo_stakes [] [] demo_core demo_config None 0 0 :: demo_zug option) =
   Some ([\<lparr>v_weight = 1, v_id = 7, v_banned = False, v_can_propose = True\<rparr>], 1, demo_params)"
  by code_simp

lemma demo_log_valid:
  assumes "zug_new 3 demo_stakes [] [] demo_core demo_config None 0 0 = Some z0"
  shows "entries_valid demo_cx z0 demo_log"
  using demo_validators_eval assms
  by (auto simp: entries_valid_def demo_params_def demo_log_def demo_echo_def demo_vote_def demo_proposal_def
      msg_valid_def id_at_def verify_signature_def demo_cx_def u32_max_def)


definition demo_init2 :: demo_zug where
  "demo_init2 = snd (the (demo_new demo_log))"

definition demo_done2 :: demo_zug where
  "demo_done2 = snd (the (play demo_cx demo_events2 demo_init2))"

definition demo_outcomes2 :: "(nat, demo_hash, nat, nat, nat) outcome list" where
  "demo_outcomes2 = fst (the (play demo_cx demo_events2 demo_init2))"

lemma demo_facts2:
  shows "\<exists>os. demo_new demo_log = Some (os, demo_init2)"
    and "play demo_cx demo_events2 demo_init2 = Some (demo_outcomes2, demo_done2)"
    and "signed_in demo_outcomes2 = [demo_echo2, demo_vote2]"
    and "finalized_in demo_outcomes2 = [demo_finalized, demo_finalized2]"
    and "view demo_done2 = (demo_rounds2, Some demo_log2, False, 2, 2, [])"
  using demo_run2_eval
  by (auto simp: Option.bind_eq_Some_conv demo_init2_def demo_done2_def demo_outcomes2_def split: prod.splits)

lemma demo_starts_init2: "\<exists>os. starts demo_cx (demo_file demo_log) os demo_init2"
  using demo_facts2(1) demo_starts demo_log_valid by blast

lemma demo_run2: "run (zug_step demo_cx) demo_init2 demo_events2 demo_outcomes2 demo_done2"
  by (rule play_run [OF demo_facts2(2)]) (auto simp: demo_events2_def)

lemma demo_inv: "zug_inv demo_cx demo_done" "zug_inv demo_cx demo_done2"
  using zug_system.reachable_inv [OF _ demo_run] zug_system.reachable_inv [OF _ demo_run2]
    demo_starts_init demo_starts_init2 by blast+

lemma demo_view:
  "write_wal demo_done = Some demo_log" "\<not> evidence_only demo_done" "current_round demo_done = 1"
  "first_non_finalized_round_id demo_done = 1" "faults demo_done = []"
  "write_wal demo_done2 = Some demo_log2" "\<not> evidence_only demo_done2" "current_round demo_done2 = 2"
  "first_non_finalized_round_id demo_done2 = 2" "faults demo_done2 = []"
  using demo_facts(5) demo_facts2(5) by (simp_all add: view_def)

section \<open>The two sessions together\<close>

lemma demo_static:
  assumes "demo_new es = Some (os, z)"
    and "\<And>z0. zug_new 3 demo_stakes [] [] demo_core demo_config None 0 0 = Some z0 \<Longrightarrow> entries_valid demo_cx z0 es"
  shows "same_static (the (zug_new 3 demo_stakes [] [] demo_core demo_config None 0 0)) z"
proof -
  from zug_new_inv [OF demo_cx_ok(1,2) demo_era_ok, of 3 "[]" "[]" demo_config None 0 0] obtain z0 where
    z0: "zug_new 3 demo_stakes [] [] demo_core demo_config None 0 0 = Some z0" "zug_inv demo_cx z0" "blank z0"
    by (auto elim!: wpE)
  have "write_wal z0 = None" "entries_valid demo_cx z0 (wf_entries (demo_file es))"
    using z0(3) assms(2) [OF z0(1)] by (simp_all add: blank_def demo_file_def)
  from reaches_open_wal [OF z0(2) this, of 0] assms(1) obtain z1 where
    "reaches demo_cx z0 os z1" "opens demo_cx (wf_entries (demo_file es)) z1 z"
    by (auto simp: demo_new_def new_boxed_def z0(1))
  then show ?thesis
    using z0(1) reaches_static [of demo_cx z0 os z1] by (auto simp: opens_def same_static_def)
qed

lemma demo_same_era: "same_era demo_done demo_done2"
proof -
  let ?z0 = "the (zug_new 3 demo_stakes [] [] demo_core demo_config None 0 0 :: demo_zug option)"
  have "same_static ?z0 demo_init" "same_static ?z0 demo_init2"
    using demo_facts(1) demo_facts2(1) demo_static demo_log_valid by (fastforce simp: entries_valid_def)+
  moreover have "same_static demo_init demo_done" "same_static demo_init2 demo_done2"
    using run_static [OF demo_run] run_static [OF demo_run2] demo_starts_init demo_starts_init2 starts_inv
    by blast+
  ultimately show ?thesis
    by (simp add: same_static_def same_era_def)
qed

lemma rounds_of_view:
  assumes "map (\<lambda>(r, rd). (r, proposal rd, echoes rd, votes rd True, votes rd False, outcome_of rd)) rds = xs"
  shows "map_of rds r = None \<and> r \<notin> fst ` set xs \<or>
    (\<exists>rd p e t f oc. map_of rds r = Some rd \<and> (r, p, e, t, f, oc) \<in> set xs \<and>
      proposal rd = p \<and> echoes rd = e \<and> votes rd True = t \<and> votes rd False = f \<and> outcome_of rd = oc)"
  unfolding assms [symmetric] by (induction rds) auto

lemma signers_single:
  assumes "v \<in> signers rd c" and "echoes rd = [(h, [(0, sg)])]" and "votes rd True = [Some sg]" and "votes rd False = [None]"
  shows "c \<in> {Echo h, Vote True}"
proof (cases c)
  case (Echo h')
  with assms(1,2) show ?thesis
    by (cases "h' = h") (auto simp: signers_Echo_None)
next
  case (Vote b)
  with assms show ?thesis
    by (cases b) (auto simp: signers_Vote)
qed

lemma signers_empty:
  assumes "echoes rd = []" and "votes rd True = [None]" and "votes rd False = [None]"
  shows "signers rd c = {}"
proof (cases c)
  case (Echo h)
  with assms(1) show ?thesis
    by (simp add: signers_Echo_None)
next
  case (Vote b)
  with assms(2,3) show ?thesis
    by (cases b) (auto simp: signers_Vote nth_Cons' split: if_splits)
qed

lemma demo_attests: "attests demo_done r c v \<Longrightarrow> r = 0 \<and> c \<in> {Echo (Some demo_proposal), Vote True}"
proof -
  assume "attests demo_done r c v"
  then obtain rd where rd: "map_of (rounds demo_done) r = Some rd" "v \<in> signers rd c"
    by (auto simp: attests_def zround_def)
  have "map (\<lambda>(r, rd). (r, proposal rd, echoes rd, votes rd True, votes rd False, outcome_of rd)) (rounds demo_done) =
      demo_rounds"
    using demo_facts(5) by (simp add: view_def)
  from rounds_of_view [OF this, of r] rd show ?thesis
    using signers_single [OF rd(2)] signers_empty [of rd c] by (auto simp: demo_rounds_def)
qed

lemma demo_attests2: "attests demo_done2 0 c v \<Longrightarrow> c \<in> {Echo (Some demo_proposal), Vote True}"
proof -
  assume "attests demo_done2 0 c v"
  then obtain rd where rd: "map_of (rounds demo_done2) 0 = Some rd" "v \<in> signers rd c"
    by (auto simp: attests_def zround_def)
  have "map (\<lambda>(r, rd). (r, proposal rd, echoes rd, votes rd True, votes rd False, outcome_of rd)) (rounds demo_done2) =
      demo_rounds2"
    using demo_facts2(5) by (simp add: view_def)
  from rounds_of_view [OF this, of 0] rd show ?thesis
    using signers_single [OF rd(2)] by (auto simp: demo_rounds_def demo_rounds2_def)
qed

lemma demo_faults_within: "faults_within {} demo_done demo_done2"
  using demo_attests demo_attests2
  by (fastforce simp: faults_within_def weight_of_set_def faulty_set_def demo_view)

lemma demo_operating: "operating demo_done" "operating demo_done2"
  by (simp_all add: operating_def demo_view u32_max_def)

section \<open>The last call of the first session\<close>

lemma play_append:
  "play cx (es @ es') z =
    do { (os, z) \<leftarrow> play cx es z; (os', z) \<leftarrow> play cx es' z; Some (os @ os', z) }"
  by (induction es arbitrary: z) (auto simp: Option.bind_eq_Some_conv split: Option.bind_split)

definition demo_pending :: demo_zug where
  "demo_pending = snd (the (play demo_cx (take 2 demo_events) demo_init))"

definition demo_last_outcomes :: "(nat, demo_hash, nat, nat, nat) outcome list" where
  "demo_last_outcomes = fst (the (handle_event demo_cx (EvPropose 1 demo_block) demo_pending))"

lemma demo_last_step:
  "handle_event demo_cx (EvPropose 1 demo_block) demo_pending = Some (demo_last_outcomes, demo_done)"
  and demo_play_pending: "\<exists>os. play demo_cx (take 2 demo_events) demo_init = Some (os, demo_pending)"
proof -
  have "play demo_cx (take 2 demo_events @ [EvPropose 1 demo_block]) demo_init = Some (demo_outcomes, demo_done)"
    using demo_facts(2) by (simp add: demo_events_def)
  then show "handle_event demo_cx (EvPropose 1 demo_block) demo_pending = Some (demo_last_outcomes, demo_done)"
    and "\<exists>os. play demo_cx (take 2 demo_events) demo_init = Some (os, demo_pending)"
    unfolding play_append
    by (auto simp: Option.bind_eq_Some_conv demo_pending_def demo_last_outcomes_def)
qed

lemma demo_run_pending: "\<exists>os. run (zug_step demo_cx) demo_init (take 2 demo_events) os demo_pending"
  using demo_play_pending play_run demo_events_ok by (meson in_set_takeD)

lemma demo_validators:
  "validators_vec (validators demo_done) = [\<lparr>v_weight = 1, v_id = 7, v_banned = False, v_can_propose = True\<rparr>]"
  "total_weight (validators demo_done) = 1" "params demo_done = demo_params"
proof -
  have "same_static (the (zug_new 3 demo_stakes [] [] demo_core demo_config None 0 0) :: demo_zug) demo_done"
    using demo_static demo_facts(1) run_static [OF demo_run] demo_starts_init starts_inv
    by (fastforce simp: same_static_def entries_valid_def)
  then show "validators_vec (validators demo_done) = [\<lparr>v_weight = 1, v_id = 7, v_banned = False, v_can_propose = True\<rparr>]"
    "total_weight (validators demo_done) = 1" "params demo_done = demo_params"
    using demo_validators_eval by (auto simp: same_static_def)
qed

lemma demo_nvals: "nvals demo_done = 1"
  by (simp add: vs_len_def demo_validators)

lemma demo_quorum: "is_quorum demo_done [0] = Some True"
  using is_quorum_exact [OF zug_inv_validators_wf [OF demo_inv(1)] zug_inv_faults_wf [OF demo_inv(1)], of "[0]"]
  by (simp add: demo_nvals quorum_def unat_quorum_threshold demo_validators faulty_set_def demo_view
      weight_of_set_def weight_nat_def demo_params_def)

lemma demo_round:
  obtains rd where "zround demo_done 0 = Some rd"
    "proposal rd = Some \<lparr>hp_hash = Some demo_proposal, hp_inner = demo_proposal\<rparr>"
    "echoes rd = [(Some demo_proposal, [(0, 7)])]" "votes rd True = [Some 7]" "votes rd False = [None]"
    "outcome_of rd = \<lparr>accepted_proposal_height = Some 0, quorum_echoes_of = Some (Some demo_proposal),
      quorum_votes_of = Some True\<rparr>"
proof -
  have "map (\<lambda>(r, rd). (r, proposal rd, echoes rd, votes rd True, votes rd False, outcome_of rd)) (rounds demo_done) =
      demo_rounds"
    using demo_facts(5) by (simp add: view_def)
  from rounds_of_view [OF this, of 0] that show ?thesis
    by (auto simp: demo_rounds_def zround_def)
qed

lemma demo_accepted:
  "accepted_proposal demo_done 0 = Some (0, \<lparr>hp_hash = Some demo_proposal, hp_inner = demo_proposal\<rparr>)"
  by (rule demo_round) (simp add: accepted_proposal_def round_accepted_proposal_def)

section \<open>Catching up after the restart\<close>

text \<open>The log brings back the messages of the first round, which is then still to be finalized.\<close>

lemma demo_catch_up_eval:
  "map_option (\<lambda>(_, z). (first_non_finalized_round_id z, current_round z,
      map_option (\<lambda>(_, z'). (has_accepted_proposal z' 0, is_committed_round z' 0)) (update_round demo_cx 0 5 z)))
     (demo_new demo_log) = Some (0, 0, Some (True, True))"
  by code_simp

lemma demo_catch_up:
  "first_non_finalized_round_id demo_init2 = 0" "current_round demo_init2 = 0"
  "update_round demo_cx 0 5 demo_init2 = Some (os, z') \<Longrightarrow> has_accepted_proposal z' 0 \<and> is_committed_round z' 0"
  using demo_catch_up_eval demo_facts2(1) by auto

lemma demo_inv_init2: "zug_inv demo_cx demo_init2"
  using demo_starts_init2 starts_inv by blast

end
