(* ===== verification/Zug_Properties.thy ===== *)
theory Zug_Properties
  imports Zug_Example
begin

text \<open>
  The properties of whole runs of a Zug instance: it never panics, its blocks form one growing chain,
  two instances agree, it never signs contradicting messages, also after a restart, and it logs what
  it signs. Each property that has hypotheses comes with a witness on the run of \<open>Zug_Example\<close>.
\<close>

section \<open>Safety\<close>

text \<open>C1. Agreement: two nodes of the same era, whatever calls they have handled, have finalized chains
  of which one is a prefix of the other, provided that all validators outside a set \<open>B\<close> of at most the
  fault tolerance threshold have not signed contradicting messages and neither node knows of faults
  outside \<open>B\<close>.\<close>

theorem agreement:
  assumes "starts cx file os0 z0" and "run (zug_step cx) z0 es os z"
    and "starts cx file' os0' z0'" and "run (zug_step cx) z0' es' os' z'"
    and "operating z" and "operating z'" and "same_era z z'" and "faults_within B z z'"
  shows "prefix (finalized_chain cx z) (finalized_chain cx z') \<or>
    prefix (finalized_chain cx z') (finalized_chain cx z)"
proof -
  have inv: "zug_inv cx z" "zug_inv cx z'"
    using zug_system.run_inv [OF assms(2) starts_inv [OF assms(1)]]
      zug_system.run_inv [OF assms(4) starts_inv [OF assms(3)]] by simp_all
  have "same_era z' z"
    using assms(7) by (simp add: same_era_def)
  with finalized_agree_le [OF inv assms(5-8)] finalized_agree_le [OF inv(2,1) assms(6,5)]
    faults_within_sym [OF assms(7,8)] show ?thesis
    by (meson nat_le_linear)
qed

theorem agreement_witness:
  "(prefix (finalized_chain demo_cx demo_done) (finalized_chain demo_cx demo_done2) \<or>
     prefix (finalized_chain demo_cx demo_done2) (finalized_chain demo_cx demo_done)) \<and>
   first_non_finalized_round_id demo_done = 1 \<and> first_non_finalized_round_id demo_done2 = 2"
  using agreement [OF _ demo_run _ demo_run2 demo_operating demo_same_era demo_faults_within]
    demo_starts_init demo_starts_init2 by (auto simp: demo_view)

text \<open>C8. One chain: the blocks finalized by a call extend the chain finalized before it, in order.
  They are exactly the blocks announced by its outcomes, unless the call drops its outcomes and
  returns nothing or a request to disconnect the sender.\<close>

theorem finalized_chain_grows:
  assumes "starts cx file os0 z0" and "run (zug_step cx) z0 es os z"
    and "event_ok cx e z" and "handle_event cx e z = Some (os', z')" and "operating z'"
  shows "\<exists>blocks. finalized_chain cx z' = finalized_chain cx z @ blocks \<and>
    (finalized_in os' = blocks \<or> os' = [] \<or> (\<exists>s. os' = [Disconnect s]))"
proof -
  have "zug_step cx z e os' z'"
    using assms(3,4) by (simp add: zug_step_def)
  from zug_step_advances [OF zug_system.run_inv [OF assms(2) starts_inv [OF assms(1)]] this]
    assms(5) show ?thesis
    by (blast dest: advances_finalized)
qed

theorem finalized_chain_grows_witness:
  "\<exists>blocks. finalized_chain demo_cx demo_done = finalized_chain demo_cx demo_pending @ blocks \<and>
    (finalized_in demo_last_outcomes = blocks \<or> demo_last_outcomes = [] \<or>
      (\<exists>s. demo_last_outcomes = [Disconnect s]))"
proof -
  from demo_run_pending demo_starts_init obtain os os' where
    "starts demo_cx (demo_file []) os demo_init"
    "run (zug_step demo_cx) demo_init (take 2 demo_events) os' demo_pending"
    by blast
  from finalized_chain_grows [OF this _ demo_last_step demo_operating(1)] show ?thesis
    by simp
qed

text \<open>C11. Heights: the finalized blocks of a node have strictly increasing relative heights, and a
  block at height \<open>k\<close> has exactly the \<open>k\<close> accepted proposals of the rounds before it on its chain as
  ancestors.\<close>

theorem finalized_heights_ascend:
  assumes "starts cx file os0 z0" and "run (zug_step cx) z0 es os z" and "operating z"
  shows "sorted_wrt (<) (map fb_relative_height (finalized_chain cx z)) \<and>
    (\<forall>b \<in> set (finalized_chain cx z). \<exists>r hp. acc (rounds z) r = Some (fb_relative_height b, hp) \<and>
       maybe_block hp = Some (fb_value b) \<and>
       length (chain_ids (rounds z) r) = Suc (fb_relative_height b))"
proof -
  note inv = zug_system.run_inv [OF assms(2) starts_inv [OF assms(1)]]
  let ?h = "\<lambda>x. fst (the (acc (rounds z) x))"
  have "sorted_wrt (<) (map ?h (finalized_ids z))"
    unfolding finalized_heights(2) [OF inv assms(3)] by simp
  then have "sorted_wrt (<) (map fb_relative_height (finalized_chain cx z))"
    unfolding finalized_heights(1) [OF inv assms(3)] by (simp add: sorted_wrt_map sorted_wrt_filter)
  moreover have "\<exists>r hp. acc (rounds z) r = Some (fb_relative_height b, hp) \<and>
      maybe_block hp = Some (fb_value b) \<and> length (chain_ids (rounds z) r) = Suc (fb_relative_height b)"
    if b: "b \<in> set (finalized_chain cx z)" for b
  proof -
    from b obtain r k hp where
      "acc (rounds z) r = Some (k, hp)" "b \<in> set (block_for cx (validators z) (params z) (leader_sequence z) r k hp)"
      by (auto simp: finalized_chain_def chain_blocks_def split: option.splits dest: sym)
    moreover from this(2) have "fb_relative_height b = k" "maybe_block hp = Some (fb_value b)"
      by (auto simp: block_for_def split: option.splits)
    ultimately show ?thesis
      using chain_ids_props [OF zug_invD(6) [OF inv]] by blast
  qed
  ultimately show ?thesis by blast
qed

theorem finalized_heights_ascend_witness:
  "sorted_wrt (<) (map fb_relative_height (finalized_chain demo_cx demo_done2)) \<and>
   first_non_finalized_round_id demo_done2 = 2"
  using finalized_heights_ascend [OF _ demo_run2 demo_operating(2)] demo_starts_init2 by (auto simp: demo_view)

section \<open>No panics\<close>

text \<open>C5. No call of the \<open>ConsensusProtocol\<close> interface panics in any state a node can get into,
  whatever messages its peers send, and the state after it satisfies the invariant.\<close>

theorem no_panic:
  assumes "starts cx file os0 z0" and "run (zug_step cx) z0 es os z" and "event_ok cx e z"
  shows "\<exists>os' z'. handle_event cx e z = Some (os', z') \<and> zug_inv cx z'"
proof -
  have "zug_inv cx z"
    by (rule zug_system.run_inv [OF assms(2) starts_inv [OF assms(1)]])
  from handle_event_advances [OF this assms(3)] show ?thesis
    by (auto elim!: wpE dest: advances_inv)
qed

theorem no_panic_witness:
  "\<exists>os' z'. handle_event demo_cx (EvPropose 1 demo_block) demo_pending = Some (os', z') \<and> zug_inv demo_cx z'"
proof -
  from demo_run_pending demo_starts_init obtain os os' where
    "starts demo_cx (demo_file []) os demo_init"
    "run (zug_step demo_cx) demo_init (take 2 demo_events) os' demo_pending"
    by blast
  from no_panic [OF this] show ?thesis
    by simp
qed

text \<open>C13. A new instance: for every era with validators and a valid log file, \<open>new_boxed\<close> returns a
  valid state with the validators computed from the stakes, not active, and with the log open only if
  every message of ours in it has been recovered.\<close>

theorem new_boxed_valid:
  assumes "collision_free cx" and "gen_in_range (cx_gen cx)" and "era_ok stakes core"
    and "\<forall>z0. zug_new inst stakes faulty inactive core cfg prev start seed = Some z0 \<longrightarrow>
      entries_valid cx z0 (wf_entries file)"
  shows "\<exists>os z. new_boxed cx inst stakes faulty inactive core cfg prev start seed now file = Some (os, z) \<and>
    zug_inv cx z \<and>
    (\<forall>m. write_wal z \<noteq> None \<longrightarrow> \<not> evidence_only z \<longrightarrow> WalSignedMessage m \<in> set (wf_entries file) \<longrightarrow> kept z m)"
proof -
  from new_boxed_spec [where now = now, OF assms] obtain os z z0 z1 where
    1: "new_boxed cx inst stakes faulty inactive core cfg prev start seed now file = Some (os, z)"
      "blank z0" "reaches cx z0 os z1" "opens cx (wf_entries file) z1 z"
    by (rule wpE2) blast
  have "write_wal z1 = None"
    using reaches_closed [OF 1(3)] 1(2) by (simp add: blank_def)
  then have "kept z m" if "write_wal z \<noteq> None" "\<not> evidence_only z" "WalSignedMessage m \<in> set (wf_entries file)" for m
    using that 1(4) opens_kept [OF 1(4), of m] by (auto simp: opens_def list_all_iff recovered_def)
  with 1(1) opens_inv [OF 1(4) reaches_inv [OF 1(3)]] show ?thesis
    by blast
qed

theorem new_boxed_valid_witness:
  "\<exists>os z. demo_new demo_log = Some (os, z) \<and> zug_inv demo_cx z"
  using new_boxed_valid [of demo_cx demo_stakes demo_core 3 "[]" "[]" demo_config None 0 0 "demo_file demo_log" 0,
      OF demo_cx_ok(1,2) demo_era_ok] demo_log_valid
  by (auto simp: demo_new_def demo_file_def)

section \<open>Signing\<close>

text \<open>C2. No double signing, also after a restart: if every log file the node reads holds the messages
  \<open>M\<close> it has signed in earlier sessions, the messages it signs now contradict neither each other nor
  those of the earlier sessions, as long as it is not put in evidence-only mode.\<close>

theorem no_double_signing:
  assumes "starts cx file os0 z0" and "run (zug_step cx) z0 es os z" and "\<not> evidence_only z"
    and "consistent M" and "logged M file"
    and "\<forall>e \<in> set es. \<forall>f. event_file e = Some f \<longrightarrow> logged M f"
  shows "consistent (M \<union> set (signed_in os))"
  using session_run [OF assms(2) starts_inv [OF assms(1)] starts_session [OF assms(1,5,4)]] assms(3,6)
  by (simp add: session_def)

theorem no_double_signing_witness:
  "consistent ({demo_echo, demo_vote} \<union> {demo_echo2, demo_vote2})"
proof -
  from demo_starts_init2 obtain os where "starts demo_cx (demo_file demo_log) os demo_init2"
    by blast
  from no_double_signing [OF this demo_run2 demo_view(7), of "{demo_echo, demo_vote}"] show ?thesis
    by (simp add: demo_facts2(3) demo_events2_def logged_def demo_file_def demo_log_def consistent_def
        demo_echo_def demo_vote_def)
qed

text \<open>C12. Logging: as long as the write-ahead log is open and not reopened, it only grows, and it
  holds every message the node has sent since.\<close>

theorem signed_messages_logged:
  assumes "starts cx file os0 z0" and "run (zug_step cx) z0 es os z" and "write_wal z = Some w"
    and "\<forall>e \<in> set es. event_file e = None"
  shows "\<exists>w0. write_wal z0 = Some w0 \<and> prefix w0 w \<and> (\<forall>m \<in> set (signed_in os). WalSignedMessage m \<in> set w)"
  using run_wal [OF assms(2) starts_inv [OF assms(1)] assms(3)] assms(4) by auto

theorem signed_messages_logged_witness:
  "WalSignedMessage demo_echo2 \<in> set demo_log2 \<and> WalSignedMessage demo_vote2 \<in> set demo_log2"
proof -
  from demo_starts_init2 obtain os where "starts demo_cx (demo_file demo_log) os demo_init2"
    by blast
  from signed_messages_logged [OF this demo_run2 demo_view(6)] show ?thesis
    by (auto simp: demo_facts2(3) demo_events2_def)
qed

section \<open>Quorums\<close>

text \<open>C16. The quorum threshold is exactly half of the sum of total weight and fault tolerance
  threshold, rounded down, also where that sum overflows 64 bits.\<close>

theorem quorum_threshold_exact:
  "unat (quorum_threshold z) = (unat (total_weight (validators z)) + unat (ftt (params z))) div 2"
  by (rule unat_quorum_threshold)

text \<open>C15. \<open>is_quorum\<close>, which stops adding weights as soon as the threshold is exceeded, decides whether
  the weight of the given and the faulty validators, each counted once, exceeds the threshold.\<close>

theorem is_quorum_iff_weight:
  assumes "zug_inv cx z" and "distinct vidxs" and "set vidxs \<subseteq> {..<nvals z}"
  shows "is_quorum z vidxs =
    Some ((unat (total_weight (validators z)) + unat (ftt (params z))) div 2 <
      weight_of_set (validators z) (faulty_set z \<union> set vidxs))"
  using is_quorum_exact [OF zug_inv_validators_wf [OF assms(1)] zug_inv_faults_wf [OF assms(1)] assms(2,3)]
  by (simp add: quorum_def unat_quorum_threshold)

theorem is_quorum_iff_weight_witness: "is_quorum demo_done [0] = Some True"
  using is_quorum_iff_weight [OF demo_inv(1), of "[0]"]
  by (simp add: demo_nvals demo_validators demo_params_def weight_of_set_def weight_nat_def faulty_set_def demo_view)

text \<open>C14. Two quorums have a validator in common that is not in \<open>B\<close>, for every set \<open>B\<close> of at most the
  fault tolerance threshold that includes the known faulty ones.\<close>

theorem quorums_intersect:
  assumes "zug_inv cx z" and "is_quorum z xs = Some True" and "is_quorum z ys = Some True"
    and "distinct xs" and "set xs \<subseteq> {..<nvals z}" and "distinct ys" and "set ys \<subseteq> {..<nvals z}"
    and "faulty_set z \<subseteq> B" and "B \<subseteq> {..<nvals z}"
    and "weight_of_set (validators z) B \<le> unat (ftt (params z))"
  shows "\<exists>v \<in> set xs \<inter> set ys. v \<notin> B"
proof -
  note wf = zug_inv_validators_wf [OF assms(1)] zug_inv_faults_wf [OF assms(1)]
  have "quorum z (set xs)" "quorum z (set ys)"
    using is_quorum_exact [OF wf] assms(2-7) by auto
  then have "quorum_set (validators z) (unat (ftt (params z))) (faulty_set z \<union> set xs)"
    "quorum_set (validators z) (unat (ftt (params z))) (faulty_set z \<union> set ys)"
    using quorum_set_quorum [OF wf] assms(5,7) by auto
  from validator_quorums.quorum_correct_member [OF this, of B] assms(8-10) show ?thesis
    by (auto simp: weight_of_set_def Int_absorb2)
qed

theorem quorums_intersect_witness:
  "is_quorum demo_done [0] = Some True \<and> (\<exists>v \<in> set [0] \<inter> set [0]. v \<notin> faulty_set demo_done)"
  using quorums_intersect [OF demo_inv(1) demo_quorum demo_quorum, of "faulty_set demo_done"] demo_quorum
  by (simp add: demo_nvals demo_view faulty_set_def weight_of_set_def)

section \<open>Finalizing and updating\<close>

text \<open>C17. The recursive \<open>finalize_round\<close> returns for every accepted round and does one atomic step: it
  announces the blocks of the ancestors of the round that have not been finalized, oldest first,
  prunes the rounds in between that are not ancestors, and moves the finality boundary.\<close>

theorem finalize_round_atomic:
  assumes "zug_inv cx z" and "has_accepted_proposal z r"
  shows "\<exists>res. finalize_round cx r z = Some res \<and> finalized cx r z res"
proof -
  from assms(2) obtain k hp where "acc (rounds z) r = Some (k, hp)"
    by (auto simp: has_accepted_proposal_acc)
  from finalize_round_eq [OF assms(1) this] show ?thesis .
qed

theorem finalize_round_atomic_witness:
  "\<exists>res. finalize_round demo_cx 0 demo_done = Some res \<and> finalized demo_cx 0 demo_done res"
  by (rule finalize_round_atomic [OF demo_inv(1)]) (simp add: has_accepted_proposal_def demo_accepted)

text \<open>C18. \<open>update\<close>, with its loops over rounds, ancestors and waiting proposals, terminates without a
  panic in every valid state and leaves a valid state with the same validators and parameters.\<close>

theorem update_terminates:
  assumes "zug_inv cx z"
  shows "\<exists>os z'. update cx now z = Some (os, z') \<and> zug_inv cx z' \<and>
    validators z' = validators z \<and> params z' = params z"
proof -
  from reaches_update [OF reaches_refl [OF assms], of now] obtain os z' where
    "update cx now z = Some (os, z')" "reaches cx z ([] @ os) z'"
    by (rule wpE2)
  then show ?thesis
    using reaches_inv reaches_static by (fastforce simp: same_static_def)
qed

theorem update_terminates_witness:
  "\<exists>os z'. update demo_cx 5 demo_done = Some (os, z') \<and> zug_inv demo_cx z' \<and>
    validators z' = validators demo_done \<and> params z' = params demo_done"
  by (rule update_terminates [OF demo_inv(1)])

definition suitable :: "('v, 'h, 's, 'i, 'k, 'x) zug \<Rightarrow> round_id \<Rightarrow> round_id option \<times> timestamp \<Rightarrow> bool" where
  "suitable z n p =
     (case p of
        (None, ts) \<Rightarrow> ts = start_timestamp (params z) \<and> (\<forall>x<n. is_skippable_round z x)
      | (Some q, ts) \<Rightarrow>
          q < n \<and> (\<forall>x. q < x \<and> x < n \<longrightarrow> is_skippable_round z x) \<and>
          (\<exists>k hp. accepted_proposal z q = Some (k, hp) \<and>
             ts = sat_add64 (hp_timestamp hp) (min_block_time (params z))))"

lemma suitable_parent_loop_suitable:
  assumes "suitable_parent_loop z now mp r = Some p" and "r \<le> n"
    and "\<And>x. r \<le> x \<Longrightarrow> x < n \<Longrightarrow> is_skippable_round z x" and "\<And>p. mp = Some p \<Longrightarrow> suitable z n p"
  shows "suitable z n p"
  using assms
proof (induction r arbitrary: mp)
  case 0
  then show ?case by (auto simp: suitable_def)
next
  case (Suc r)
  have below: "suitable z n p"
    if "(if \<not> is_skippable_round z r then mp' else suitable_parent_loop z now mp' r) = Some p"
      "\<And>p. mp' = Some p \<Longrightarrow> suitable z n p" for mp'
  proof (cases "is_skippable_round z r")
    case True
    have "is_skippable_round z x" if "r \<le> x" "x < n" for x
      using Suc.prems(3) True that by (cases "x = r") auto
    with True that Suc.prems(2) Suc.IH [of mp'] show ?thesis by simp
  qed (use that in simp)
  show ?case
  proof (cases "accepted_proposal z r")
    case None
    with Suc.prems below [of mp] show ?thesis by simp
  next
    case (Some a)
    obtain k hp where a: "a = (k, hp)" by (cases a)
    let ?ts = "sat_add64 (hp_timestamp hp) (min_block_time (params z))"
    have here: "suitable z n (Some r, ?ts)"
      using Some a Suc.prems(2,3) by (auto simp: suitable_def)
    let ?mp = "case mp of None \<Rightarrow> Some (Some r, ?ts) | Some (_, ts2) \<Rightarrow> if ?ts < ts2 then Some (Some r, ?ts) else mp"
    have mp: "suitable z n p" if "?mp = Some p" for p
      using that here Suc.prems(4) by (auto split: option.splits if_splits)
    show ?thesis
      using Suc.prems(1) Some a here below [OF _ mp] by (simp add: Let_def split: if_splits)
  qed
qed

text \<open>C19. The parent for a new proposal: if \<open>suitable_parent_round\<close> suggests round \<open>q\<close>, its proposal is
  accepted and every round between \<open>q\<close> and the current one is skippable; if it suggests no parent, all
  rounds before the current one are skippable. The suggested time respects the minimum block time.\<close>

theorem suitable_parent_round_suitable:
  assumes "suitable_parent_round z now = Some p"
  shows "suitable z (current_round z) p"
  by (rule suitable_parent_loop_suitable [OF assms [unfolded suitable_parent_round_def]]) simp_all

theorem suitable_parent_round_suitable_witness: "suitable demo_done 1 (Some 0, 1)"
  using suitable_parent_round_suitable [of demo_done 5]
  by (simp add: suitable_parent_round_def demo_view demo_accepted demo_validators demo_params_def sat_add64_def
      u64_max_def demo_proposal_def)

section \<open>Timeouts\<close>




section \<open>Faults\<close>

lemma find_echo_complete:
  assumes "map_of es h' = Some m" and "map_of m v = Some sg" and "h' \<noteq> h"
  shows "find_echo h v es \<noteq> None"
  using assms by (induction h v es rule: find_echo.induct) (auto split: if_splits option.splits)

lemma detect_fault_iff:
  assumes inv: "zug_inv cx z" and m: "msg_valid cx (validators z) (instance_id (params z)) m"
    and res: "detect_fault z m = Some res"
  shows "res \<noteq> None \<longleftrightarrow> (\<exists>rd c2 sg2. zround z (sm_round_id m) = Some rd \<and>
    holds rd c2 (sm_validator_idx m) sg2 \<and> contradicts (sm_content m) c2)"
proof (cases "zround z (sm_round_id m)")
  case None
  with res show ?thesis by (simp add: detect_fault_def)
next
  case (Some rd)
  let ?v = "sm_validator_idx m"
  note wf = round_inv_wf [OF zug_inv_round [OF inv Some]]
  show ?thesis
  proof (cases "sm_content m")
    case (Echo h)
    have res_eq: "res = find_echo h ?v (echoes rd)"
      using res Some Echo by (simp add: detect_fault_def)
    have "(\<exists>c2 sg2. holds rd c2 ?v sg2 \<and> contradicts (Echo h) c2) \<longleftrightarrow>
        (\<exists>h' em sg. h' \<noteq> h \<and> map_of (echoes rd) h' = Some em \<and> map_of em ?v = Some sg)" (is "?l \<longleftrightarrow> ?r")
    proof
      assume ?l
      then obtain c2 sg2 where "holds rd c2 ?v sg2" "contradicts (Echo h) c2" by blast
      then show ?r by (cases c2) (auto split: option.splits)
    next
      assume ?r
      then obtain h' em sg where "h' \<noteq> h" "map_of (echoes rd) h' = Some em" "map_of em ?v = Some sg" by blast
      then show ?l by (intro exI [of _ "Echo h'"] exI [of _ sg]) auto
    qed
    moreover have ?r if "res \<noteq> None"
      using that find_echo_Some [of h ?v "echoes rd", OF _ round_wf_echoes [OF wf]] unfolding res_eq by fastforce
    moreover have "res \<noteq> None" if ?r
      using that find_echo_complete [of "echoes rd"] unfolding res_eq by blast
    ultimately show ?thesis using Some Echo by auto
  next
    case (Vote b)
    have "?v < length (votes rd (\<not> b))"
      using msg_valid_less [OF m] round_wf_votes [OF wf] by simp
    then have "res \<noteq> None \<longleftrightarrow> (\<exists>sg. votes rd (\<not> b) ! ?v = Some sg)"
      using res Some Vote by (auto simp: detect_fault_def vmap_get_def)
    moreover have "(\<exists>c2 sg2. holds rd c2 ?v sg2 \<and> contradicts (Vote b) c2) \<longleftrightarrow> (\<exists>sg. holds rd (Vote (\<not> b)) ?v sg)"
      (is "?l \<longleftrightarrow> ?r")
    proof
      assume ?l
      then obtain c2 sg2 where "holds rd c2 ?v sg2" "contradicts (Vote b) c2" by blast
      then show ?r by (cases c2) (auto simp del: holds.simps)
    qed (auto simp del: holds.simps)
    ultimately show ?thesis
      using Some Vote \<open>?v < length (votes rd (\<not> b))\<close> by (auto simp: vmap_get_def)
  qed
qed

text \<open>C20. \<open>detect_fault\<close> returns evidence exactly when the round of a message holds a contradicting
  message of the same validator, and the evidence is validly signed by that validator.\<close>

theorem detect_fault_exact:
  assumes "zug_inv cx z" and "msg_valid cx (validators z) (instance_id (params z)) m"
  shows "\<exists>res. detect_fault z m = Some res \<and>
    (res \<noteq> None \<longleftrightarrow> (\<exists>rd c2 sg2. zround z (sm_round_id m) = Some rd \<and>
       holds rd c2 (sm_validator_idx m) sg2 \<and> contradicts (sm_content m) c2)) \<and>
    (\<forall>c2 sg2. res = Some (c2, sg2) \<longrightarrow> evidence_valid cx (validators z) (instance_id (params z)) m c2 sg2)"
  using detect_fault_evidence [OF assms] detect_fault_iff [OF assms] by blast

theorem detect_fault_exact_witness:
  "let m = \<lparr>sm_round_id = 0, sm_instance_id = 3, sm_content = Vote False, sm_validator_idx = 0, sm_signature = 7\<rparr>
   in \<exists>res. detect_fault demo_done m = Some res \<and> res \<noteq> None"
proof -
  let ?m = "\<lparr>sm_round_id = 0, sm_instance_id = 3, sm_content = Vote False, sm_validator_idx = 0, sm_signature = 7\<rparr>
    :: (demo_hash, nat, nat) signed_message"
  have m: "msg_valid demo_cx (validators demo_done) (instance_id (params demo_done)) ?m"
    by (simp add: msg_valid_def demo_validators demo_params_def demo_cx_def id_at_def verify_signature_def u32_max_def)
  obtain rd where "zround demo_done 0 = Some rd" "holds rd (Vote True) 0 7"
    by (rule demo_round) auto
  with detect_fault_exact [OF demo_inv(1) m] show ?thesis
    unfolding Let_def by (metis contradicts.simps(1) signed_message.select_convs(1,3,4))
qed

section \<open>Participation\<close>


section \<open>Progress\<close>

text \<open>C28. A round that has an accepted proposal and a quorum of votes for it does not stay open:
  \<open>update_round\<close> of a round returns, and if the round is accepted and committed in the state it leaves, the
  round has been finalized and the node has moved on to a later one.\<close>

theorem committed_round_finalized:
  assumes "zug_inv cx z" and "r \<le> current_round z" and "r < u32_max"
  shows "\<exists>os z'. update_round cx r now z = Some (os, z') \<and> zug_inv cx z' \<and>
    (has_accepted_proposal z' r \<longrightarrow> is_committed_round z' r \<longrightarrow>
      r < current_round z' \<and> r < first_non_finalized_round_id z')"
proof -
  from reaches_update_round [OF reaches_refl [OF assms(1)] assms(2), of now] obtain os z' where
    "update_round cx r now z = Some (os, z')" "reaches cx z ([] @ os) z'"
    "r < u32_max \<longrightarrow> acc (rounds z') r \<noteq> None \<longrightarrow> committed (rounds z') r \<longrightarrow>
      r < current_round z' \<and> r < first_non_finalized_round_id z'"
    by (rule wpE2) blast
  with assms(3) show ?thesis
    using reaches_inv by (auto simp: has_accepted_proposal_acc is_committed_round_iff)
qed

theorem committed_round_finalized_witness:
  "first_non_finalized_round_id demo_init2 = 0 \<and>
    (\<exists>os z'. update_round demo_cx 0 5 demo_init2 = Some (os, z') \<and> 0 < current_round z' \<and>
      0 < first_non_finalized_round_id z')"
proof -
  from committed_round_finalized [OF demo_inv_init2, of 0 5] obtain os z' where
    z': "update_round demo_cx 0 5 demo_init2 = Some (os, z')"
    "has_accepted_proposal z' 0 \<longrightarrow> is_committed_round z' 0 \<longrightarrow> 0 < current_round z' \<and> 0 < first_non_finalized_round_id z'"
    by (auto simp: demo_catch_up u32_max_def)
  with demo_catch_up(3) [OF z'(1)] demo_catch_up(1) show ?thesis by blast
qed

section \<open>Validators and leaders\<close>

text \<open>C29. The validators of an era: for any stakes whose sum is positive and fits into 512 bits the scaling
  to 64-bit weights neither overflows nor panics, and gives a well-formed set of validators with a
  positive total weight in which someone may propose.\<close>

theorem validators_well_formed:
  assumes "distinct (map fst stakes)" and "length stakes < 2 ^ 32"
    and "0 < sum_list (map snd stakes)" and "sum_list (map snd stakes) < 2 ^ 512"
  shows "\<exists>vs. common_validators faulty inactive stakes = Some vs \<and> validators_wf vs \<and>
    vs_len vs = length stakes \<and> has_proposer vs \<and> 0 < total_weight vs"
proof -
  from common_validators_wp [OF assms, of faulty inactive] obtain vs where
    "common_validators faulty inactive stakes = Some vs" "validators_wf vs" "vs_len vs = length stakes"
    "has_proposer vs" "0 < unat (total_weight vs)"
    by (rule wpE) blast
  then show ?thesis
    by (auto simp: word_less_nat_alt)
qed

theorem validators_well_formed_witness:
  "\<exists>vs. common_validators [7] [8] [(7 :: nat, 100), (8, 2 ^ 500), (9, 3)] = Some vs \<and> validators_wf vs \<and>
    vs_len vs = 3 \<and> has_proposer vs \<and> 0 < total_weight vs"
proof -
  let ?stakes = "[(7 :: nat, 100), (8, 2 ^ 500), (9, 3)] :: (nat \<times> nat) list"
  have "length ?stakes = 3" by simp
  moreover have "\<exists>vs. common_validators [7] [8] ?stakes = Some vs \<and> validators_wf vs \<and>
      vs_len vs = length ?stakes \<and> has_proposer vs \<and> 0 < total_weight vs"
    by (rule validators_well_formed) simp_all
  ultimately show ?thesis by (simp only:)
qed

text \<open>C32. Leaders: with a random number generator that stays within its range, every slot has a leader,
  who may propose and has a positive weight.\<close>

theorem leader_may_propose:
  assumes "leader_sequence_new seed ws can = Some ls"
    and "length ws \<le> 2 ^ 32" and "length can = length ws" and "gen_in_range gen"
    and "\<exists>i < length ws. can ! i \<and> ws ! i \<noteq> 0"
  shows "\<exists>i < length ws. leader gen ls slot = Some i \<and> can ! i \<and> ws ! i \<noteq> 0"
  by (rule leader_of_new [OF assms])

theorem leader_may_propose_witness:
  "\<exists>i < 2. leader (\<lambda>_ _. 0) \<lparr>cumulative_w = [3, 7], cumulative_w_leaders = [0, 4], ls_leaders = [False, True], ls_seed = 1\<rparr> 6 = Some i \<and>
    [False, True] ! i \<and> [3, 4 :: weight] ! i \<noteq> 0"
proof -
  have "leader_sequence_new 1 [3, 4] [False, True] =
      Some \<lparr>cumulative_w = [3, 7], cumulative_w_leaders = [0, 4], ls_leaders = [False, True], ls_seed = 1\<rparr>"
    by code_simp
  then have "\<exists>i < length [3, 4 :: weight]. leader (\<lambda>_ _. 0) \<lparr>cumulative_w = [3, 7], cumulative_w_leaders = [0, 4],
      ls_leaders = [False, True], ls_seed = 1\<rparr> 6 = Some i \<and> [False, True] ! i \<and> [3, 4 :: weight] ! i \<noteq> 0"
    by (rule leader_may_propose) (auto simp: gen_in_range_def intro: exI [of _ 1])
  then show ?thesis by (simp add: numeral_2_eq_2)
qed

end
