(* ===== verification/Bytesrepr.thy ===== *)
theory Bytesrepr
  imports Casper_Prelude "HOL-Library.Sublist" "HOL-Library.Finite_Map"
begin

text \<open>
  The binary format \<open>bytesrepr\<close> (\<open>src/types/src/bytesrepr.rs\<close>, \<open>bytesrepr/bytes.rs\<close>) in which
  everything that is hashed, stored or sent is written.

  The traits \<open>ToBytes\<close> and \<open>FromBytes\<close> of a type are a record \<open>codec\<close>; a type constructor is a
  function on such records. A \<open>Result\<close> is a sum with the error on the left, and \<open>and_then\<close> is the
  operator \<open>?\<close>. What every implementation promises is the locale \<open>bytesrepr\<close>: what has been written is
  read back, whatever follows it, and \<open>serialized_length\<close> is the number of bytes written. From it
  follows that the encodings are injective and prefix-free, which the global state relies on. The
  locale \<open>canonical_bytesrepr\<close> adds that only the bytes that are written for a value are read as that
  value.

  The buffer sizes passed to \<open>Vec::with_capacity\<close> have no effect on the result.
\<close>

named_theorems codec_defs \<open>definitions of the codecs\<close>

section \<open>Results\<close>

type_synonym byte = "8 word"

datatype bytesrepr_error =
  EarlyEndOfStream | Formatting | LeftOverBytes | OutOfMemory | NotRepresentable | ExceededRecursionDepth

definition and_then :: "'e + 'a \<Rightarrow> ('a \<Rightarrow> 'e + 'b) \<Rightarrow> 'e + 'b" where
  "and_then m f = (case m of Inl e \<Rightarrow> Inl e | Inr x \<Rightarrow> f x)"

lemma and_then_simps [simp]: "and_then (Inl e) f = Inl e" "and_then (Inr x) f = f x"
  by (simp_all add: and_then_def)

lemma and_then_eq_Inr [simp]: "and_then m f = Inr y \<longleftrightarrow> (\<exists>x. m = Inr x \<and> f x = Inr y)"
  by (cases m) simp_all

lemma and_then_eq_Inl: "and_then m f = Inl e \<longleftrightarrow> m = Inl e \<or> (\<exists>x. m = Inr x \<and> f x = Inl e)"
  by (cases m) simp_all

lemma and_then_cong [fundef_cong]:
  "m = m' \<Longrightarrow> (\<And>x. m' = Inr x \<Longrightarrow> f x = g x) \<Longrightarrow> and_then m f = and_then m' g"
  by (cases m') simp_all

section \<open>The traits\<close>

record 'a codec =
  to_bytes :: "'a \<Rightarrow> bytesrepr_error + byte list"
  from_bytes :: "byte list \<Rightarrow> bytesrepr_error + 'a \<times> byte list"
  serialized_length :: "'a \<Rightarrow> nat"

definition allocate_buffer_for_size :: "nat \<Rightarrow> bytesrepr_error + byte list" where
  "allocate_buffer_for_size expected_size = (if expected_size > u32_max then Inl OutOfMemory else Inr [])"

definition allocate_buffer :: "'a codec \<Rightarrow> 'a \<Rightarrow> bytesrepr_error + byte list" where
  "allocate_buffer c x = allocate_buffer_for_size (serialized_length c x)"

definition deserialize :: "'a codec \<Rightarrow> byte list \<Rightarrow> bytesrepr_error + 'a" where
  "deserialize c bytes =
     and_then (from_bytes c bytes) (\<lambda>(t, remainder).
       if remainder = [] then Inr t else Inl LeftOverBytes)"

definition safe_split_at :: "byte list \<Rightarrow> nat \<Rightarrow> bytesrepr_error + byte list \<times> byte list" where
  "safe_split_at bytes n =
     (if n > length bytes then Inl EarlyEndOfStream else Inr (take n bytes, drop n bytes))"

lemma allocate_buffer_Inr [simp]:
  "allocate_buffer_for_size n = Inr b \<longleftrightarrow> n \<le> u32_max \<and> b = []"
  by (auto simp: allocate_buffer_for_size_def)

lemma safe_split_at_Inr [simp]: "safe_split_at bs n = Inr (a, r) \<longleftrightarrow> bs = a @ r \<and> length a = n"
  by (auto simp: safe_split_at_def)

lemma safe_split_at_append [simp]: "length a = n \<Longrightarrow> safe_split_at (a @ r) n = Inr (a, r)"
  by simp

text \<open>The contract of the two traits.\<close>

locale bytesrepr =
  fixes c :: "'a codec"
  assumes from_to: "to_bytes c x = Inr b \<Longrightarrow> from_bytes c (b @ r) = Inr (x, r)"
    and length_to: "to_bytes c x = Inr b \<Longrightarrow> length b = serialized_length c x"
begin

lemma deserialize_to: "to_bytes c x = Inr b \<Longrightarrow> deserialize c b = Inr x"
  using from_to [of x b "[]"] by (simp add: deserialize_def)

lemma to_bytes_inj: "to_bytes c x = Inr b \<Longrightarrow> to_bytes c y = Inr b \<Longrightarrow> x = y"
  using from_to [of x b "[]"] from_to [of y b "[]"] by simp

lemma prefix_free: "to_bytes c x = Inr b \<Longrightarrow> to_bytes c y = Inr b' \<Longrightarrow> prefix b b' \<Longrightarrow> x = y \<and> b = b'"
  using from_to [of x b] from_to [of y b' "[]"] by (fastforce elim!: prefixE)

lemma left_over: "to_bytes c x = Inr b \<Longrightarrow> r \<noteq> [] \<Longrightarrow> deserialize c (b @ r) = Inl LeftOverBytes"
  using from_to [of x b r] by (simp add: deserialize_def)

end

locale canonical_bytesrepr = bytesrepr +
  assumes to_from: "from_bytes c b = Inr (x, r) \<Longrightarrow> to_bytes c x = Inr p \<Longrightarrow> b = p @ r"
begin

lemma deserialize_unique:
  "deserialize c b = Inr x \<Longrightarrow> to_bytes c x = Inr p \<Longrightarrow> b = p"
  using to_from [of b x "[]" p] by (auto simp: deserialize_def split: if_splits)

end

section \<open>Integers\<close>

fun le_bytes :: "nat \<Rightarrow> nat \<Rightarrow> byte list" where
  "le_bytes 0 n = []"
| "le_bytes (Suc k) n = word_of_nat n # le_bytes k (n div 256)"

fun le_nat :: "byte list \<Rightarrow> nat" where
  "le_nat [] = 0"
| "le_nat (b # bs) = unat b + 256 * le_nat bs"

lemma length_le_bytes [simp]: "length (le_bytes k n) = k"
  by (induction k arbitrary: n) simp_all

lemma le_nat_le_bytes: "le_nat (le_bytes k n) = n mod 256 ^ k"
proof (induction k arbitrary: n)
  case (Suc k)
  have "unat (word_of_nat n :: byte) = n mod 256"
    by (simp add: unat_of_nat)
  then show ?case
    using Suc mod_mult2_eq [of n 256 "256 ^ k"] by simp
qed simp

lemma le_nat_less: "le_nat bs < 256 ^ length bs"
proof (induction bs)
  case (Cons b bs)
  have "unat b < 256"
    using unsigned_less [of b, where ?'a = nat] by simp
  moreover have "256 * le_nat bs + 256 \<le> 256 * 256 ^ length bs"
    using Cons by (metis Suc_leI add.commute mult_Suc_right mult_le_mono2)
  ultimately show ?case by simp
qed simp

lemma le_bytes_le_nat: "le_bytes (length bs) (le_nat bs) = bs"
proof (induction bs)
  case (Cons b bs)
  have "unat b < 256"
    using unsigned_less [of b, where ?'a = nat] by simp
  moreover have "(word_of_nat (256 * le_nat bs) :: byte) = 0"
    by (simp only: word_of_nat_eq_0_iff) simp
  ultimately show ?case
    using Cons by simp
qed simp

text \<open>An integer of \<open>k\<close> bytes, signed or unsigned, is its bit pattern in little-endian order.\<close>

definition int_codec :: "nat \<Rightarrow> ('w::len) word codec" where
  "int_codec k =
     \<lparr>to_bytes = (\<lambda>w. Inr (le_bytes k (unat w))),
      from_bytes = (\<lambda>bytes. and_then (safe_split_at bytes k) (\<lambda>(b, remainder).
        Inr (word_of_nat (le_nat b), remainder))),
      serialized_length = (\<lambda>_. k)\<rparr>"

definition u16_codec :: "16 word codec" where
  "u16_codec = int_codec 2"

definition u32_codec :: "32 word codec" where
  "u32_codec = int_codec 4"

definition u64_codec :: "64 word codec" where
  "u64_codec = int_codec 8"

definition u128_codec :: "128 word codec" where
  "u128_codec = int_codec 16"

definition i32_codec :: "32 word codec" where
  "i32_codec = int_codec 4"

definition i64_codec :: "64 word codec" where
  "i64_codec = int_codec 8"

definition u8_codec :: "byte codec" where
  "u8_codec =
     \<lparr>to_bytes = (\<lambda>b. Inr [b]),
      from_bytes = (\<lambda>bytes. case bytes of [] \<Rightarrow> Inl EarlyEndOfStream | b # rem \<Rightarrow> Inr (b, rem)),
      serialized_length = (\<lambda>_. 1)\<rparr>"

definition bool_codec :: "bool codec" where
  "bool_codec =
     \<lparr>to_bytes = (\<lambda>b. to_bytes u8_codec (if b then 1 else 0)),
      from_bytes = (\<lambda>bytes.
        case bytes of
          [] \<Rightarrow> Inl EarlyEndOfStream
        | byte # rem \<Rightarrow>
            if byte = 1 then Inr (True, rem) else if byte = 0 then Inr (False, rem) else Inl Formatting),
      serialized_length = (\<lambda>_. 1)\<rparr>"

definition unit_codec :: "unit codec" where
  "unit_codec =
     \<lparr>to_bytes = (\<lambda>_. Inr []), from_bytes = (\<lambda>bytes. Inr ((), bytes)), serialized_length = (\<lambda>_. 0)\<rparr>"

declare u16_codec_def [codec_defs] u32_codec_def [codec_defs] u64_codec_def [codec_defs]
  u128_codec_def [codec_defs] i32_codec_def [codec_defs] i64_codec_def [codec_defs]
  u8_codec_def [codec_defs] bool_codec_def [codec_defs] unit_codec_def [codec_defs]

lemma int_codec_canonical:
  assumes "LENGTH('w::len) = 8 * k"
  shows "canonical_bytesrepr (int_codec k :: 'w word codec)"
proof
  have mod: "unat w mod 256 ^ k = unat w" for w :: "'w word"
  proof -
    have "256 ^ k = (2 :: nat) ^ LENGTH('w)"
      using power_mult [of "2 :: nat" 8 k] by (simp add: assms)
    then show ?thesis
      using unsigned_less [of w, where ?'a = nat] by simp
  qed
  show "from_bytes (int_codec k) (b @ r) = Inr (w, r)" if "to_bytes (int_codec k) w = Inr b" for w :: "'w word" and b r
    using that mod [of w] by (auto simp: int_codec_def le_nat_le_bytes)
  show "length b = serialized_length (int_codec k) w" if "to_bytes (int_codec k) w = Inr b" for w :: "'w word" and b
    using that by (auto simp: int_codec_def)
  show "b = p @ r" if "from_bytes (int_codec k) b = Inr (w, r)" "to_bytes (int_codec k) w = Inr p"
    for w :: "'w word" and b r p
  proof -
    from that(1) obtain a where a: "b = a @ r" "length a = k" "w = word_of_nat (le_nat a)"
      by (auto simp: int_codec_def)
    have "le_nat a < 2 ^ LENGTH('w)"
      using le_nat_less [of a] power_mult [of "2 :: nat" 8 k] by (simp add: assms a(2))
    then have "unat w = le_nat a"
      by (simp add: a(3) unat_of_nat)
    then show ?thesis
      using that(2) a le_bytes_le_nat [of a] by (simp add: int_codec_def)
  qed
qed

interpretation u16: canonical_bytesrepr u16_codec
  unfolding u16_codec_def by (rule int_codec_canonical) simp

interpretation u32: canonical_bytesrepr u32_codec
  unfolding u32_codec_def by (rule int_codec_canonical) simp

interpretation u64: canonical_bytesrepr u64_codec
  unfolding u64_codec_def by (rule int_codec_canonical) simp

interpretation u128: canonical_bytesrepr u128_codec
  unfolding u128_codec_def by (rule int_codec_canonical) simp

interpretation i32: canonical_bytesrepr i32_codec
  unfolding i32_codec_def by (rule int_codec_canonical) simp

interpretation i64: canonical_bytesrepr i64_codec
  unfolding i64_codec_def by (rule int_codec_canonical) simp

interpretation u8: canonical_bytesrepr u8_codec
  by unfold_locales (auto simp: u8_codec_def split: list.splits)

interpretation bool: canonical_bytesrepr bool_codec
  by unfold_locales (auto simp: codec_defs split: list.splits if_splits)

interpretation unit: canonical_bytesrepr unit_codec
  by unfold_locales (auto simp: unit_codec_def)

section \<open>Byte strings and arrays\<close>

text \<open>The newtype \<open>Bytes\<close>: a length prefix of four bytes, then the bytes.\<close>

definition u8_slice_to_bytes :: "byte list \<Rightarrow> bytesrepr_error + byte list" where
  "u8_slice_to_bytes bytes =
     (if length bytes > u32_max then Inl NotRepresentable
      else Inr (le_bytes 4 (length bytes) @ bytes))"

definition bytes_codec :: "byte list codec" where
  "bytes_codec =
     \<lparr>to_bytes = u8_slice_to_bytes,
      from_bytes = (\<lambda>bytes.
        and_then (from_bytes u32_codec bytes) (\<lambda>(size, remainder).
        safe_split_at remainder (unat size))),
      serialized_length = (\<lambda>bytes. 4 + length bytes)\<rparr>"

section \<open>Sequences\<close>

primrec to_bytes_each :: "'a codec \<Rightarrow> 'a list \<Rightarrow> bytesrepr_error + byte list" where
  "to_bytes_each c [] = Inr []"
| "to_bytes_each c (x # xs) =
     and_then (to_bytes c x) (\<lambda>b. and_then (to_bytes_each c xs) (\<lambda>bs. Inr (b @ bs)))"

primrec from_bytes_n :: "'a codec \<Rightarrow> nat \<Rightarrow> byte list \<Rightarrow> bytesrepr_error + 'a list \<times> byte list" where
  "from_bytes_n c 0 stream = Inr ([], stream)"
| "from_bytes_n c (Suc n) stream =
     and_then (from_bytes c stream) (\<lambda>(value, remainder).
     and_then (from_bytes_n c n remainder) (\<lambda>(values, remainder).
       Inr (value # values, remainder)))"

definition iterator_serialized_length :: "'a codec \<Rightarrow> 'a list \<Rightarrow> nat" where
  "iterator_serialized_length c xs = 4 + sum_list (map (serialized_length c) xs)"

definition vec_to_bytes :: "'a codec \<Rightarrow> 'a list \<Rightarrow> bytesrepr_error + byte list" where
  "vec_to_bytes c xs =
     (if length xs > u32_max then Inl NotRepresentable
      else and_then (to_bytes u32_codec (word_of_nat (length xs))) (\<lambda>n.
           and_then (to_bytes_each c xs) (\<lambda>items. Inr (n @ items))))"

definition vec_from_bytes :: "'a codec \<Rightarrow> byte list \<Rightarrow> bytesrepr_error + 'a list \<times> byte list" where
  "vec_from_bytes c bytes =
     and_then (from_bytes u32_codec bytes) (\<lambda>(count, stream). from_bytes_n c (unat count) stream)"

definition vec_codec :: "'a codec \<Rightarrow> 'a list codec" where
  "vec_codec c =
     \<lparr>to_bytes = vec_to_bytes c, from_bytes = vec_from_bytes c,
      serialized_length = iterator_serialized_length c\<rparr>"

text \<open>A \<open>VecDeque\<close> differs only in the check of the size.\<close>

definition vec_deque_codec :: "'a codec \<Rightarrow> 'a list codec" where
  "vec_deque_codec c =
     \<lparr>to_bytes = (\<lambda>xs.
        and_then (allocate_buffer_for_size (iterator_serialized_length c xs)) (\<lambda>_. vec_to_bytes c xs)),
      from_bytes = vec_from_bytes c,
      serialized_length = iterator_serialized_length c\<rparr>"

lemma u32_length_bytes:
  "n \<le> u32_max \<Longrightarrow> from_bytes u32_codec (le_bytes 4 n @ r) = Inr (word_of_nat n, r)"
  by (simp add: codec_defs int_codec_def le_nat_le_bytes u32_max_def)

lemma u32_length_read:
  assumes "from_bytes u32_codec b = Inr (n, r)"
  shows "b = le_bytes 4 (unat n) @ r"
  using u32.to_from [OF assms] by (simp add: u32_codec_def int_codec_def)

lemma to_bytes_u32: "to_bytes u32_codec w = Inr (le_bytes 4 (unat w))"
  by (simp add: u32_codec_def int_codec_def)

lemma unat_length [simp]: "n \<le> u32_max \<Longrightarrow> unat (word_of_nat n :: 32 word) = n"
  by (simp add: unat_of_nat u32_max_def)

interpretation bytes: canonical_bytesrepr bytes_codec
proof unfold_locales
  show "b = p @ r" if "from_bytes bytes_codec b = Inr (x, r)" "to_bytes bytes_codec x = Inr p" for b x r p
    using that by (auto simp: bytes_codec_def u8_slice_to_bytes_def dest!: u32_length_read split: if_splits)
qed (auto simp: bytes_codec_def u8_slice_to_bytes_def u32_length_bytes split: if_splits)

lemma from_bytes_n_each:
  assumes "bytesrepr c" and "to_bytes_each c xs = Inr b"
  shows "from_bytes_n c (length xs) (b @ r) = Inr (xs, r)"
  using assms(2) by (induction xs arbitrary: b) (auto simp: bytesrepr.from_to [OF assms(1)])

lemma length_to_bytes_each:
  assumes "bytesrepr c" and "to_bytes_each c xs = Inr b"
  shows "length b = sum_list (map (serialized_length c) xs)"
  using assms(2) by (induction xs arbitrary: b) (auto simp: bytesrepr.length_to [OF assms(1)])

lemma from_bytes_n_unique:
  assumes "canonical_bytesrepr c" and "from_bytes_n c n b = Inr (xs, r)"
  shows "length xs = n \<and> (\<forall>p. to_bytes_each c xs = Inr p \<longrightarrow> b = p @ r)"
  using assms(2)
  by (induction n arbitrary: b xs) (fastforce dest: canonical_bytesrepr.to_from [OF assms(1)])+

lemma vec_to_bytes_Inr:
  "vec_to_bytes c xs = Inr b \<longleftrightarrow>
    length xs \<le> u32_max \<and> (\<exists>p. to_bytes_each c xs = Inr p \<and> b = le_bytes 4 (length xs) @ p)"
  by (auto simp: vec_to_bytes_def to_bytes_u32)

lemma vec_from_to: "bytesrepr c \<Longrightarrow> vec_to_bytes c xs = Inr b \<Longrightarrow> vec_from_bytes c (b @ r) = Inr (xs, r)"
  by (auto simp: vec_to_bytes_Inr vec_from_bytes_def u32_length_bytes from_bytes_n_each)

lemma vec_length_to:
  "bytesrepr c \<Longrightarrow> vec_to_bytes c xs = Inr b \<Longrightarrow> length b = iterator_serialized_length c xs"
  by (auto simp: vec_to_bytes_Inr iterator_serialized_length_def length_to_bytes_each)

lemma vec_to_from:
  "canonical_bytesrepr c \<Longrightarrow> vec_from_bytes c b = Inr (xs, r) \<Longrightarrow> vec_to_bytes c xs = Inr p \<Longrightarrow> b = p @ r"
  by (auto simp: vec_to_bytes_Inr vec_from_bytes_def dest!: u32_length_read from_bytes_n_unique)

lemma vec_codec_canonical: "canonical_bytesrepr c \<Longrightarrow> canonical_bytesrepr (vec_codec c)"
  by unfold_locales
    (auto simp: vec_codec_def vec_from_to vec_length_to canonical_bytesrepr.axioms(1) intro: vec_to_from)

lemma vec_deque_codec_canonical: "canonical_bytesrepr c \<Longrightarrow> canonical_bytesrepr (vec_deque_codec c)"
  by unfold_locales
    (auto simp: vec_deque_codec_def vec_from_to vec_length_to canonical_bytesrepr.axioms(1) intro: vec_to_from)

section \<open>Options, results and tuples\<close>

definition option_codec :: "'a codec \<Rightarrow> 'a option codec" where
  "option_codec c =
     (let len = (\<lambda>v. 1 + (case v of Some x \<Rightarrow> serialized_length c x | None \<Rightarrow> 0))
      in \<lparr>to_bytes = (\<lambda>v.
            case v of
              None \<Rightarrow> Inr [0]
            | Some x \<Rightarrow>
                and_then (allocate_buffer_for_size (len v)) (\<lambda>_.
                and_then (to_bytes c x) (\<lambda>value. Inr (1 # value)))),
          from_bytes = (\<lambda>bytes.
            and_then (from_bytes u8_codec bytes) (\<lambda>(tag, rem).
              if tag = 0 then Inr (None, rem)
              else if tag = 1 then and_then (from_bytes c rem) (\<lambda>(t, rem). Inr (Some t, rem))
              else Inl Formatting)),
          serialized_length = len\<rparr>)"

text \<open>A \<open>Result\<close> is tagged 0 for the error and 1 for the value.\<close>

definition result_codec :: "'e codec \<Rightarrow> 'a codec \<Rightarrow> ('e + 'a) codec" where
  "result_codec ce ca =
     (let len = (\<lambda>v. 1 + (case v of Inr x \<Rightarrow> serialized_length ca x | Inl e \<Rightarrow> serialized_length ce e))
      in \<lparr>to_bytes = (\<lambda>v.
            and_then (allocate_buffer_for_size (len v)) (\<lambda>_.
              case v of
                Inl e \<Rightarrow> and_then (to_bytes ce e) (\<lambda>value. Inr (0 # value))
              | Inr x \<Rightarrow> and_then (to_bytes ca x) (\<lambda>value. Inr (1 # value)))),
          from_bytes = (\<lambda>bytes.
            and_then (from_bytes u8_codec bytes) (\<lambda>(variant, rem).
              if variant = 0 then and_then (from_bytes ce rem) (\<lambda>(value, rem). Inr (Inl value, rem))
              else if variant = 1 then and_then (from_bytes ca rem) (\<lambda>(value, rem). Inr (Inr value, rem))
              else Inl Formatting)),
          serialized_length = len\<rparr>)"

definition pair_codec :: "'a codec \<Rightarrow> 'b codec \<Rightarrow> ('a \<times> 'b) codec" where
  "pair_codec c1 c2 =
     (let len = (\<lambda>(x, y). serialized_length c1 x + serialized_length c2 y)
      in \<lparr>to_bytes = (\<lambda>(x, y).
            and_then (allocate_buffer_for_size (len (x, y))) (\<lambda>_.
            and_then (to_bytes c1 x) (\<lambda>b1.
            and_then (to_bytes c2 y) (\<lambda>b2. Inr (b1 @ b2))))),
          from_bytes = (\<lambda>bytes.
            and_then (from_bytes c1 bytes) (\<lambda>(t1, remainder).
            and_then (from_bytes c2 remainder) (\<lambda>(t2, remainder). Inr ((t1, t2), remainder)))),
          serialized_length = len\<rparr>)"

definition triple_codec :: "'a codec \<Rightarrow> 'b codec \<Rightarrow> 'c codec \<Rightarrow> ('a \<times> 'b \<times> 'c) codec" where
  "triple_codec c1 c2 c3 =
     (let len = (\<lambda>(x, y, z). serialized_length c1 x + serialized_length c2 y + serialized_length c3 z)
      in \<lparr>to_bytes = (\<lambda>(x, y, z).
            and_then (allocate_buffer_for_size (len (x, y, z))) (\<lambda>_.
            and_then (to_bytes c1 x) (\<lambda>b1.
            and_then (to_bytes c2 y) (\<lambda>b2.
            and_then (to_bytes c3 z) (\<lambda>b3. Inr (b1 @ b2 @ b3)))))),
          from_bytes = (\<lambda>bytes.
            and_then (from_bytes c1 bytes) (\<lambda>(t1, remainder).
            and_then (from_bytes c2 remainder) (\<lambda>(t2, remainder).
            and_then (from_bytes c3 remainder) (\<lambda>(t3, remainder). Inr ((t1, t2, t3), remainder))))),
          serialized_length = len\<rparr>)"

lemma to_bytes_u8 [simp]: "to_bytes u8_codec b = Inr [b]"
  by (simp add: u8_codec_def)

lemma from_bytes_u8 [simp]:
  "from_bytes u8_codec [] = Inl EarlyEndOfStream" "from_bytes u8_codec (b # r) = Inr (b, r)"
  by (simp_all add: u8_codec_def)

lemma from_bytes_u8_Inr: "from_bytes u8_codec bs = Inr (b, r) \<longleftrightarrow> bs = b # r"
  by (cases bs) auto

lemma from_bytes_tagged [simp]:
  "from_bytes (option_codec c) (0 # r) = Inr (None, r)"
  "from_bytes (option_codec c) (1 # r) = and_then (from_bytes c r) (\<lambda>(t, rem). Inr (Some t, rem))"
  "from_bytes (result_codec ce ca) (0 # r) = and_then (from_bytes ce r) (\<lambda>(t, rem). Inr (Inl t, rem))"
  "from_bytes (result_codec ce ca) (1 # r) = and_then (from_bytes ca r) (\<lambda>(t, rem). Inr (Inr t, rem))"
  by (simp_all add: option_codec_def result_codec_def)

lemma to_bytes_option [simp]:
  "to_bytes (option_codec c) None = Inr b \<longleftrightarrow> b = [0]"
  "to_bytes (option_codec c) (Some x) = Inr b \<longleftrightarrow>
     serialized_length c x < u32_max \<and> (\<exists>p. to_bytes c x = Inr p \<and> b = 1 # p)"
  by (auto simp: option_codec_def)

lemma to_bytes_result [simp]:
  "to_bytes (result_codec ce ca) (Inl e) = Inr b \<longleftrightarrow>
     serialized_length ce e < u32_max \<and> (\<exists>p. to_bytes ce e = Inr p \<and> b = 0 # p)"
  "to_bytes (result_codec ce ca) (Inr x) = Inr b \<longleftrightarrow>
     serialized_length ca x < u32_max \<and> (\<exists>p. to_bytes ca x = Inr p \<and> b = 1 # p)"
  by (auto simp: result_codec_def)

lemma serialized_length_tagged [simp]:
  "serialized_length (option_codec c) v = 1 + (case v of Some x \<Rightarrow> serialized_length c x | None \<Rightarrow> 0)"
  "serialized_length (result_codec ce ca) w =
     1 + (case w of Inr x \<Rightarrow> serialized_length ca x | Inl e \<Rightarrow> serialized_length ce e)"
  by (simp_all add: option_codec_def result_codec_def)

lemma option_codec_canonical:
  assumes "canonical_bytesrepr c"
  shows "canonical_bytesrepr (option_codec c)"
proof -
  note laws = bytesrepr.from_to [OF canonical_bytesrepr.axioms(1) [OF assms]]
    bytesrepr.length_to [OF canonical_bytesrepr.axioms(1) [OF assms]] canonical_bytesrepr.to_from [OF assms]
  show ?thesis
  proof
    fix x b r assume "to_bytes (option_codec c) x = Inr b"
    then show "from_bytes (option_codec c) (b @ r) = Inr (x, r)" "length b = serialized_length (option_codec c) x"
      by (cases x; auto simp: laws(1,2))+
  next
    fix b x r p assume *: "from_bytes (option_codec c) b = Inr (x, r)" "to_bytes (option_codec c) x = Inr p"
    from *(1) obtain tag rem where b: "b = tag # rem" "tag = 0 \<or> tag = 1"
      by (cases b) (auto simp: option_codec_def Let_def split: if_splits)
    with * show "b = p @ r"
      by (cases x) (auto dest: laws(3))
  qed
qed

lemma result_codec_canonical:
  assumes "canonical_bytesrepr ce" and "canonical_bytesrepr ca"
  shows "canonical_bytesrepr (result_codec ce ca)"
proof -
  note laws = assms [THEN canonical_bytesrepr.axioms(1), THEN bytesrepr.from_to]
    assms [THEN canonical_bytesrepr.axioms(1), THEN bytesrepr.length_to] assms [THEN canonical_bytesrepr.to_from]
  show ?thesis
  proof
    fix x b r assume "to_bytes (result_codec ce ca) x = Inr b"
    then show "from_bytes (result_codec ce ca) (b @ r) = Inr (x, r)"
      "length b = serialized_length (result_codec ce ca) x"
      by (cases x; auto simp: laws(1-4))+
  next
    fix b x r p assume *: "from_bytes (result_codec ce ca) b = Inr (x, r)" "to_bytes (result_codec ce ca) x = Inr p"
    from *(1) obtain tag rem where b: "b = tag # rem" "tag = 0 \<or> tag = 1"
      by (cases b) (auto simp: result_codec_def Let_def split: if_splits)
    with * show "b = p @ r"
      by (cases x) (auto dest: laws(5,6))
  qed
qed

lemma pair_codec_canonical:
  assumes "canonical_bytesrepr c1" and "canonical_bytesrepr c2"
  shows "canonical_bytesrepr (pair_codec c1 c2)"
proof -
  note laws = assms [THEN canonical_bytesrepr.axioms(1), THEN bytesrepr.from_to]
    assms [THEN canonical_bytesrepr.axioms(1), THEN bytesrepr.length_to] assms [THEN canonical_bytesrepr.to_from]
  show ?thesis
  proof
    fix b x r p assume "from_bytes (pair_codec c1 c2) b = Inr (x, r)" "to_bytes (pair_codec c1 c2) x = Inr p"
    then show "b = p @ r"
      by (cases x) (auto simp: pair_codec_def, metis laws(5,6) append.assoc)
  qed (auto simp: pair_codec_def Let_def laws(1-4))
qed

lemma triple_codec_canonical:
  assumes "canonical_bytesrepr c1" and "canonical_bytesrepr c2" and "canonical_bytesrepr c3"
  shows "canonical_bytesrepr (triple_codec c1 c2 c3)"
proof -
  note laws = assms [THEN canonical_bytesrepr.axioms(1), THEN bytesrepr.from_to]
    assms [THEN canonical_bytesrepr.axioms(1), THEN bytesrepr.length_to] assms [THEN canonical_bytesrepr.to_from]
  show ?thesis
  proof
    fix b x r p
    assume "from_bytes (triple_codec c1 c2 c3) b = Inr (x, r)" "to_bytes (triple_codec c1 c2 c3) x = Inr p"
    then show "b = p @ r"
      by (cases x) (auto simp: triple_codec_def, metis laws(7-9) append.assoc)
  qed (auto simp: triple_codec_def Let_def laws(1-6))
qed

section \<open>Ordered sets and maps\<close>

text \<open>
  \<open>BTreeSet\<close> and \<open>BTreeMap\<close> are finite sets and maps, written in the order of their keys. They are read
  back by repeated insertion, so that also unordered encodings are accepted.
\<close>

definition btree_set_codec :: "'a::linorder codec \<Rightarrow> 'a fset codec" where
  "btree_set_codec c =
     (let len = (\<lambda>S. 4 + sum_list (map (serialized_length c) (sorted_list_of_fset S)))
      in \<lparr>to_bytes = (\<lambda>S.
            and_then (allocate_buffer_for_size (len S)) (\<lambda>_.
              vec_to_bytes c (sorted_list_of_fset S))),
          from_bytes = (\<lambda>bytes.
            and_then (from_bytes u32_codec bytes) (\<lambda>(num_keys, stream).
            and_then (from_bytes_n c (unat num_keys) stream) (\<lambda>(vs, stream).
              Inr (fold finsert vs {||}, stream)))),
          serialized_length = len\<rparr>)"

primrec to_bytes_entries :: "'k codec \<Rightarrow> 'v codec \<Rightarrow> ('k \<times> 'v) list \<Rightarrow> bytesrepr_error + byte list" where
  "to_bytes_entries ck cv [] = Inr []"
| "to_bytes_entries ck cv (e # es) =
     and_then (to_bytes ck (fst e)) (\<lambda>k.
     and_then (to_bytes cv (snd e)) (\<lambda>v.
     and_then (to_bytes_entries ck cv es) (\<lambda>bs. Inr (k @ v @ bs))))"

primrec from_bytes_entries ::
  "'k codec \<Rightarrow> 'v codec \<Rightarrow> nat \<Rightarrow> ('k, 'v) fmap \<Rightarrow> byte list \<Rightarrow> bytesrepr_error + ('k, 'v) fmap \<times> byte list" where
  "from_bytes_entries ck cv 0 m stream = Inr (m, stream)"
| "from_bytes_entries ck cv (Suc n) m stream =
     and_then (from_bytes ck stream) (\<lambda>(k, rem).
     and_then (from_bytes cv rem) (\<lambda>(v, rem).
       from_bytes_entries ck cv n (fmupd k v m) rem))"

definition btree_map_codec :: "'k::linorder codec \<Rightarrow> 'v codec \<Rightarrow> ('k, 'v) fmap codec" where
  "btree_map_codec ck cv =
     (let len = (\<lambda>m. 4 + sum_list (map (\<lambda>(k, v). serialized_length ck k + serialized_length cv v)
            (sorted_list_of_fmap m)))
      in \<lparr>to_bytes = (\<lambda>m.
            and_then (allocate_buffer_for_size (len m)) (\<lambda>_.
              let es = sorted_list_of_fmap m in
              if length es > u32_max then Inl NotRepresentable
              else and_then (to_bytes u32_codec (word_of_nat (length es))) (\<lambda>n.
                   and_then (to_bytes_entries ck cv es) (\<lambda>items. Inr (n @ items))))),
          from_bytes = (\<lambda>bytes.
            and_then (from_bytes u32_codec bytes) (\<lambda>(num_keys, stream).
              from_bytes_entries ck cv (unat num_keys) fmempty stream)),
          serialized_length = len\<rparr>)"

lemma fold_finsert: "fset (fold finsert xs A) = set xs \<union> fset A"
  by (induction xs arbitrary: A) auto

lemma btree_set_codec_bytesrepr:
  assumes "bytesrepr c"
  shows "bytesrepr (btree_set_codec c)"
proof
  fix S b r assume *: "to_bytes (btree_set_codec c) S = Inr b"
  have "fold finsert (sorted_list_of_fset S) {||} = S"
    by (simp add: fset_inject [symmetric] fold_finsert)
  with * show "from_bytes (btree_set_codec c) (b @ r) = Inr (S, r)"
    by (auto simp: btree_set_codec_def vec_to_bytes_Inr u32_length_bytes from_bytes_n_each [OF assms])
  from * show "length b = serialized_length (btree_set_codec c) S"
    by (auto simp: btree_set_codec_def vec_to_bytes_Inr length_to_bytes_each [OF assms])
qed

lemma from_bytes_entries:
  assumes "bytesrepr ck" and "bytesrepr cv" and "to_bytes_entries ck cv es = Inr b"
  shows "from_bytes_entries ck cv (length es) m (b @ r) = Inr (fold (\<lambda>(k, v). fmupd k v) es m, r)"
  using assms(3)
  by (induction es arbitrary: b m) (auto simp: bytesrepr.from_to [OF assms(1)] bytesrepr.from_to [OF assms(2)]
      case_prod_unfold)

lemma length_to_bytes_entries:
  assumes "bytesrepr ck" and "bytesrepr cv" and "to_bytes_entries ck cv es = Inr b"
  shows "length b = sum_list (map (\<lambda>(k, v). serialized_length ck k + serialized_length cv v) es)"
  using assms(3)
  by (induction es arbitrary: b) (auto simp: bytesrepr.length_to [OF assms(1)] bytesrepr.length_to [OF assms(2)]
      case_prod_unfold)

lemma fmlookup_fold_fmupd:
  "distinct (map fst es) \<Longrightarrow>
    fmlookup (fold (\<lambda>(k, v). fmupd k v) es m) = fmlookup m ++ map_of es"
proof (induction es arbitrary: m)
  case (Cons e es)
  obtain k v where e: "e = (k, v)" by (cases e)
  have "map_of es k = None"
    using Cons.prems e by (auto simp: map_of_eq_None_iff)
  then have "fmlookup (fmupd k v m) ++ map_of es = (fmlookup m ++ map_of es)(k \<mapsto> v)"
    by (auto simp: fun_eq_iff map_add_def split: option.split)
  then show ?case
    using Cons e by (simp add: map_add_upd del: fun_upd_apply)
qed simp

lemma fold_sorted_list_of_fmap: "fold (\<lambda>(k, v). fmupd k v) (sorted_list_of_fmap m) fmempty = m"
proof (rule fmap_ext)
  have "distinct (map fst (sorted_list_of_fmap m))"
    by (simp add: sorted_list_of_fmap_def comp_def sorted_list_of_fset.rep_eq)
  then show "fmlookup (fold (\<lambda>(k, v). fmupd k v) (sorted_list_of_fmap m) fmempty) x = fmlookup m x" for x
    by (simp add: fmlookup_fold_fmupd map_of_sorted_list map_add_def split: option.split)
qed

lemma btree_map_codec_bytesrepr:
  assumes "bytesrepr ck" and "bytesrepr cv"
  shows "bytesrepr (btree_map_codec ck cv)"
proof
  fix m b r assume *: "to_bytes (btree_map_codec ck cv) m = Inr b"
  from * show "from_bytes (btree_map_codec ck cv) (b @ r) = Inr (m, r)"
    by (auto simp: btree_map_codec_def Let_def to_bytes_u32 u32_length_bytes from_bytes_entries [OF assms]
        fold_sorted_list_of_fmap split: if_splits)
  from * show "length b = serialized_length (btree_map_codec ck cv) m"
    by (auto simp: btree_map_codec_def Let_def to_bytes_u32 length_to_bytes_entries [OF assms] split: if_splits)
qed

end
