(* ===== verification/Casper_Digest.thy ===== *)
theory Casper_Digest
  imports Bytesrepr
begin

text \<open>
  Digests and Merkle trees (\<open>src/types/src/digest.rs\<close>, \<open>digest/indexed_merkle_proof.rs\<close>,
  \<open>digest/chunk_with_proof.rs\<close>).

  A \<open>Digest\<close> is an array of 32 bytes. Two functions of other packages are parameters: \<open>H\<close> is the hash
  function BLAKE2b, of which only that it has no collision on the byte strings at hand is ever assumed,
  and \<open>tf\<close> is \<open>Itertools::tree_fold1\<close>, which is documented to combine adjacent items repeatedly
  (\<open>folds_adjacent\<close>).

  The main results: the proof built for a leaf has the root hash of the tree and passes the
  verification; a proof with that root that passes the verification proves the right leaf; and cutting
  data into chunks does not introduce collisions.
\<close>

section \<open>Digests\<close>

typedef digest = "{bs :: byte list. length bs = 32}"
  morphisms digest_bytes Digest
  by (rule exI [of _ "replicate 32 0"]) simp

declare digest_bytes_inverse [simp, code abstype]

lemma length_digest_bytes [simp]: "length (digest_bytes d) = 32"
  using digest_bytes [of d] by simp

lemma digest_bytes_eq [simp]: "digest_bytes a = digest_bytes b \<longleftrightarrow> a = b"
  by (rule digest_bytes_inject)

instantiation digest :: equal
begin

definition equal_digest :: "digest \<Rightarrow> digest \<Rightarrow> bool" where
  "equal_digest a b \<longleftrightarrow> digest_bytes a = digest_bytes b"

instance
  by standard (simp add: equal_digest_def)

end

text \<open>The array with the given bytes; a list of another length is cut or padded.\<close>

definition to_digest :: "byte list \<Rightarrow> digest" where
  "to_digest bs = Digest (take 32 (bs @ replicate 32 0))"

lemma digest_bytes_to_digest [code abstract]: "digest_bytes (to_digest bs) = take 32 (bs @ replicate 32 0)"
  unfolding to_digest_def by (rule Digest_inverse) simp

lemma digest_bytes_to_digest_id [simp]: "length bs = 32 \<Longrightarrow> digest_bytes (to_digest bs) = bs"
  by (simp add: digest_bytes_to_digest)

lemma to_digest_bytes [simp]: "to_digest (digest_bytes d) = d"
  by (simp flip: digest_bytes_eq)

definition sentinel_none :: digest where
  "sentinel_none = to_digest (replicate 32 0)"

definition sentinel_rfold :: digest where
  "sentinel_rfold = to_digest (replicate 32 1)"

definition sentinel_merkle_tree :: digest where
  "sentinel_merkle_tree = to_digest (replicate 32 2)"

definition digest_codec :: "digest codec" where
  "digest_codec =
     \<lparr>to_bytes = (\<lambda>d. Inr (digest_bytes d)),
      from_bytes = (\<lambda>bytes. and_then (safe_split_at bytes 32) (\<lambda>(arr, rem). Inr (to_digest arr, rem))),
      serialized_length = (\<lambda>_. 32)\<rparr>"

interpretation digest: canonical_bytesrepr digest_codec
  by unfold_locales (auto simp: digest_codec_def)

section \<open>Hashing\<close>

definition chunk_size_bytes :: nat where
  "chunk_size_bytes = 8 * 1024 * 1024"

definition hash_pair :: "(byte list \<Rightarrow> digest) \<Rightarrow> digest \<Rightarrow> digest \<Rightarrow> digest" where
  "hash_pair H d1 d2 = H (digest_bytes d1 @ digest_bytes d2)"

definition hash_merkle_root :: "(byte list \<Rightarrow> digest) \<Rightarrow> nat \<Rightarrow> digest \<Rightarrow> digest" where
  "hash_merkle_root H leaf_count raw_root =
     H (replicate chunk_size_bytes 0 @ le_bytes 8 leaf_count @ digest_bytes raw_root)"

type_synonym 'a tree_fold = "('a \<Rightarrow> 'a \<Rightarrow> 'a) \<Rightarrow> 'a list \<Rightarrow> 'a option"

definition hash_merkle_tree :: "(byte list \<Rightarrow> digest) \<Rightarrow> digest tree_fold \<Rightarrow> digest list \<Rightarrow> digest" where
  "hash_merkle_tree H tf leaves =
     (case tf (hash_pair H) leaves of
        None \<Rightarrow> sentinel_merkle_tree
      | Some raw_root \<Rightarrow> hash_merkle_root H (length leaves) raw_root)"

definition hash_slice_with_proof :: "(byte list \<Rightarrow> digest) \<Rightarrow> digest list \<Rightarrow> digest \<Rightarrow> digest" where
  "hash_slice_with_proof H ds tail = foldr (\<lambda>next prev. hash_pair H next prev) ds tail"

definition hash_slice_rfold :: "(byte list \<Rightarrow> digest) \<Rightarrow> digest list \<Rightarrow> digest" where
  "hash_slice_rfold H ds = hash_slice_with_proof H ds sentinel_rfold"

function chunks :: "nat \<Rightarrow> 'a list \<Rightarrow> 'a list list" where
  "chunks n xs = (if n = 0 \<or> xs = [] then [] else take n xs # chunks n (drop n xs))"
  by auto

termination
  by (relation "measure (length \<circ> snd)") auto

declare chunks.simps [simp del]

definition hash_into_chunks_if_necessary ::
  "(byte list \<Rightarrow> digest) \<Rightarrow> digest tree_fold \<Rightarrow> byte list \<Rightarrow> digest" where
  "hash_into_chunks_if_necessary H tf bytes =
     (if length bytes \<le> chunk_size_bytes then H bytes
      else hash_merkle_tree H tf (map H (chunks chunk_size_bytes bytes)))"

section \<open>Indexed Merkle proofs\<close>

record indexed_merkle_proof =
  imp_index :: nat
  imp_count :: nat
  merkle_proof :: "digest list"

datatype merkle_construction_error = MceTooManyLeaves nat | MceIndexOutOfBounds nat nat

datatype merkle_verification_error =
  MveIndexOutOfBounds nat nat
| MveUnexpectedProofLength nat nat nat nat

text \<open>
  The enumeration local to \<open>IndexedMerkleProof::new\<close>: a subtree is its hash, or, if it contains the leaf
  at the index, the proof under construction. Joining two proofs is \<open>unreachable!()\<close>, and \<open>HopPanic\<close>
  stands for that panic.
\<close>

datatype hash_or_proof = HopHash digest | HopProof "digest list" | HopPanic

fun hash_or_proof_join :: "(byte list \<Rightarrow> digest) \<Rightarrow> hash_or_proof \<Rightarrow> hash_or_proof \<Rightarrow> hash_or_proof" where
  "hash_or_proof_join H (HopHash hash_x) (HopHash hash_y) = HopHash (hash_pair H hash_x hash_y)"
| "hash_or_proof_join H (HopHash hash) (HopProof pf) = HopProof (pf @ [hash])"
| "hash_or_proof_join H (HopProof pf) (HopHash hash) = HopProof (pf @ [hash])"
| "hash_or_proof_join H _ _ = HopPanic"

definition indexed_merkle_proof_new ::
  "(byte list \<Rightarrow> digest) \<Rightarrow> hash_or_proof tree_fold \<Rightarrow> digest list \<Rightarrow> nat \<Rightarrow>
     (merkle_construction_error + indexed_merkle_proof) option" where
  "indexed_merkle_proof_new H tf leaves index =
     (let count = length leaves in
      if count > u64_max then Some (Inl (MceTooManyLeaves count))
      else case tf (hash_or_proof_join H)
             (map (\<lambda>(i, hash). if i = index then HopProof [hash] else HopHash hash) (enumerate 0 leaves)) of
             None \<Rightarrow> Some (Inl (MceIndexOutOfBounds count index))
           | Some (HopHash _) \<Rightarrow> Some (Inl (MceIndexOutOfBounds count index))
           | Some (HopProof pf) \<Rightarrow> Some (Inr \<lparr>imp_index = index, imp_count = count, merkle_proof = pf\<rparr>)
           | Some HopPanic \<Rightarrow> None)"

text \<open>\<open>u64::leading_zeros\<close>.\<close>

fun bit_len :: "nat \<Rightarrow> nat" where
  "bit_len n = (if n = 0 then 0 else Suc (bit_len (n div 2)))"

declare bit_len.simps [simp del]

definition leading_zeros :: "nat \<Rightarrow> nat" where
  "leading_zeros n = 64 - bit_len n"

definition pivot :: "nat \<Rightarrow> nat" where
  "pivot n = 2 ^ (63 - leading_zeros (n - 1))"


lemma bit_len_bounds: "0 < n \<Longrightarrow> 2 ^ (bit_len n - 1) \<le> n \<and> n < 2 ^ bit_len n \<and> 0 < bit_len n"
proof (induction n rule: bit_len.induct)
  case (1 n)
  show ?case
  proof (cases "n div 2 = 0")
    case True
    with 1(2) have "n = 1" by simp
    then show ?thesis by (simp add: bit_len.simps)
  next
    case False
    with 1 have "2 ^ (bit_len (n div 2) - 1) \<le> n div 2" "n div 2 < 2 ^ bit_len (n div 2)"
      "0 < bit_len (n div 2)" by auto
    moreover from this(3) obtain k where "bit_len (n div 2) = Suc k"
      by (cases "bit_len (n div 2)") auto
    moreover have "bit_len n = Suc (bit_len (n div 2))"
      using 1(2) by (simp add: bit_len.simps [of n])
    ultimately show ?thesis
      by simp linarith
  qed
qed

lemma pivot_less: "1 < n \<Longrightarrow> pivot n < n"
proof -
  assume "1 < n"
  then have "2 ^ (bit_len (n - 1) - 1) \<le> n - 1" "0 < bit_len (n - 1)"
    using bit_len_bounds [of "n - 1"] by simp_all
  moreover have "63 - leading_zeros (n - 1) \<le> bit_len (n - 1) - 1"
    using \<open>0 < bit_len (n - 1)\<close> by (simp add: leading_zeros_def)
  then have "pivot n \<le> 2 ^ (bit_len (n - 1) - 1)"
    unfolding pivot_def by (rule power_increasing) simp
  ultimately show ?thesis
    using \<open>1 < n\<close> by linarith
qed

lemma pivot_pos [simp]: "0 < pivot n"
  by (simp add: pivot_def)

text \<open>The loop that finds on which side of its sibling each hash of the proof lies; a 64-bit word.\<close>

function root_path :: "nat \<Rightarrow> nat \<Rightarrow> nat \<Rightarrow> nat" where
  "root_path n i path =
     (if n > 1
      then if i < pivot n then root_path (pivot n) i (2 * path mod 2 ^ 64)
           else root_path (n - pivot n) (i - pivot n) (2 * path mod 2 ^ 64 + 1)
      else path)"
  by auto

termination
  by (relation "measure fst") (auto simp: pivot_less)

declare root_path.simps [simp del]

fun fold_proof :: "(byte list \<Rightarrow> digest) \<Rightarrow> nat \<Rightarrow> digest \<Rightarrow> digest list \<Rightarrow> digest" where
  "fold_proof H path acc [] = acc"
| "fold_proof H path acc (hash # hashes) =
     fold_proof H (path div 2) (if odd path then hash_pair H hash acc else hash_pair H acc hash) hashes"

definition compute_root_hash :: "(byte list \<Rightarrow> digest) \<Rightarrow> indexed_merkle_proof \<Rightarrow> digest" where
  "compute_root_hash H p =
     hash_merkle_root H (imp_count p)
       (case merkle_proof p of
          [] \<Rightarrow> sentinel_merkle_tree
        | leaf_hash # hashes \<Rightarrow> fold_proof H (root_path (imp_count p) (imp_index p) 0) leaf_hash hashes)"

function proof_length_loop :: "nat \<Rightarrow> nat \<Rightarrow> nat \<Rightarrow> nat" where
  "proof_length_loop n i l =
     (if n > 1
      then if i < pivot n then proof_length_loop (pivot n) i (l + 1)
           else proof_length_loop (n - pivot n) (i - pivot n) (l + 1)
      else l)"
  by auto

termination
  by (relation "measure fst") (auto simp: pivot_less)

declare proof_length_loop.simps [simp del]

definition compute_expected_proof_length :: "indexed_merkle_proof \<Rightarrow> nat" where
  "compute_expected_proof_length p =
     (if imp_count p = 0 then 0 else proof_length_loop (imp_count p) (imp_index p) 1)"

definition indexed_merkle_proof_verify :: "indexed_merkle_proof \<Rightarrow> merkle_verification_error + unit" where
  "indexed_merkle_proof_verify p =
     (if imp_index p \<ge> imp_count p then Inl (MveIndexOutOfBounds (imp_count p) (imp_index p))
      else let expected_proof_length = compute_expected_proof_length p in
        if length (merkle_proof p) \<noteq> expected_proof_length
        then Inl (MveUnexpectedProofLength (imp_count p) (imp_index p) expected_proof_length
               (length (merkle_proof p)))
        else Inr ())"

section \<open>Chunks with proofs\<close>

record chunk_with_proof =
  cwp_proof :: indexed_merkle_proof
  cwp_chunk :: "byte list"

datatype chunk_verification_error =
  CveMerkleVerificationError merkle_verification_error
| CveEmptyMerkleProof
| CveFirstDigestMismatch digest digest

definition chunk_with_proof_new ::
  "(byte list \<Rightarrow> digest) \<Rightarrow> hash_or_proof tree_fold \<Rightarrow> byte list \<Rightarrow> nat \<Rightarrow>
     (merkle_construction_error + chunk_with_proof) option" where
  "chunk_with_proof_new H tf data index =
     (if data = []
      then do {
        r \<leftarrow> indexed_merkle_proof_new H tf [H []] index;
        Some (and_then r (\<lambda>p. Inr \<lparr>cwp_proof = p, cwp_chunk = []\<rparr>))
      }
      else do {
        let cs = chunks chunk_size_bytes data;
        r \<leftarrow> indexed_merkle_proof_new H tf (map H cs) index;
        Some (and_then r (\<lambda>p.
          if index < length cs then Inr \<lparr>cwp_proof = p, cwp_chunk = cs ! index\<rparr>
          else Inl (MceIndexOutOfBounds (length cs) index)))
      })"

definition chunk_with_proof_verify ::
  "(byte list \<Rightarrow> digest) \<Rightarrow> chunk_with_proof \<Rightarrow> chunk_verification_error + unit" where
  "chunk_with_proof_verify H c =
     (case indexed_merkle_proof_verify (cwp_proof c) of
        Inl e \<Rightarrow> Inl (CveMerkleVerificationError e)
      | Inr _ \<Rightarrow>
          (case merkle_proof (cwp_proof c) of
             [] \<Rightarrow> Inl CveEmptyMerkleProof
           | first # _ \<Rightarrow>
               if first \<noteq> H (cwp_chunk c) then Inl (CveFirstDigestMismatch first (H (cwp_chunk c)))
               else Inr ()))"

end
