(* ===== verification/Merkle_Proofs.thy ===== *)
theory Merkle_Proofs
  imports Casper_Digest
begin

text \<open>
  Correctness of the Merkle trees of \<open>Casper_Digest\<close>.

  The code folds adjacent items bottom-up to build a tree and a proof, and walks top-down over pivots,
  the largest powers of two below the number of leaves, to check a proof. Both are related to one
  recursive specification by pivots: \<open>merkle_root\<close>, \<open>merkle_branch\<close> and \<open>merkle_sides\<close>.
\<close>

section \<open>Folding adjacent items\<close>

fun adjacent :: "('a \<Rightarrow> 'a \<Rightarrow> 'a) \<Rightarrow> 'a list \<Rightarrow> 'a list" where
  "adjacent f (x # y # zs) = f x y # adjacent f zs"
| "adjacent f xs = xs"

lemma length_adjacent: "length (adjacent f xs) = (length xs + 1) div 2"
  by (induction f xs rule: adjacent.induct) auto

function tree_fold :: "('a \<Rightarrow> 'a \<Rightarrow> 'a) \<Rightarrow> 'a list \<Rightarrow> 'a option" where
  "tree_fold f [] = None"
| "tree_fold f [x] = Some x"
| "tree_fold f (x # y # zs) = tree_fold f (adjacent f (x # y # zs))"
  by pat_completeness auto

termination
  by (relation "measure (length \<circ> snd)") (auto simp: length_adjacent)

text \<open>What \<open>Itertools::tree_fold1\<close> is documented to do.\<close>

definition folds_adjacent :: "'a tree_fold \<Rightarrow> bool" where
  "folds_adjacent tf \<longleftrightarrow> (\<forall>f xs. tf f xs = tree_fold f xs)"

lemma tree_fold_adjacent [simp]: "tree_fold f (adjacent f xs) = tree_fold f xs"
  by (cases "(f, xs)" rule: adjacent.cases) simp_all

lemma adjacent_append:
  "even (length xs) \<Longrightarrow> adjacent f (xs @ ys) = adjacent f xs @ adjacent f ys"
  by (induction f xs rule: adjacent.induct) auto

lemma tree_fold_split:
  assumes "2 ^ k < length xs" and "length xs \<le> 2 ^ Suc k"
  shows "tree_fold f xs =
    do { l \<leftarrow> tree_fold f (take (2 ^ k) xs); r \<leftarrow> tree_fold f (drop (2 ^ k) xs); Some (f l r) }"
  using assms
proof (induction k arbitrary: xs)
  case 0
  then obtain x y where "xs = [x, y]"
    by (cases "(f, xs)" rule: adjacent.cases) auto
  then show ?case by simp
next
  case (Suc k)
  let ?p = "2 ^ Suc k"
  have "adjacent f xs = adjacent f (take ?p xs) @ adjacent f (drop ?p xs)"
    using adjacent_append [of "take ?p xs" f "drop ?p xs"] Suc.prems by simp
  moreover have "length (adjacent f (take ?p xs)) = 2 ^ k"
    using Suc.prems by (simp add: length_adjacent)
  ultimately have "take (2 ^ k) (adjacent f xs) = adjacent f (take ?p xs)"
    "drop (2 ^ k) (adjacent f xs) = adjacent f (drop ?p xs)"
    by simp_all
  moreover have "2 ^ k < length (adjacent f xs)" "length (adjacent f xs) \<le> 2 ^ Suc k"
    using Suc.prems by (auto simp: length_adjacent)
  ultimately show ?case
    using Suc.IH [of "adjacent f xs"] by simp
qed

section \<open>Pivots\<close>

lemma pivot_nonzero [simp]: "pivot n \<noteq> 0"
  by (simp add: pivot_def)

lemma pivot_bounds:
  assumes "1 < n" and "n \<le> 2 ^ 64"
  obtains k where "pivot n = 2 ^ k" "2 ^ k < n" "n \<le> 2 ^ Suc k"
proof -
  have b: "2 ^ (bit_len (n - 1) - 1) \<le> n - 1" "n - 1 < 2 ^ bit_len (n - 1)" "0 < bit_len (n - 1)"
    using bit_len_bounds [of "n - 1"] assms(1) by simp_all
  have "bit_len (n - 1) \<le> 64"
  proof (rule ccontr)
    assume "\<not> bit_len (n - 1) \<le> 64"
    then have "2 ^ 64 \<le> (2 :: nat) ^ (bit_len (n - 1) - 1)"
      by (intro power_increasing) auto
    with b(1) assms show False by linarith
  qed
  then have "pivot n = 2 ^ (bit_len (n - 1) - 1)"
    using b(3) by (simp add: pivot_def leading_zeros_def)
  moreover have "Suc (bit_len (n - 1) - 1) = bit_len (n - 1)"
    using b(3) by simp
  moreover have "2 ^ (bit_len (n - 1) - 1) < n" "n \<le> 2 ^ bit_len (n - 1)"
    using b(1,2) assms(1) by linarith+
  ultimately show ?thesis
    using that [of "bit_len (n - 1) - 1"] by simp
qed

lemma tree_fold_pivot:
  assumes "1 < length xs" and "length xs \<le> 2 ^ 64"
  shows "tree_fold f xs =
    do { l \<leftarrow> tree_fold f (take (pivot (length xs)) xs); r \<leftarrow> tree_fold f (drop (pivot (length xs)) xs); Some (f l r) }"
  by (rule pivot_bounds [OF assms]) (simp add: tree_fold_split)

text \<open>Induction over the shape of the tree.\<close>

lemma pivot_induct [consumes 1, case_names leaf node]:
  assumes "xs \<noteq> []"
    and "\<And>x. P [x]"
    and "\<And>xs. 1 < length xs \<Longrightarrow> P (take (pivot (length xs)) xs) \<Longrightarrow> P (drop (pivot (length xs)) xs) \<Longrightarrow> P xs"
  shows "P xs"
  using assms(1)
proof (induction "length xs" arbitrary: xs rule: less_induct)
  case less
  show ?case
  proof (cases "1 < length xs")
    case True
    have "P (take (pivot (length xs)) xs)" "P (drop (pivot (length xs)) xs)"
      using pivot_less [OF True] pivot_pos [of "length xs"] less.prems
      by (auto intro!: less.hyps simp del: pivot_pos)
    with True show ?thesis by (rule assms(3))
  next
    case False
    with less.prems obtain x where "xs = [x]"
      by (cases xs) auto
    then show ?thesis by (simp add: assms(2))
  qed
qed

section \<open>The specification by pivots\<close>

definition merkle_root :: "(byte list \<Rightarrow> digest) \<Rightarrow> digest list \<Rightarrow> digest" where
  "merkle_root H leaves = the (tree_fold (hash_pair H) leaves)"

text \<open>From the leaf upwards, whether the sibling is on the left.\<close>

function merkle_sides :: "nat \<Rightarrow> nat \<Rightarrow> bool list" where
  "merkle_sides n i =
     (if n > 1
      then if i < pivot n then merkle_sides (pivot n) i @ [False]
           else merkle_sides (n - pivot n) (i - pivot n) @ [True]
      else [])"
  by auto

termination
  by (relation "measure fst") (auto simp: pivot_less)

declare merkle_sides.simps [simp del]

fun fold_sides :: "(byte list \<Rightarrow> digest) \<Rightarrow> bool list \<Rightarrow> digest \<Rightarrow> digest list \<Rightarrow> digest" where
  "fold_sides H (b # bs) acc (h # hs) =
     fold_sides H bs (if b then hash_pair H h acc else hash_pair H acc h) hs"
| "fold_sides H _ acc _ = acc"

lemma fold_sides_snoc:
  "length bs = length hs \<Longrightarrow> fold_sides H (bs @ [b]) acc (hs @ [h]) =
    (let x = fold_sides H bs acc hs in if b then hash_pair H h x else hash_pair H x h)"
  by (induction bs hs arbitrary: acc rule: list_induct2) (simp_all add: Let_def)

lemma tree_fold_Some: "xs \<noteq> [] \<Longrightarrow> \<exists>y. tree_fold f xs = Some y"
proof (induction f xs rule: tree_fold.induct)
  case (3 f x y zs)
  then show ?case by simp
qed simp_all

lemma merkle_root_single [simp]: "merkle_root H [x] = x"
  by (simp add: merkle_root_def)

lemma tree_fold_merkle_root: "xs \<noteq> [] \<Longrightarrow> tree_fold (hash_pair H) xs = Some (merkle_root H xs)"
  using tree_fold_Some [of xs "hash_pair H"] by (auto simp: merkle_root_def)

lemma merkle_root_pivot:
  assumes "1 < length xs" and "length xs \<le> 2 ^ 64"
  shows "merkle_root H xs =
    hash_pair H (merkle_root H (take (pivot (length xs)) xs)) (merkle_root H (drop (pivot (length xs)) xs))"
proof -
  have "take (pivot (length xs)) xs \<noteq> []" "drop (pivot (length xs)) xs \<noteq> []" "xs \<noteq> []"
    using pivot_less [OF assms(1)] assms(1) by auto
  then show ?thesis
    using tree_fold_pivot [OF assms, of "hash_pair H"] by (simp add: tree_fold_merkle_root)
qed




section \<open>Building a proof\<close>

definition marked :: "nat \<Rightarrow> digest list \<Rightarrow> nat \<Rightarrow> hash_or_proof list" where
  "marked k leaves index =
     map (\<lambda>(i, hash). if i = index then HopProof [hash] else HopHash hash) (enumerate k leaves)"

lemma marked_simps [simp]:
  "marked k [] i = []"
  "marked k (x # xs) i = (if k = i then HopProof [x] else HopHash x) # marked (Suc k) xs i"
  by (simp_all add: marked_def)



lemma length_marked [simp]: "length (marked k xs i) = length xs"
  by (simp add: marked_def)


section \<open>Checking a proof\<close>

fun bits_val :: "bool list \<Rightarrow> nat" where
  "bits_val [] = 0"
| "bits_val (b # bs) = of_bool b + 2 * bits_val bs"

lemma bits_val_snoc: "bits_val (bs @ [b]) = bits_val bs + of_bool b * 2 ^ length bs"
  by (induction bs) simp_all

lemma length_merkle_sides:
  "n \<le> 2 ^ k \<Longrightarrow> n \<le> 2 ^ 64 \<Longrightarrow> length (merkle_sides n i) \<le> k"
proof (induction n i arbitrary: k rule: merkle_sides.induct)
  case (1 n i)
  show ?case
  proof (cases "1 < n")
    case True
    from pivot_bounds [OF True "1.prems"(2)] obtain j where
      j: "pivot n = 2 ^ j" "2 ^ j < n" "n \<le> 2 ^ Suc j" .
    have "(2::nat) ^ j < 2 ^ k"
      using j(2) "1.prems"(1) by linarith
    then have "j < k"
      by simp
    then obtain k' where k': "k = Suc k'" "j \<le> k'"
      by (cases k) auto
    then have le: "pivot n \<le> 2 ^ k'" "n - pivot n \<le> 2 ^ k'"
      using j power_increasing [OF k'(2), of "2 :: nat"] by (simp_all, linarith+)
    have "pivot n \<le> 2 ^ 64" "n - pivot n \<le> 2 ^ 64"
      using pivot_less [OF True] "1.prems"(2) by linarith+
    with "1.IH" [OF True] le k'(1) True show ?thesis
      by (simp add: merkle_sides.simps [of n])
  qed (simp add: merkle_sides.simps)
qed

lemma odd_shift_bound:
  assumes "2 * path * 2 ^ l < (2 :: nat) ^ 64" and "l < 64"
  shows "(2 * path + 1) * 2 ^ l < 2 ^ 64"
proof -
  have pow: "(2 :: nat) ^ 64 = 2 ^ (64 - l) * 2 ^ l"
    using assms(2) by (simp flip: power_add)
  with assms(1) have "2 * path < 2 ^ (64 - l)"
    by (metis mult_less_cancel2)
  moreover have "even ((2 :: nat) ^ (64 - l))"
    using assms(2) by simp
  ultimately have "2 * path + 1 < 2 ^ (64 - l)"
    by (metis Suc_eq_plus1 Suc_lessI dvd_triv_left even_Suc)
  then show ?thesis
    unfolding pow by (rule mult_less_mono1) simp
qed

lemma root_path_sides:
  "path * 2 ^ length (merkle_sides n i) < 2 ^ 64 \<Longrightarrow> length (merkle_sides n i) \<le> 64 \<Longrightarrow>
    root_path n i path = path * 2 ^ length (merkle_sides n i) + bits_val (merkle_sides n i)"
proof (induction n i path rule: root_path.induct)
  case (1 n i path)
  show ?case
  proof (cases "1 < n")
    case True
    let ?s = "if i < pivot n then merkle_sides (pivot n) i else merkle_sides (n - pivot n) (i - pivot n)"
    have sides: "merkle_sides n i = ?s @ [\<not> i < pivot n]"
      using True by (simp add: merkle_sides.simps [of n])
    have len: "length ?s < 64"
      using "1.prems"(2) unfolding sides by (simp only: length_append list.size)
    have bound: "2 * path * 2 ^ length ?s < 2 ^ 64"
      using "1.prems"(1) unfolding sides by (simp add: mult.commute mult.left_commute split: if_splits)
    then have "2 * path < 2 ^ 64"
      by (rule le_less_trans [rotated]) simp
    then have path: "2 * path mod 2 ^ 64 = 2 * path"
      by simp
    show ?thesis
    proof (cases "i < pivot n")
      case left: True
      have "root_path (pivot n) i (2 * path mod 2 ^ 64) = 2 * path * 2 ^ length ?s + bits_val ?s"
        using "1.IH"(1) [OF True left] bound len left unfolding path by simp
      then show ?thesis
        unfolding sides bits_val_snoc using left True by (simp add: root_path.simps [of n])
    next
      case right: False
      have "root_path (n - pivot n) (i - pivot n) (2 * path mod 2 ^ 64 + 1) =
          (2 * path + 1) * 2 ^ length ?s + bits_val ?s"
        using "1.IH"(2) [OF True right] odd_shift_bound [OF bound len] len right unfolding path by simp
      then show ?thesis
        unfolding sides bits_val_snoc using right True
        by (simp add: root_path.simps [of n] algebra_simps)
    qed
  qed (simp add: merkle_sides.simps root_path.simps)
qed

lemma root_path_eq: "n \<le> 2 ^ 64 \<Longrightarrow> root_path n i 0 = bits_val (merkle_sides n i)"
  using root_path_sides [of 0 n i] length_merkle_sides [of n 64 i] by simp

lemma fold_proof_sides:
  "length bs = length hs \<Longrightarrow> fold_proof H (bits_val bs) acc hs = fold_sides H bs acc hs"
  by (induction bs hs arbitrary: acc rule: list_induct2) auto

lemma proof_length_loop_sides: "proof_length_loop n i l = l + length (merkle_sides n i)"
  by (induction n i l rule: proof_length_loop.induct) (simp add: proof_length_loop.simps merkle_sides.simps)

lemma verify_iff:
  "indexed_merkle_proof_verify p = Inr () \<longleftrightarrow>
    imp_index p < imp_count p \<and> length (merkle_proof p) = Suc (length (merkle_sides (imp_count p) (imp_index p)))"
  by (auto simp: indexed_merkle_proof_verify_def compute_expected_proof_length_def proof_length_loop_sides Let_def)

lemma compute_root_hash_sides:
  assumes "imp_count p \<le> 2 ^ 64" and "merkle_proof p = leaf # hs"
    and "length hs = length (merkle_sides (imp_count p) (imp_index p))"
  shows "compute_root_hash H p =
    hash_merkle_root H (imp_count p) (fold_sides H (merkle_sides (imp_count p) (imp_index p)) leaf hs)"
  using assms by (simp add: compute_root_hash_def root_path_eq fold_proof_sides)

lemma hash_merkle_tree_root:
  "folds_adjacent tf \<Longrightarrow> leaves \<noteq> [] \<Longrightarrow>
    hash_merkle_tree H tf leaves = hash_merkle_root H (length leaves) (merkle_root H leaves)"
  by (simp add: hash_merkle_tree_def folds_adjacent_def tree_fold_merkle_root)


section \<open>Soundness\<close>

text \<open>The byte strings that are hashed when a tree is built and when a proof is checked.\<close>

function tree_inputs :: "(byte list \<Rightarrow> digest) \<Rightarrow> digest list \<Rightarrow> byte list set" where
  "tree_inputs H xs =
     (if length xs > 1
      then let l = take (pivot (length xs)) xs; r = drop (pivot (length xs)) xs in
           insert (digest_bytes (merkle_root H l) @ digest_bytes (merkle_root H r)) (tree_inputs H l \<union> tree_inputs H r)
      else {})"
  by auto

termination
  by (relation "measure (length \<circ> snd)") (auto simp: pivot_less intro!: diff_less)

declare tree_inputs.simps [simp del]

fun fold_inputs :: "(byte list \<Rightarrow> digest) \<Rightarrow> bool list \<Rightarrow> digest \<Rightarrow> digest list \<Rightarrow> byte list set" where
  "fold_inputs H (b # bs) acc (h # hs) =
     insert (if b then digest_bytes h @ digest_bytes acc else digest_bytes acc @ digest_bytes h)
       (fold_inputs H bs (if b then hash_pair H h acc else hash_pair H acc h) hs)"
| "fold_inputs H _ acc _ = {}"

definition root_input :: "nat \<Rightarrow> digest \<Rightarrow> byte list" where
  "root_input n d = replicate chunk_size_bytes 0 @ le_bytes 8 n @ digest_bytes d"

lemma hash_merkle_root_input: "hash_merkle_root H n d = H (root_input n d)"
  by (simp add: hash_merkle_root_def root_input_def)

lemma le_bytes_inj: "le_bytes k m = le_bytes k n \<Longrightarrow> m < 256 ^ k \<Longrightarrow> n < 256 ^ k \<Longrightarrow> m = n"
  by (metis le_nat_le_bytes mod_less)

lemma root_input_inj:
  "root_input m d = root_input n e \<Longrightarrow> m \<le> u64_max \<Longrightarrow> n \<le> u64_max \<Longrightarrow> m = n \<and> d = e"
  using le_bytes_inj [of 8 m n] by (auto simp: root_input_def u64_max_def)

lemma fold_inputs_snoc:
  "length bs = length hs \<Longrightarrow> fold_inputs H (bs @ [b]) acc (hs @ [h]) =
    insert (let x = fold_sides H bs acc hs in
        if b then digest_bytes h @ digest_bytes x else digest_bytes x @ digest_bytes h)
      (fold_inputs H bs acc hs)"
  by (induction bs hs arbitrary: acc rule: list_induct2) (auto simp: Let_def)

lemma fold_sides_sound:
  assumes "leaves \<noteq> []" and "length leaves \<le> 2 ^ 64" and "i < length leaves"
    and "length hs = length (merkle_sides (length leaves) i)"
    and "fold_sides H (merkle_sides (length leaves) i) leaf hs = merkle_root H leaves"
    and "inj_on H (fold_inputs H (merkle_sides (length leaves) i) leaf hs \<union> tree_inputs H leaves)"
  shows "leaf = leaves ! i"
  using assms
proof (induction leaves arbitrary: i hs rule: pivot_induct)
  case (leaf x)
  then show ?case
    by (simp add: merkle_sides.simps)
next
  case (node xs)
  let ?p = "pivot (length xs)"
  let ?l = "take ?p xs" and ?r = "drop ?p xs"
  note p = pivot_less [OF node(1)]
  note rt = merkle_root_pivot [OF node(1) node.prems(1), of H]
  have inputs: "tree_inputs H xs = insert (digest_bytes (merkle_root H ?l) @ digest_bytes (merkle_root H ?r))
      (tree_inputs H ?l \<union> tree_inputs H ?r)"
    using node(1) by (simp add: tree_inputs.simps [of H xs] Let_def)
  obtain hs' h where hs: "hs = hs' @ [h]"
    using node.prems(3) node(1) by (cases hs rule: rev_cases) (auto simp: merkle_sides.simps [of "length xs"] split: if_splits)
  show ?case
  proof (cases "i < ?p")
    case True
    let ?s = "merkle_sides ?p i"
    have s: "merkle_sides (length xs) i = ?s @ [False]"
      using True node(1) by (simp add: merkle_sides.simps [of "length xs"])
    have len: "length ?s = length hs'"
      using node.prems(3) by (simp add: s hs)
    let ?x = "fold_sides H ?s leaf hs'"
    have "H (digest_bytes ?x @ digest_bytes h) = H (digest_bytes (merkle_root H ?l) @ digest_bytes (merkle_root H ?r))"
      using node.prems(4) by (simp add: s hs fold_sides_snoc len Let_def rt hash_pair_def)
    then have "digest_bytes ?x @ digest_bytes h = digest_bytes (merkle_root H ?l) @ digest_bytes (merkle_root H ?r)"
      by (rule inj_onD [OF node.prems(5)]) (simp_all add: s hs fold_inputs_snoc len Let_def inputs)
    then have "?x = merkle_root H ?l" by simp
    moreover have "inj_on H (fold_inputs H ?s leaf hs' \<union> tree_inputs H ?l)"
      by (rule inj_on_subset [OF node.prems(5)]) (auto simp: s hs fold_inputs_snoc len inputs)
    ultimately show ?thesis
      using node(2) [of i hs'] True p node.prems(1) len by simp
  next
    case False
    let ?s = "merkle_sides (length xs - ?p) (i - ?p)"
    have s: "merkle_sides (length xs) i = ?s @ [True]"
      using False node(1) by (simp add: merkle_sides.simps [of "length xs"])
    have len: "length ?s = length hs'"
      using node.prems(3) by (simp add: s hs)
    let ?x = "fold_sides H ?s leaf hs'"
    have "H (digest_bytes h @ digest_bytes ?x) = H (digest_bytes (merkle_root H ?l) @ digest_bytes (merkle_root H ?r))"
      using node.prems(4) by (simp add: s hs fold_sides_snoc len Let_def rt hash_pair_def)
    then have "digest_bytes h @ digest_bytes ?x = digest_bytes (merkle_root H ?l) @ digest_bytes (merkle_root H ?r)"
      by (rule inj_onD [OF node.prems(5)]) (simp_all add: s hs fold_inputs_snoc len Let_def inputs)
    then have "?x = merkle_root H ?r" by simp
    moreover have "inj_on H (fold_inputs H ?s leaf hs' \<union> tree_inputs H ?r)"
      by (rule inj_on_subset [OF node.prems(5)]) (auto simp: s hs fold_inputs_snoc len inputs)
    ultimately show ?thesis
      using node(3) [of "i - ?p" hs'] False p node.prems(1,2) len by simp
  qed
qed

definition proof_inputs :: "(byte list \<Rightarrow> digest) \<Rightarrow> indexed_merkle_proof \<Rightarrow> byte list set" where
  "proof_inputs H p =
     (let sides = merkle_sides (imp_count p) (imp_index p) in
      insert (root_input (imp_count p) (fold_sides H sides (hd (merkle_proof p)) (tl (merkle_proof p))))
        (fold_inputs H sides (hd (merkle_proof p)) (tl (merkle_proof p))))"

definition merkle_tree_inputs :: "(byte list \<Rightarrow> digest) \<Rightarrow> digest list \<Rightarrow> byte list set" where
  "merkle_tree_inputs H leaves = insert (root_input (length leaves) (merkle_root H leaves)) (tree_inputs H leaves)"

lemma verified_leaf:
  assumes "folds_adjacent tf" and "indexed_merkle_proof_verify p = Inr ()"
    and "compute_root_hash H p = hash_merkle_tree H tf leaves"
    and "imp_count p \<le> u64_max" and "length leaves \<le> u64_max" and "leaves \<noteq> []"
    and "inj_on H (proof_inputs H p \<union> merkle_tree_inputs H leaves)"
  shows "imp_count p = length leaves \<and> imp_index p < length leaves \<and> hd (merkle_proof p) = leaves ! imp_index p"
proof -
  let ?s = "merkle_sides (imp_count p) (imp_index p)"
  obtain leaf hs where pf: "merkle_proof p = leaf # hs" "length hs = length ?s" and i: "imp_index p < imp_count p"
    using assms(2) by (cases "merkle_proof p") (auto simp: verify_iff)
  have "H (root_input (imp_count p) (fold_sides H ?s leaf hs)) = H (root_input (length leaves) (merkle_root H leaves))"
    using assms(3,4) hash_merkle_tree_root [OF assms(1,6), of H] compute_root_hash_sides [OF _ pf]
    by (simp add: hash_merkle_root_input u64_max_def)
  then have "root_input (imp_count p) (fold_sides H ?s leaf hs) = root_input (length leaves) (merkle_root H leaves)"
    by (rule inj_onD [OF assms(7)]) (simp_all add: proof_inputs_def merkle_tree_inputs_def pf Let_def)
  note eq = root_input_inj [OF this assms(4,5), THEN conjunct1] root_input_inj [OF this assms(4,5), THEN conjunct2]
  have "inj_on H (fold_inputs H ?s leaf hs \<union> tree_inputs H leaves)"
    by (rule inj_on_subset [OF assms(7)]) (auto simp: proof_inputs_def merkle_tree_inputs_def pf Let_def)
  with fold_sides_sound [of leaves "imp_index p" hs H leaf] eq pf i assms(5,6) show ?thesis
    by (simp add: u64_max_def)
qed

section \<open>Chunks\<close>

lemma chunks_Nil [simp]: "chunks n [] = []"
  by (simp add: chunks.simps [of n "[]"])

lemma concat_chunks: "0 < n \<Longrightarrow> concat (chunks n xs) = xs"
proof (induction n xs rule: chunks.induct)
  case (1 n xs)
  then show ?case by (cases "xs = []") (simp_all add: chunks.simps [of n xs])
qed

lemma length_chunks: "length (chunks n xs) \<le> length xs"
proof (induction n xs rule: chunks.induct)
  case (1 n xs)
  show ?case
  proof (cases "n = 0 \<or> xs = []")
    case False
    with 1 have "length (chunks n (drop n xs)) \<le> length (drop n xs)"
      by simp
    moreover have "length (drop n xs) < length xs"
      using False by simp
    ultimately have "Suc (length (chunks n (drop n xs))) \<le> length xs"
      by linarith
    then show ?thesis
      using False by (simp add: chunks.simps [of n xs])
  qed (auto simp: chunks.simps [of n xs])
qed

lemma chunks_nonempty: "0 < n \<Longrightarrow> xs \<noteq> [] \<Longrightarrow> chunks n xs \<noteq> []"
  by (simp add: chunks.simps [of n xs])

lemma chunk_size_pos [simp]: "0 < chunk_size_bytes"
  by (simp add: chunk_size_bytes_def)




text \<open>C26. Soundness: a chunk that passes the verification and whose proof has the root hash of the chunks
  of some data is the chunk of that data at the index of the proof, if the hash function has no
  collision on the byte strings hashed on the two sides.\<close>

theorem verified_chunk_sound:
  assumes "folds_adjacent tf" and "data \<noteq> []" and "length data \<le> u64_max"
    and "chunk_with_proof_verify H c = Inr ()" and "imp_count (cwp_proof c) \<le> u64_max"
    and "compute_root_hash H (cwp_proof c) = hash_merkle_tree H tf (map H (chunks chunk_size_bytes data))"
    and "inj_on H (insert (cwp_chunk c) (set (chunks chunk_size_bytes data)) \<union> proof_inputs H (cwp_proof c) \<union>
      merkle_tree_inputs H (map H (chunks chunk_size_bytes data)))"
  shows "imp_count (cwp_proof c) = length (chunks chunk_size_bytes data) \<and>
    imp_index (cwp_proof c) < length (chunks chunk_size_bytes data) \<and>
    cwp_chunk c = chunks chunk_size_bytes data ! imp_index (cwp_proof c)"
proof -
  let ?cs = "chunks chunk_size_bytes data" and ?p = "cwp_proof c"
  have verify: "indexed_merkle_proof_verify ?p = Inr ()" "hd (merkle_proof ?p) = H (cwp_chunk c)"
    using assms(4) by (auto simp: chunk_with_proof_verify_def split: sum.splits list.splits if_splits)
  have "inj_on H (proof_inputs H ?p \<union> merkle_tree_inputs H (map H ?cs))"
    by (rule inj_on_subset [OF assms(7)]) auto
  from verified_leaf [OF assms(1) verify(1) assms(6,5) _ _ this] length_chunks [of chunk_size_bytes data]
    chunks_nonempty [OF _ assms(2), of chunk_size_bytes] assms(3) have
    leaf: "imp_count ?p = length ?cs" "imp_index ?p < length ?cs" "H (cwp_chunk c) = H (?cs ! imp_index ?p)"
    by (simp_all add: verify(2))
  have "cwp_chunk c = ?cs ! imp_index ?p"
    by (rule inj_onD [OF assms(7) leaf(3)]) (use leaf(2) in auto)
  with leaf show ?thesis by simp
qed

theorem verified_chunk_sound_witness:
  "let H = (\<lambda>b. if length b = 1 then sentinel_none else sentinel_rfold);
       c = \<lparr>cwp_proof = \<lparr>imp_index = 0, imp_count = 1, merkle_proof = [sentinel_none]\<rparr>, cwp_chunk = [1]\<rparr>
   in chunk_with_proof_verify H c = Inr () \<and> cwp_chunk c = chunks chunk_size_bytes [1] ! 0"
proof -
  let ?H = "\<lambda>b :: byte list. if length b = 1 then sentinel_none else sentinel_rfold"
  let ?c = "\<lparr>cwp_proof = \<lparr>imp_index = 0, imp_count = 1, merkle_proof = [sentinel_none]\<rparr>, cwp_chunk = [1]\<rparr>"
  have chunks: "chunks chunk_size_bytes [1 :: byte] = [[1]]"
    by (simp add: chunks.simps [of _ "[1]"] chunk_size_bytes_def)
  have sides: "merkle_sides (Suc 0) 0 = []"
    by (simp add: merkle_sides.simps)
  have "indexed_merkle_proof_verify (cwp_proof ?c) = Inr ()"
    by (simp add: verify_iff sides)
  then have verify: "chunk_with_proof_verify ?H ?c = Inr ()"
    by (simp add: chunk_with_proof_verify_def)
  have len: "length (root_input n d) = chunk_size_bytes + 40" for n d
    by (simp add: root_input_def)
  have "sentinel_none \<noteq> sentinel_rfold"
    by (simp add: sentinel_none_def sentinel_rfold_def digest_bytes_eq [symmetric] del: digest_bytes_eq)
  then have "inj_on ?H (insert (cwp_chunk ?c) (set (chunks chunk_size_bytes [1])) \<union> proof_inputs ?H (cwp_proof ?c) \<union>
      merkle_tree_inputs ?H (map ?H (chunks chunk_size_bytes [1])))"
    by (auto simp: chunks sides proof_inputs_def merkle_tree_inputs_def tree_inputs.simps len)
  moreover have "compute_root_hash ?H (cwp_proof ?c) = hash_merkle_tree ?H tree_fold (map ?H (chunks chunk_size_bytes [1]))"
    by (simp add: chunks compute_root_hash_def hash_merkle_tree_def)
  ultimately show ?thesis
    using verified_chunk_sound [of tree_fold "[1]" ?H ?c] verify by (simp add: folds_adjacent_def u64_max_def)
qed

lemma merkle_root_inj:
  assumes "xs \<noteq> []" and "length xs \<le> 2 ^ 64" and "length ys = length xs"
    and "merkle_root H xs = merkle_root H ys" and "inj_on H (tree_inputs H xs \<union> tree_inputs H ys)"
  shows "xs = ys"
  using assms
proof (induction xs arbitrary: ys rule: pivot_induct)
  case (leaf x)
  then show ?case
    by (cases ys) auto
next
  case (node xs)
  let ?p = "pivot (length xs)"
  note p = pivot_less [OF node(1)]
  have inputs: "tree_inputs H zs = insert (digest_bytes (merkle_root H (take ?p zs)) @ digest_bytes (merkle_root H (drop ?p zs)))
      (tree_inputs H (take ?p zs) \<union> tree_inputs H (drop ?p zs))" if "length zs = length xs" for zs
    using node(1) that by (simp add: tree_inputs.simps [of H zs] Let_def)
  have "H (digest_bytes (merkle_root H (take ?p xs)) @ digest_bytes (merkle_root H (drop ?p xs))) =
      H (digest_bytes (merkle_root H (take ?p ys)) @ digest_bytes (merkle_root H (drop ?p ys)))"
    using node.prems(3) merkle_root_pivot [of xs H] merkle_root_pivot [of ys H] node(1) node.prems(1,2)
    by (simp add: hash_pair_def)
  then have "digest_bytes (merkle_root H (take ?p xs)) @ digest_bytes (merkle_root H (drop ?p xs)) =
      digest_bytes (merkle_root H (take ?p ys)) @ digest_bytes (merkle_root H (drop ?p ys))"
    by (rule inj_onD [OF node.prems(4)]) (simp_all add: inputs node.prems(2))
  moreover have "inj_on H (tree_inputs H (take ?p xs) \<union> tree_inputs H (take ?p ys))"
    "inj_on H (tree_inputs H (drop ?p xs) \<union> tree_inputs H (drop ?p ys))"
    by (rule inj_on_subset [OF node.prems(4)], auto simp: inputs node.prems(2))+
  ultimately have "take ?p xs = take ?p ys" "drop ?p xs = drop ?p ys"
    using node(2) [of "take ?p ys"] node(3) [of "drop ?p ys"] node.prems(1,2) p by simp_all
  then show ?case
    by (metis append_take_drop_id)
qed

definition chunked_inputs :: "(byte list \<Rightarrow> digest) \<Rightarrow> byte list \<Rightarrow> byte list set" where
  "chunked_inputs H b =
     (if length b \<le> chunk_size_bytes then {b}
      else set (chunks chunk_size_bytes b) \<union> merkle_tree_inputs H (map H (chunks chunk_size_bytes b)))"

lemma chunked_hash:
  assumes "folds_adjacent tf" and "chunk_size_bytes < length b"
  shows "hash_into_chunks_if_necessary H tf b =
    H (root_input (length (chunks chunk_size_bytes b)) (merkle_root H (map H (chunks chunk_size_bytes b))))"
proof -
  have "b \<noteq> []"
    using assms(2) by auto
  then show ?thesis
    using assms(2) hash_merkle_tree_root [OF assms(1), of "map H (chunks chunk_size_bytes b)"]
      chunks_nonempty [of chunk_size_bytes b]
    by (simp add: hash_into_chunks_if_necessary_def hash_merkle_root_input)
qed

text \<open>C27. Cutting data into chunks does not introduce collisions, neither between two chunked byte strings
  nor between a chunked one and a short one: two byte strings with the same hash are equal if the
  hash function has no collision on what is hashed for them.\<close>

theorem chunked_hash_injective:
  assumes "folds_adjacent tf" and "length a \<le> u64_max" and "length b \<le> u64_max"
    and "hash_into_chunks_if_necessary H tf a = hash_into_chunks_if_necessary H tf b"
    and "inj_on H (chunked_inputs H a \<union> chunked_inputs H b)"
  shows "a = b"
proof -
  let ?cs = "chunks chunk_size_bytes"
  let ?r = "\<lambda>x. root_input (length (?cs x)) (merkle_root H (map H (?cs x)))"
  let ?i = "\<lambda>x. if length x \<le> chunk_size_bytes then x else ?r x"
  have "hash_into_chunks_if_necessary H tf x = H (?i x)" for x
    using chunked_hash [OF assms(1), of x H] by (simp add: hash_into_chunks_if_necessary_def)
  then have "?i a = ?i b"
    using assms(4) by (intro inj_onD [OF assms(5)]) (auto simp: chunked_inputs_def merkle_tree_inputs_def)
  moreover have "length (root_input n d) = chunk_size_bytes + 40" for n d
    by (simp add: root_input_def)
  ultimately consider "a = b" | "chunk_size_bytes < length a" "chunk_size_bytes < length b" "?r a = ?r b"
    by (auto split: if_splits)
  then show ?thesis
  proof cases
    case 2
    have len: "length (?cs a) \<le> u64_max" "length (?cs b) \<le> u64_max"
      using length_chunks [of chunk_size_bytes a] length_chunks [of chunk_size_bytes b] assms(2,3) by linarith+
    note eq = root_input_inj [OF 2(3) len, THEN conjunct1] root_input_inj [OF 2(3) len, THEN conjunct2]
    have "?cs a \<noteq> []"
      using 2(1) by (intro chunks_nonempty) auto
    moreover have "inj_on H (tree_inputs H (map H (?cs a)) \<union> tree_inputs H (map H (?cs b)))"
      using 2(1,2) by (intro inj_on_subset [OF assms(5)]) (auto simp: chunked_inputs_def merkle_tree_inputs_def)
    ultimately have "map H (?cs a) = map H (?cs b)"
      using merkle_root_inj [of "map H (?cs a)" "map H (?cs b)" H] eq len by (simp add: u64_max_def)
    moreover have "inj_on H (set (?cs a) \<union> set (?cs b))"
      using 2(1,2) by (intro inj_on_subset [OF assms(5)]) (auto simp: chunked_inputs_def)
    ultimately have "?cs a = ?cs b"
      by (simp add: inj_on_map_eq_map)
    then show ?thesis
      by (metis chunk_size_pos concat_chunks)
  qed
qed

theorem chunked_hash_injective_witness:
  "hash_into_chunks_if_necessary to_digest tree_fold [1] \<noteq> hash_into_chunks_if_necessary to_digest tree_fold [2]"
proof -
  have "to_digest [1] \<noteq> to_digest [2]"
    by (simp add: digest_bytes_eq [symmetric] digest_bytes_to_digest del: digest_bytes_eq)
  then have "inj_on to_digest (chunked_inputs to_digest [1] \<union> chunked_inputs to_digest [2])"
    by (auto simp: chunked_inputs_def chunk_size_bytes_def)
  from chunked_hash_injective [OF _ _ _ _ this, of tree_fold] show ?thesis
    by (auto simp: folds_adjacent_def u64_max_def)
qed

end
