(* ===== verification/Trie_Types.thy ===== *)
theory Trie_Types
  imports Casper_Digest
begin

text \<open>
  The nodes of the Merkle trie that holds the global state (\<open>src/storage/src/global_state/trie/mod.rs\<close>,
  \<open>src/types/src/global_state/pointer.rs\<close>) and their encoding.

  A pointer block, an array of 256 optional pointers, is a function on bytes. Keys and values are type
  parameters of the code; here they come with their codecs, in the record \<open>tcx\<close> together with the hash
  function. What is assumed of them is \<open>tcx_ok\<close>: the two traits keep their contract, and the encoding of
  a key is not empty and has at most about four gigabytes.
\<close>

section \<open>Pointers\<close>

datatype pointer = LeafPointer digest | NodePointer digest

primrec pointer_hash :: "pointer \<Rightarrow> digest" where
  "pointer_hash (LeafPointer hash) = hash"
| "pointer_hash (NodePointer hash) = hash"

primrec pointer_update :: "pointer \<Rightarrow> digest \<Rightarrow> pointer" where
  "pointer_update (LeafPointer _) hash = LeafPointer hash"
| "pointer_update (NodePointer _) hash = NodePointer hash"

primrec pointer_tag :: "pointer \<Rightarrow> byte" where
  "pointer_tag (LeafPointer _) = 0"
| "pointer_tag (NodePointer _) = 1"

definition pointer_codec :: "pointer codec" where
  "pointer_codec =
     \<lparr>to_bytes = (\<lambda>p. Inr (pointer_tag p # digest_bytes (pointer_hash p))),
      from_bytes = (\<lambda>bytes.
        and_then (from_bytes u8_codec bytes) (\<lambda>(tag, rem).
          if tag = 0 then and_then (from_bytes digest_codec rem) (\<lambda>(hash, rem). Inr (LeafPointer hash, rem))
          else if tag = 1 then and_then (from_bytes digest_codec rem) (\<lambda>(hash, rem). Inr (NodePointer hash, rem))
          else Inl Formatting)),
      serialized_length = (\<lambda>_. 1 + 32)\<rparr>"

lemma from_bytes_pointer [simp]:
  "from_bytes pointer_codec (0 # r) = and_then (from_bytes digest_codec r) (\<lambda>(hash, rem). Inr (LeafPointer hash, rem))"
  "from_bytes pointer_codec (1 # r) = and_then (from_bytes digest_codec r) (\<lambda>(hash, rem). Inr (NodePointer hash, rem))"
  by (simp_all add: pointer_codec_def)

lemma from_bytes_digest [simp]: "from_bytes digest_codec (digest_bytes d @ r) = Inr (d, r)"
  using digest.from_to [of d "digest_bytes d" r] by (simp add: digest_codec_def)

interpretation pointer: canonical_bytesrepr pointer_codec
proof
  fix p b r assume "to_bytes pointer_codec p = Inr b"
  then have b: "b = pointer_tag p # digest_bytes (pointer_hash p)"
    by (simp add: pointer_codec_def)
  then show "from_bytes pointer_codec (b @ r) = Inr (p, r)"
    by (cases p) simp_all
  show "length b = serialized_length pointer_codec p"
    by (simp add: b pointer_codec_def)
next
  fix b p r q assume *: "from_bytes pointer_codec b = Inr (p, r)" "to_bytes pointer_codec p = Inr q"
  from *(1) obtain tag rem where b: "b = tag # rem" "tag = 0 \<or> tag = 1"
    by (cases b) (auto simp: pointer_codec_def split: if_splits)
  with * show "b = q @ r"
    by (auto simp: pointer_codec_def digest_codec_def)
qed

section \<open>Pointer blocks\<close>

type_synonym pointer_block = "byte \<Rightarrow> pointer option"

definition radix :: nat where
  "radix = 256"

text \<open>The indices of the array, in order.\<close>

definition all_bytes :: "byte list" where
  "all_bytes = map word_of_nat [0..<radix]"

lemma set_all_bytes [simp]: "set all_bytes = UNIV"
proof -
  have "b \<in> word_of_nat ` {0..<radix}" for b :: byte
    by (rule image_eqI [of _ _ "unat b"]) (use unsigned_less [of b, where ?'a = nat] in \<open>simp_all add: radix_def\<close>)
  then show ?thesis by (auto simp: all_bytes_def)
qed

lemma length_all_bytes [simp]: "length all_bytes = radix"
  by (simp add: all_bytes_def)

lemma nth_all_bytes: "i < radix \<Longrightarrow> all_bytes ! i = word_of_nat i"
  by (simp add: all_bytes_def)

lemma nth_all_bytes_unat [simp]: "all_bytes ! unat b = b"
  using unsigned_less [of b, where ?'a = nat] by (simp add: nth_all_bytes radix_def)

lemma unat_less_radix [simp]: "unat (b :: byte) < radix"
  using unsigned_less [of b, where ?'a = nat] by (simp add: radix_def)

lemma distinct_all_bytes [simp]: "distinct all_bytes"
proof -
  have "inj_on (word_of_nat :: nat \<Rightarrow> byte) {0..<radix}"
    by (rule inj_on_inverseI [of _ unat]) (simp add: unat_of_nat radix_def)
  then show ?thesis
    by (simp add: all_bytes_def distinct_map)
qed

definition pointer_block_new :: pointer_block where
  "pointer_block_new = (\<lambda>_. None)"

definition from_indexed_pointers :: "(byte \<times> pointer) list \<Rightarrow> pointer_block" where
  "from_indexed_pointers indexed_pointers =
     fold (\<lambda>(idx, ptr) ret. ret(idx := Some ptr)) indexed_pointers pointer_block_new"

definition as_indexed_pointers :: "pointer_block \<Rightarrow> (byte \<times> pointer) list" where
  "as_indexed_pointers pb =
     List.map_filter (\<lambda>index. map_option (\<lambda>value. (index, value)) (pb index)) all_bytes"

definition child_count :: "pointer_block \<Rightarrow> nat" where
  "child_count pb = length (as_indexed_pointers pb)"

text \<open>
  \<open>write_bytes\<close> of an optional pointer; unlike \<open>to_bytes\<close> it does not check the size.
\<close>

definition write_pointer_option :: "pointer option \<Rightarrow> byte list" where
  "write_pointer_option v =
     (case v of None \<Rightarrow> [0] | Some p \<Rightarrow> 1 # pointer_tag p # digest_bytes (pointer_hash p))"

definition pointer_block_write_bytes :: "pointer_block \<Rightarrow> byte list" where
  "pointer_block_write_bytes pb = concat (map (\<lambda>i. write_pointer_option (pb i)) all_bytes)"

definition pointer_block_from_bytes :: "byte list \<Rightarrow> bytesrepr_error + pointer_block \<times> byte list" where
  "pointer_block_from_bytes bytes =
     and_then (from_bytes_n (option_codec pointer_codec) radix bytes) (\<lambda>(block, bytes).
       Inr (\<lambda>i. block ! unat i, bytes))"

definition pointer_block_serialized_length :: "pointer_block \<Rightarrow> nat" where
  "pointer_block_serialized_length pb =
     sum_list (map (\<lambda>i. serialized_length (option_codec pointer_codec) (pb i)) all_bytes)"

lemma to_bytes_write_pointer: "to_bytes (option_codec pointer_codec) v = Inr (write_pointer_option v)"
  by (cases v) (simp_all add: write_pointer_option_def pointer_codec_def u32_max_def)

lemma to_bytes_each_pointers:
  "to_bytes_each (option_codec pointer_codec) vs = Inr (concat (map write_pointer_option vs))"
  by (induction vs) (simp_all add: to_bytes_write_pointer)

lemmas pointer_option_codec = option_codec_canonical [OF pointer.canonical_bytesrepr_axioms]

lemma pointer_block_from_write:
  "pointer_block_from_bytes (pointer_block_write_bytes pb @ r) = Inr (pb, r)"
proof -
  let ?c = "option_codec pointer_codec"
  have "to_bytes_each ?c (map pb all_bytes) = Inr (pointer_block_write_bytes pb)"
    by (simp add: to_bytes_each_pointers pointer_block_write_bytes_def comp_def)
  from from_bytes_n_each [OF canonical_bytesrepr.axioms(1) [OF pointer_option_codec] this, of r]
  have "from_bytes_n ?c radix (pointer_block_write_bytes pb @ r) = Inr (map pb all_bytes, r)"
    by simp
  then show ?thesis
    by (simp add: pointer_block_from_bytes_def)
qed

lemma length_write_pointer: "length (write_pointer_option v) = serialized_length (option_codec pointer_codec) v"
  by (cases v) (simp_all add: write_pointer_option_def pointer_codec_def)

lemma length_pointer_block_write_bytes:
  "length (pointer_block_write_bytes pb) = pointer_block_serialized_length pb"
  by (simp add: pointer_block_write_bytes_def pointer_block_serialized_length_def length_concat comp_def
      length_write_pointer)

lemma pointer_block_serialized_length_le: "pointer_block_serialized_length pb \<le> 34 * 256"
proof -
  have "sum_list (map (\<lambda>i. serialized_length (option_codec pointer_codec) (pb i)) xs) \<le> 34 * length xs" for xs
    by (induction xs) (auto simp: pointer_codec_def split: option.split)
  from this [of all_bytes] show ?thesis
    by (simp add: pointer_block_serialized_length_def radix_def)
qed

lemma as_indexed_pointers_set: "(i, p) \<in> set (as_indexed_pointers pb) \<longleftrightarrow> pb i = Some p"
  by (force simp: as_indexed_pointers_def List.map_filter_def image_iff)

lemma from_indexed_pointers_single [simp]: "from_indexed_pointers [(i, p)] = [i \<mapsto> p]"
  by (auto simp: from_indexed_pointers_def pointer_block_new_def)

section \<open>Tries\<close>

datatype ('k, 'v) trie = Leaf 'k 'v | Node pointer_block | Extension "byte list" pointer

datatype trie_tag = TagLeaf | TagNode | TagExtension

definition trie_tag_to_u8 :: "trie_tag \<Rightarrow> byte" where
  "trie_tag_to_u8 tag = (case tag of TagLeaf \<Rightarrow> 0 | TagNode \<Rightarrow> 1 | TagExtension \<Rightarrow> 2)"

definition trie_tag_from_u8 :: "byte \<Rightarrow> trie_tag option" where
  "trie_tag_from_u8 b =
     (if b = 0 then Some TagLeaf else if b = 1 then Some TagNode else if b = 2 then Some TagExtension else None)"

record ('k, 'v) tcx =
  key_codec :: "'k codec"
  value_codec :: "'v codec"
  blake2b :: "byte list \<Rightarrow> digest"
  tree_fold1 :: "digest tree_fold"

definition trie_serialized_length :: "('k, 'v) tcx \<Rightarrow> ('k, 'v) trie \<Rightarrow> nat" where
  "trie_serialized_length cx t =
     1 + (case t of
            Leaf key value \<Rightarrow> serialized_length (key_codec cx) key + serialized_length (value_codec cx) value
          | Node pointer_block \<Rightarrow> pointer_block_serialized_length pointer_block
          | Extension affix pointer \<Rightarrow> serialized_length bytes_codec affix + serialized_length pointer_codec pointer)"

definition trie_write_bytes :: "('k, 'v) tcx \<Rightarrow> ('k, 'v) trie \<Rightarrow> bytesrepr_error + byte list" where
  "trie_write_bytes cx t =
     (case t of
        Leaf key value \<Rightarrow>
          and_then (to_bytes (key_codec cx) key) (\<lambda>k.
          and_then (to_bytes (value_codec cx) value) (\<lambda>v. Inr (trie_tag_to_u8 TagLeaf # k @ v)))
      | Node pointer_block \<Rightarrow> Inr (trie_tag_to_u8 TagNode # pointer_block_write_bytes pointer_block)
      | Extension affix pointer \<Rightarrow>
          and_then (u8_slice_to_bytes affix) (\<lambda>a.
          and_then (to_bytes pointer_codec pointer) (\<lambda>p. Inr (trie_tag_to_u8 TagExtension # a @ p))))"

definition trie_to_bytes :: "('k, 'v) tcx \<Rightarrow> ('k, 'v) trie \<Rightarrow> bytesrepr_error + byte list" where
  "trie_to_bytes cx t =
     and_then (allocate_buffer_for_size (trie_serialized_length cx t)) (\<lambda>_. trie_write_bytes cx t)"

definition trie_from_bytes :: "('k, 'v) tcx \<Rightarrow> byte list \<Rightarrow> bytesrepr_error + ('k, 'v) trie \<times> byte list" where
  "trie_from_bytes cx bytes =
     and_then (from_bytes u8_codec bytes) (\<lambda>(tag_byte, rem).
       case trie_tag_from_u8 tag_byte of
         None \<Rightarrow> Inl Formatting
       | Some TagLeaf \<Rightarrow>
           and_then (from_bytes (key_codec cx) rem) (\<lambda>(key, rem).
           and_then (from_bytes (value_codec cx) rem) (\<lambda>(value, rem). Inr (Leaf key value, rem)))
       | Some TagNode \<Rightarrow>
           and_then (pointer_block_from_bytes rem) (\<lambda>(pointer_block, rem). Inr (Node pointer_block, rem))
       | Some TagExtension \<Rightarrow>
           and_then (from_bytes bytes_codec rem) (\<lambda>(affix, rem).
           and_then (from_bytes pointer_codec rem) (\<lambda>(pointer, rem). Inr (Extension affix pointer, rem))))"

definition trie_codec :: "('k, 'v) tcx \<Rightarrow> ('k, 'v) trie codec" where
  "trie_codec cx =
     \<lparr>to_bytes = trie_to_bytes cx, from_bytes = trie_from_bytes cx, serialized_length = trie_serialized_length cx\<rparr>"

definition trie_hash :: "('k, 'v) tcx \<Rightarrow> ('k, 'v) trie \<Rightarrow> bytesrepr_error + digest" where
  "trie_hash cx t =
     and_then (trie_to_bytes cx t) (\<lambda>bytes. Inr (hash_into_chunks_if_necessary (blake2b cx) (tree_fold1 cx) bytes))"

definition create_hashed_empty_trie :: "('k, 'v) tcx \<Rightarrow> bytesrepr_error + digest \<times> ('k, 'v) trie" where
  "create_hashed_empty_trie cx =
     and_then (trie_to_bytes cx (Node pointer_block_new)) (\<lambda>root_bytes.
       Inr (blake2b cx root_bytes, Node pointer_block_new))"

text \<open>A leaf stays serialized: \<open>LazyLeaf\<close> holds all its bytes, with the tag.\<close>

datatype lazy_trie = LazyLeaf "byte list" | LazyNode pointer_block | LazyExtension "byte list" pointer

definition lazy_from_bytes :: "byte list \<Rightarrow> bytesrepr_error + lazy_trie \<times> byte list" where
  "lazy_from_bytes bytes =
     and_then (from_bytes u8_codec bytes) (\<lambda>(tag_byte, rem).
       case trie_tag_from_u8 tag_byte of
         None \<Rightarrow> Inl Formatting
       | Some TagLeaf \<Rightarrow> Inr (LazyLeaf bytes, [])
       | Some TagNode \<Rightarrow>
           and_then (pointer_block_from_bytes rem) (\<lambda>(pointer_block, rem). Inr (LazyNode pointer_block, rem))
       | Some TagExtension \<Rightarrow>
           and_then (from_bytes bytes_codec rem) (\<lambda>(affix, rem).
           and_then (from_bytes pointer_codec rem) (\<lambda>(pointer, rem). Inr (LazyExtension affix pointer, rem))))"

definition deserialize_lazy :: "byte list \<Rightarrow> bytesrepr_error + lazy_trie" where
  "deserialize_lazy bytes =
     and_then (lazy_from_bytes bytes) (\<lambda>(t, remainder).
       if remainder = [] then Inr t else Inl LeftOverBytes)"

text \<open>The tag of the bytes of a leaf is asserted to be that of a leaf.\<close>

definition try_deserialize_leaf_key ::
  "('k, 'v) tcx \<Rightarrow> byte list \<Rightarrow> (bytesrepr_error + 'k \<times> byte list) option" where
  "try_deserialize_leaf_key cx bytes =
     (case from_bytes u8_codec bytes of
        Inl e \<Rightarrow> Some (Inl e)
      | Inr (tag_byte, rem) \<Rightarrow>
          (case trie_tag_from_u8 tag_byte of
             None \<Rightarrow> Some (Inl Formatting)
           | Some TagLeaf \<Rightarrow> Some (from_bytes (key_codec cx) rem)
           | Some _ \<Rightarrow> None))"

section \<open>The encoding is faithful\<close>

definition tcx_ok :: "('k, 'v) tcx \<Rightarrow> bool" where
  "tcx_ok cx \<longleftrightarrow>
     bytesrepr (key_codec cx) \<and> bytesrepr (value_codec cx) \<and>
     (\<forall>k. \<exists>b. to_bytes (key_codec cx) k = Inr b \<and> b \<noteq> [] \<and> length b \<le> u32_max - 38)"

lemma trie_tag_from_to [simp]:
  "trie_tag_from_u8 0 = Some TagLeaf" "trie_tag_from_u8 1 = Some TagNode" "trie_tag_from_u8 2 = Some TagExtension"
  by (simp_all add: trie_tag_from_u8_def)

lemma slice_bytes:
  assumes "u8_slice_to_bytes a = Inr b"
  shows "from_bytes bytes_codec (b @ r) = Inr (a, r)" "length b = serialized_length bytes_codec a"
proof -
  have "to_bytes bytes_codec a = Inr b"
    using assms by (simp add: bytes_codec_def)
  then show "from_bytes bytes_codec (b @ r) = Inr (a, r)" "length b = serialized_length bytes_codec a"
    by (rule bytes.from_to, rule bytes.length_to)
qed

lemma trie_codec_bytesrepr:
  assumes "bytesrepr (key_codec cx)" and "bytesrepr (value_codec cx)"
  shows "bytesrepr (trie_codec cx)"
proof
  fix t b r assume *: "to_bytes (trie_codec cx) t = Inr b"
  then have w: "trie_write_bytes cx t = Inr b"
    by (auto simp: trie_codec_def trie_to_bytes_def)
  show "from_bytes (trie_codec cx) (b @ r) = Inr (t, r)"
    using w
    by (cases t) (auto simp: trie_codec_def trie_write_bytes_def trie_from_bytes_def trie_tag_to_u8_def
        assms [THEN bytesrepr.from_to] pointer_block_from_write slice_bytes(1) pointer.from_to)
  show "length b = serialized_length (trie_codec cx) t"
    using w
    by (cases t) (auto simp: trie_codec_def trie_write_bytes_def trie_serialized_length_def trie_tag_to_u8_def
        assms [THEN bytesrepr.length_to] length_pointer_block_write_bytes slice_bytes(2) pointer.length_to)
qed

lemma trie_to_bytes_Inr:
  "trie_to_bytes cx t = Inr b \<longleftrightarrow> trie_serialized_length cx t \<le> u32_max \<and> trie_write_bytes cx t = Inr b"
  by (auto simp: trie_to_bytes_def)

lemma deserialize_trie_to:
  assumes "tcx_ok cx" and "trie_to_bytes cx t = Inr b"
  shows "deserialize (trie_codec cx) b = Inr t"
  using bytesrepr.deserialize_to [OF trie_codec_bytesrepr, of cx t b] assms
  by (simp add: tcx_ok_def trie_codec_def)

lemma deserialize_lazy_to:
  assumes "trie_to_bytes cx t = Inr b"
  shows "deserialize_lazy b =
    Inr (case t of Leaf _ _ \<Rightarrow> LazyLeaf b | Node pb \<Rightarrow> LazyNode pb | Extension a p \<Rightarrow> LazyExtension a p)"
  using assms pointer_block_from_write [of _ "[]"] slice_bytes(1) pointer.from_to [of _ _ "[]"]
  by (cases t) (auto simp: deserialize_lazy_def lazy_from_bytes_def trie_to_bytes_Inr trie_write_bytes_def
      trie_tag_to_u8_def)

lemma try_deserialize_leaf_key_to:
  assumes "tcx_ok cx" and "trie_to_bytes cx (Leaf k v) = Inr b"
  shows "\<exists>vb. to_bytes (value_codec cx) v = Inr vb \<and> try_deserialize_leaf_key cx b = Some (Inr (k, vb))"
  using assms
  by (auto simp: try_deserialize_leaf_key_def trie_to_bytes_Inr trie_write_bytes_def trie_tag_to_u8_def tcx_ok_def
      bytesrepr.from_to)

lemma node_to_bytes: "trie_to_bytes cx (Node pb) = Inr (1 # pointer_block_write_bytes pb)"
  using pointer_block_serialized_length_le [of pb]
  by (simp add: trie_to_bytes_Inr trie_write_bytes_def trie_serialized_length_def trie_tag_to_u8_def u32_max_def)

lemma extension_to_bytes:
  "length affix \<le> u32_max - 38 \<Longrightarrow> \<exists>b. trie_to_bytes cx (Extension affix p) = Inr b"
  by (auto simp: trie_to_bytes_Inr trie_write_bytes_def trie_serialized_length_def u8_slice_to_bytes_def
      pointer_codec_def bytes_codec_def u32_max_def)

end
