(* ===== verification/Trie_Store.thy ===== *)
theory Trie_Store
  imports Trie_Types
begin

text \<open>
  The operations of the global state on the trie store
  (\<open>src/storage/src/global_state/trie_store/operations/mod.rs\<close>, \<open>store/mod.rs\<close>).

  The store, as seen through a transaction, is a map from digests to the bytes of a trie. The input and
  output errors of the database, which every function passes on with \<open>?\<close>, are not modelled; errors are
  those of the encoding. A result is \<open>None\<close> for a panic or an endless loop, \<open>Some (Inl e)\<close> for an error,
  and \<open>Some (Inr x)\<close> for a value.
\<close>

type_synonym store = "digest \<Rightarrow> byte list option"

type_synonym 'a outcome_of = "(bytesrepr_error + 'a) option"

text \<open>The operator \<open>?\<close> in code that may panic.\<close>

definition attempt :: "'e + 'a \<Rightarrow> ('a \<Rightarrow> ('e + 'b) option) \<Rightarrow> ('e + 'b) option" where
  "attempt m f = (case m of Inl e \<Rightarrow> Some (Inl e) | Inr x \<Rightarrow> f x)"

lemma attempt_simps [simp]: "attempt (Inl e) f = Some (Inl e)" "attempt (Inr x) f = f x"
  by (simp_all add: attempt_def)

section \<open>The store\<close>

definition store_get :: "('k, 'v) tcx \<Rightarrow> store \<Rightarrow> digest \<Rightarrow> bytesrepr_error + ('k, 'v) trie option" where
  "store_get cx s key =
     (case s key of
        Some bytes \<Rightarrow> and_then (deserialize (trie_codec cx) bytes) (\<lambda>t. Inr (Some t))
      | None \<Rightarrow> Inr None)"

definition store_put ::
  "('k, 'v) tcx \<Rightarrow> digest \<Rightarrow> ('k, 'v) trie \<Rightarrow> store \<Rightarrow> bytesrepr_error + store" where
  "store_put cx key t s = and_then (trie_to_bytes cx t) (\<lambda>serialized_value. Inr (s(key \<mapsto> serialized_value)))"

fun put_all :: "('k, 'v) tcx \<Rightarrow> (digest \<times> ('k, 'v) trie) list \<Rightarrow> store \<Rightarrow> bytesrepr_error + store" where
  "put_all cx [] s = Inr s"
| "put_all cx ((hash, element) # es) s = and_then (store_put cx hash element s) (put_all cx es)"

section \<open>Reading\<close>

datatype 'v read_result = Found 'v | NotFound | RootNotFound

text \<open>The slice \<open>&path[depth..depth + affix.len()]\<close> panics if the path is too short.\<close>

partial_function (option) read_loop ::
  "('k, 'v) tcx \<Rightarrow> store \<Rightarrow> 'k \<Rightarrow> byte list \<Rightarrow> nat \<Rightarrow> ('k, 'v) trie \<Rightarrow>
     (bytesrepr_error + 'v read_result) option" where
  "read_loop cx s key path depth current =
     (case current of
        Leaf leaf_key leaf_value \<Rightarrow> Some (Inr (if key = leaf_key then Found leaf_value else NotFound))
      | Node pointer_block \<Rightarrow>
          if depth < length path
          then case pointer_block (path ! depth) of
                 None \<Rightarrow> Some (Inr NotFound)
               | Some pointer \<Rightarrow>
                   (case store_get cx s (pointer_hash pointer) of
                      Inl e \<Rightarrow> Some (Inl e)
                    | Inr None \<Rightarrow> Some (Inr NotFound)
                    | Inr (Some next) \<Rightarrow> read_loop cx s key path (depth + 1) next)
          else None
      | Extension affix pointer \<Rightarrow>
          if depth + length affix \<le> length path
          then if take (length affix) (drop depth path) = affix
               then case store_get cx s (pointer_hash pointer) of
                      Inl e \<Rightarrow> Some (Inl e)
                    | Inr None \<Rightarrow> Some (Inr NotFound)
                    | Inr (Some next) \<Rightarrow> read_loop cx s key path (depth + length affix) next
               else Some (Inr NotFound)
          else None)"

definition read :: "('k, 'v) tcx \<Rightarrow> store \<Rightarrow> digest \<Rightarrow> 'k \<Rightarrow> (bytesrepr_error + 'v read_result) option" where
  "read cx s state_root key =
     attempt (to_bytes (key_codec cx) key) (\<lambda>path.
     attempt (store_get cx s state_root) (\<lambda>r.
       case r of
         None \<Rightarrow> Some (Inr RootNotFound)
       | Some current \<Rightarrow> read_loop cx s key path 0 current))"

section \<open>Reading with a proof\<close>

datatype trie_merkle_proof_step = PsNode byte "(byte \<times> pointer) list" | PsExtension "byte list"

record ('k, 'v) trie_merkle_proof =
  tp_key :: 'k
  tp_value :: 'v
  tp_steps :: "trie_merkle_proof_step list"

partial_function (option) read_proof_loop ::
  "('k, 'v) tcx \<Rightarrow> store \<Rightarrow> 'k \<Rightarrow> byte list \<Rightarrow> trie_merkle_proof_step list \<Rightarrow> nat \<Rightarrow> ('k, 'v) trie \<Rightarrow>
     (bytesrepr_error + ('k, 'v) trie_merkle_proof read_result) option" where
  "read_proof_loop cx s key path proof_steps depth current =
     (case current of
        Leaf leaf_key value \<Rightarrow>
          Some (Inr (if key \<noteq> leaf_key then NotFound
                     else Found \<lparr>tp_key = leaf_key, tp_value = value, tp_steps = proof_steps\<rparr>))
      | Node pointer_block \<Rightarrow>
          if depth < length path
          then let hole_index = path ! depth in
               case pointer_block hole_index of
                 None \<Rightarrow> Some (Inr NotFound)
               | Some pointer \<Rightarrow>
                   (case store_get cx s (pointer_hash pointer) of
                      Inl e \<Rightarrow> Some (Inl e)
                    | Inr None \<Rightarrow> Some (Inr NotFound)
                    | Inr (Some next) \<Rightarrow>
                        read_proof_loop cx s key path
                          (PsNode hole_index (filter (\<lambda>(index, _). index \<noteq> hole_index) (as_indexed_pointers pointer_block))
                             # proof_steps) (depth + 1) next)
          else None
      | Extension affix pointer \<Rightarrow>
          if depth + length affix \<le> length path
          then if take (length affix) (drop depth path) = affix
               then case store_get cx s (pointer_hash pointer) of
                      Inl e \<Rightarrow> Some (Inl e)
                    | Inr None \<Rightarrow> Some (Inr NotFound)
                    | Inr (Some next) \<Rightarrow>
                        read_proof_loop cx s key path (PsExtension affix # proof_steps) (depth + length affix) next
               else Some (Inr NotFound)
          else None)"

definition read_with_proof ::
  "('k, 'v) tcx \<Rightarrow> store \<Rightarrow> digest \<Rightarrow> 'k \<Rightarrow> (bytesrepr_error + ('k, 'v) trie_merkle_proof read_result) option" where
  "read_with_proof cx s state_root key =
     attempt (to_bytes (key_codec cx) key) (\<lambda>path.
     attempt (store_get cx s state_root) (\<lambda>r.
       case r of
         None \<Rightarrow> Some (Inr RootNotFound)
       | Some current \<Rightarrow> read_proof_loop cx s key path [] 0 current))"

fun proof_steps_hash ::
  "('k, 'v) tcx \<Rightarrow> nat \<Rightarrow> digest \<Rightarrow> trie_merkle_proof_step list \<Rightarrow> bytesrepr_error + digest" where
  "proof_steps_hash cx n hash [] = Inr hash"
| "proof_steps_hash cx n hash (proof_step # steps) =
     (let pointer = if n = 0 then LeafPointer hash else NodePointer hash in
      and_then
        (case proof_step of
           PsNode hole_index indexed_pointers_with_hole \<Rightarrow>
             trie_to_bytes cx (Node (from_indexed_pointers (indexed_pointers_with_hole @ [(hole_index, pointer)])))
         | PsExtension affix \<Rightarrow> trie_to_bytes cx (Extension affix pointer))
        (\<lambda>proof_step_bytes. proof_steps_hash cx (n + 1) (blake2b cx proof_step_bytes) steps))"

definition compute_state_hash :: "('k, 'v) tcx \<Rightarrow> ('k, 'v) trie_merkle_proof \<Rightarrow> bytesrepr_error + digest" where
  "compute_state_hash cx p =
     and_then (trie_hash cx (Leaf (tp_key p) (tp_value p))) (\<lambda>hash. proof_steps_hash cx 0 hash (tp_steps p))"

section \<open>Missing children\<close>

definition missing_children :: "('k, 'v) tcx \<Rightarrow> store \<Rightarrow> byte list \<Rightarrow> bytesrepr_error + digest list" where
  "missing_children cx s trie_raw =
     (if trie_raw \<noteq> [] \<and> trie_tag_from_u8 (hd trie_raw) = Some TagLeaf then Inr []
      else and_then (deserialize (trie_codec cx) trie_raw) (\<lambda>t.
        let is_present = (\<lambda>trie_key. s trie_key \<noteq> None) in
        Inr (case t of
               Leaf _ _ \<Rightarrow> []
             | Node pointer_block \<Rightarrow>
                 filter (\<lambda>pointer_hash. \<not> is_present pointer_hash)
                   (map (\<lambda>(_, pointer). pointer_hash pointer) (as_indexed_pointers pointer_block))
             | Extension _ pointer \<Rightarrow>
                 if is_present (pointer_hash pointer) then [] else [pointer_hash pointer])))"

definition put_trie :: "('k, 'v) tcx \<Rightarrow> byte list \<Rightarrow> store \<Rightarrow> digest \<times> store" where
  "put_trie cx trie_bytes s =
     (let trie_hash = hash_into_chunks_if_necessary (blake2b cx) (tree_fold1 cx) trie_bytes
      in (trie_hash, s(trie_hash \<mapsto> trie_bytes)))"

section \<open>Scanning\<close>

type_synonym ('k, 'v) parents = "(byte \<times> ('k, 'v) trie) list"

record ('k, 'v) trie_scan_raw =
  scan_tip :: lazy_trie
  scan_parents :: "('k, 'v) parents"

text \<open>Descends as far as the path leads; the parents are collected from the root down.\<close>

partial_function (option) scan_raw ::
  "store \<Rightarrow> byte list \<Rightarrow> byte list \<Rightarrow> nat \<Rightarrow> ('k, 'v) parents \<Rightarrow>
     (bytesrepr_error + ('k, 'v) trie_scan_raw) option" where
  "scan_raw s path current depth acc =
     (case deserialize_lazy current of
        Inl e \<Rightarrow> Some (Inl e)
      | Inr (LazyLeaf leaf_bytes) \<Rightarrow> Some (Inr \<lparr>scan_tip = LazyLeaf leaf_bytes, scan_parents = acc\<rparr>)
      | Inr (LazyNode pointer_block) \<Rightarrow>
          if depth < length path
          then let index = path ! depth in
               case pointer_block index of
                 None \<Rightarrow> Some (Inr \<lparr>scan_tip = LazyNode pointer_block, scan_parents = acc\<rparr>)
               | Some pointer \<Rightarrow>
                   (case s (pointer_hash pointer) of
                      None \<Rightarrow> None
                    | Some next \<Rightarrow> scan_raw s path next (depth + 1) (acc @ [(index, Node pointer_block)]))
          else None
      | Inr (LazyExtension affix pointer) \<Rightarrow>
          if length path < depth + length affix
          then Some (Inr \<lparr>scan_tip = LazyExtension affix pointer, scan_parents = acc\<rparr>)
          else if take (length affix) (drop depth path) \<noteq> affix
          then Some (Inr \<lparr>scan_tip = LazyExtension affix pointer, scan_parents = acc\<rparr>)
          else case s (pointer_hash pointer) of
                 None \<Rightarrow> None
               | Some next \<Rightarrow>
                   if depth < length path
                   then scan_raw s path next (depth + length affix) (acc @ [(path ! depth, Extension affix pointer)])
                   else None)"

section \<open>Writing\<close>

text \<open>
  The new elements of the trie, from the tip upwards to the new root; the parents are consumed from the
  deepest to the root, hence reversed.
\<close>

fun rehash_loop ::
  "('k, 'v) tcx \<Rightarrow> ('k, 'v) trie \<Rightarrow> digest \<Rightarrow> ('k, 'v) parents \<Rightarrow>
     (bytesrepr_error + (digest \<times> ('k, 'v) trie) list) option" where
  "rehash_loop cx tip tip_hash [] = Some (Inr [])"
| "rehash_loop cx tip tip_hash ((index, parent) # parents) =
     (case parent of
        Leaf _ _ \<Rightarrow> None
      | Node pointer_block \<Rightarrow>
          let pointer = (case tip of Leaf _ _ \<Rightarrow> LeafPointer tip_hash | _ \<Rightarrow> NodePointer tip_hash);
              tip = Node (pointer_block(index := Some pointer))
          in attempt (trie_hash cx tip) (\<lambda>tip_hash. do {
               r \<leftarrow> rehash_loop cx tip tip_hash parents;
               attempt r (\<lambda>es. Some (Inr ((tip_hash, tip) # es)))
             })
      | Extension affix pointer \<Rightarrow>
          let tip = Extension affix (pointer_update pointer tip_hash)
          in attempt (trie_hash cx tip) (\<lambda>tip_hash. do {
               r \<leftarrow> rehash_loop cx tip tip_hash parents;
               attempt r (\<lambda>es. Some (Inr ((tip_hash, tip) # es)))
             }))"

definition rehash ::
  "('k, 'v) tcx \<Rightarrow> ('k, 'v) trie \<Rightarrow> ('k, 'v) parents \<Rightarrow>
     (bytesrepr_error + (digest \<times> ('k, 'v) trie) list) option" where
  "rehash cx tip parents =
     attempt (trie_hash cx tip) (\<lambda>tip_hash. do {
       r \<leftarrow> rehash_loop cx tip tip_hash (rev parents);
       attempt r (\<lambda>es. Some (Inr ((tip_hash, tip) # es)))
     })"

fun common_prefix :: "'a list \<Rightarrow> 'a list \<Rightarrow> 'a list" where
  "common_prefix (l # ls) (r # rs) = (if l = r then l # common_prefix ls rs else [])"
| "common_prefix _ _ = []"

fun get_parents_path :: "('k, 'v) parents \<Rightarrow> byte list" where
  "get_parents_path [] = []"
| "get_parents_path ((index, element) # parents) =
     (case element of Extension affix _ \<Rightarrow> affix | _ \<Rightarrow> [index]) @ get_parents_path parents"

definition add_node_to_parents ::
  "byte list \<Rightarrow> ('k, 'v) trie \<Rightarrow> ('k, 'v) parents \<Rightarrow> ('k, 'v) parents option" where
  "add_node_to_parents path_to_leaf new_parent_node parents =
     do {
       assert_that (case new_parent_node of Node _ \<Rightarrow> True | _ \<Rightarrow> False);
       let path_to_node = get_parents_path parents;
       assert_that (common_prefix path_to_leaf path_to_node = path_to_node);
       let depth = length path_to_node;
       assert_that (depth < length path_to_leaf);
       Some (parents @ [(path_to_leaf ! depth, new_parent_node)])
     }"

definition reparent_leaf ::
  "('k, 'v) tcx \<Rightarrow> byte list \<Rightarrow> byte list \<Rightarrow> ('k, 'v) parents \<Rightarrow>
     (bytesrepr_error + ('k, 'v) trie \<times> ('k, 'v) parents) option" where
  "reparent_leaf cx new_leaf_path existing_leaf_path parents =
     (if parents = [] then None
      else let (child_index, parent) = last parents in
        case parent of
          Node pointer_block \<Rightarrow>
            do {
              let shared_path = common_prefix new_leaf_path existing_leaf_path;
              assert_that (length shared_path < length existing_leaf_path);
              existing_leaf_pointer \<leftarrow> pointer_block child_index;
              let new_node = Node (from_indexed_pointers [(existing_leaf_path ! length shared_path, existing_leaf_pointer)]);
              let parents_path = get_parents_path parents;
              assert_that (length parents_path \<le> length shared_path);
              let affix = drop (length parents_path) shared_path;
              if affix \<noteq> []
              then attempt (trie_hash cx new_node) (\<lambda>new_node_hash.
                     Some (Inr (new_node, parents @ [(child_index, Extension affix (NodePointer new_node_hash))])))
              else Some (Inr (new_node, parents))
            }
        | _ \<Rightarrow> None)"

record ('k, 'v) split_result =
  split_new_node :: "('k, 'v) trie"
  split_parents :: "('k, 'v) parents"
  maybe_hashed_child_extension :: "(digest \<times> ('k, 'v) trie) option"

definition split_extension ::
  "('k, 'v) tcx \<Rightarrow> byte list \<Rightarrow> ('k, 'v) trie \<Rightarrow> ('k, 'v) parents \<Rightarrow>
     (bytesrepr_error + ('k, 'v) split_result) option" where
  "split_extension cx new_leaf_path existing_extension parents =
     (case existing_extension of
        Extension affix pointer \<Rightarrow>
          do {
            let parents_path = get_parents_path parents;
            let existing_extension_path = parents_path @ affix;
            let shared_path = common_prefix new_leaf_path existing_extension_path;
            assert_that (length parents_path \<le> length shared_path);
            let parent_extension_affix = drop (length parents_path) shared_path;
            assert_that (length parent_extension_affix + 1 \<le> length affix);
            let child_extension_affix = drop (length parent_extension_affix + 1) affix;
            attempt
              (if child_extension_affix = [] then Inr None
               else let child_extension = Extension child_extension_affix pointer in
                 and_then (trie_hash cx child_extension) (\<lambda>hash. Inr (Some (hash, child_extension))))
              (\<lambda>maybe_child. do {
                 assert_that (length shared_path < length existing_extension_path);
                 let new_node = Node (from_indexed_pointers [(existing_extension_path ! length shared_path,
                   case maybe_child of None \<Rightarrow> pointer | Some (hash, _) \<Rightarrow> NodePointer hash)]);
                 if parent_extension_affix \<noteq> []
                 then attempt (trie_hash cx new_node) (\<lambda>new_node_hash.
                   Some (Inr \<lparr>split_new_node = new_node,
                     split_parents = parents @ [(hd parent_extension_affix,
                       Extension parent_extension_affix (NodePointer new_node_hash))],
                     maybe_hashed_child_extension = maybe_child\<rparr>))
                 else Some (Inr \<lparr>split_new_node = new_node, split_parents = parents,
                   maybe_hashed_child_extension = maybe_child\<rparr>)
               })
          }
      | _ \<Rightarrow> None)"

datatype write_result = Written digest | AlreadyExists | WriteRootNotFound

text \<open>What \<open>write\<close> adds to the store.\<close>

definition new_elements ::
  "('k, 'v) tcx \<Rightarrow> 'k \<Rightarrow> 'v \<Rightarrow> byte list \<Rightarrow> lazy_trie \<Rightarrow> ('k, 'v) parents \<Rightarrow>
     (bytesrepr_error + (digest \<times> ('k, 'v) trie) list) option" where
  "new_elements cx key value path tip parents =
     (let new_leaf = Leaf key value in
      case tip of
        LazyLeaf leaf_bytes \<Rightarrow>
          do {
            r \<leftarrow> try_deserialize_leaf_key cx leaf_bytes;
            attempt r (\<lambda>(existing_leaf_key, existing_value_bytes).
              if key \<noteq> existing_leaf_key
              then attempt (to_bytes (key_codec cx) existing_leaf_key) (\<lambda>existing_leaf_path. do {
                r \<leftarrow> reparent_leaf cx path existing_leaf_path parents;
                attempt r (\<lambda>(new_node, parents). do {
                  parents \<leftarrow> add_node_to_parents path new_node parents;
                  rehash cx new_leaf parents
                })
              })
              else attempt (to_bytes (value_codec cx) value) (\<lambda>new_value_bytes.
                if new_value_bytes \<noteq> existing_value_bytes then rehash cx new_leaf parents
                else Some (Inr [])))
          }
      | LazyNode pointer_block \<Rightarrow>
          do {
            parents \<leftarrow> add_node_to_parents path (Node pointer_block) parents;
            rehash cx new_leaf parents
          }
      | LazyExtension affix pointer \<Rightarrow>
          do {
            r \<leftarrow> split_extension cx path (Extension affix pointer) parents;
            attempt r (\<lambda>res. do {
              parents \<leftarrow> add_node_to_parents path (split_new_node res) (split_parents res);
              case maybe_hashed_child_extension res of
                Some hashed_extension \<Rightarrow>
                  do {
                    r \<leftarrow> rehash cx new_leaf parents;
                    attempt r (\<lambda>es. Some (Inr (hashed_extension # es)))
                  }
              | None \<Rightarrow> rehash cx new_leaf parents
            })
          })"

definition write_trie ::
  "('k, 'v) tcx \<Rightarrow> digest \<Rightarrow> 'k \<Rightarrow> 'v \<Rightarrow> store \<Rightarrow> (bytesrepr_error + write_result \<times> store) option" where
  "write_trie cx state_root key value s =
     (case s state_root of
        None \<Rightarrow> Some (Inr (WriteRootNotFound, s))
      | Some current_root_bytes \<Rightarrow>
          attempt (to_bytes (key_codec cx) key) (\<lambda>path. do {
            r \<leftarrow> scan_raw s path current_root_bytes 0 [];
            attempt r (\<lambda>scan. do {
              r \<leftarrow> new_elements cx key value path (scan_tip scan) (scan_parents scan);
              attempt r (\<lambda>es.
                if es = [] then Some (Inr (AlreadyExists, s))
                else attempt (put_all cx es s) (\<lambda>s'. Some (Inr (Written (fst (last es)), s'))))
            })
          }))"

section \<open>Pruning\<close>

datatype trie_prune_result = Pruned digest | MissingKey | PruneRootNotFound

lemma attempt_cong [fundef_cong]:
  "m = m' \<Longrightarrow> (\<And>x. m' = Inr x \<Longrightarrow> f x = g x) \<Longrightarrow> attempt m f = attempt m' g"
  by (cases m') simp_all

text \<open>
  The loop of \<open>prune\<close>. Both vectors are used as stacks and are lists with the top first: the parents
  with the deepest one first, the new elements with the newest one first. \<open>push_element\<close> is the
  computation of the hash and the push.
\<close>

definition push_element ::
  "('k, 'v) tcx \<Rightarrow> ('k, 'v) trie \<Rightarrow> (digest \<times> ('k, 'v) trie) list \<Rightarrow>
     bytesrepr_error + (digest \<times> ('k, 'v) trie) list" where
  "push_element cx t es = and_then (trie_hash cx t) (\<lambda>h. Inr ((h, t) # es))"

text \<open>
  The first turn of the loop, at the node that points to the deleted leaf. It returns the parents that
  are left (\<open>None\<close> after a \<open>break\<close>) and the new elements.
\<close>

definition prune_leaf ::
  "('k, 'v) tcx \<Rightarrow> store \<Rightarrow> byte \<Rightarrow> pointer_block \<Rightarrow> ('k, 'v) parents \<Rightarrow>
     (bytesrepr_error + ('k, 'v) parents option \<times> (digest \<times> ('k, 'v) trie) list) option" where
  "prune_leaf cx s idx pointer_block parents =
     (let continue_with = (\<lambda>ps t. attempt (push_element cx t []) (\<lambda>es. Some (Inr (Some ps, es))));
          break_with = (\<lambda>t. attempt (push_element cx t []) (\<lambda>es. Some (Inr (None, es)))) in
      if child_count pointer_block > 2 then continue_with parents (Node (pointer_block(idx := None)))
      else case find (\<lambda>(jdx, _). idx \<noteq> jdx) (as_indexed_pointers pointer_block) of
        None \<Rightarrow> break_with (Node pointer_block_new)
      | Some (sibling_idx, sibling_pointer) \<Rightarrow>
          (case parents of
             [] \<Rightarrow> break_with (Node (pointer_block(idx := None)))
           | (gidx, grandparent) # rest \<Rightarrow>
               (case grandparent of
                  Leaf _ _ \<Rightarrow> None
                | _ \<Rightarrow>
                    (case sibling_pointer of
                       LeafPointer _ \<Rightarrow>
                         (case grandparent of
                            Leaf _ _ \<Rightarrow> None
                          | Node pb \<Rightarrow> continue_with rest (Node (pb(gidx := Some sibling_pointer)))
                          | Extension _ _ \<Rightarrow>
                              (case rest of
                                 (i, Node pb) # rest \<Rightarrow> continue_with rest (Node (pb(i := Some sibling_pointer)))
                               | _ \<Rightarrow> None))
                     | NodePointer sibling_trie_key \<Rightarrow>
                         attempt (store_get cx s sibling_trie_key) (\<lambda>sibling.
                           case sibling of
                             None \<Rightarrow> None
                           | Some (Leaf _ _) \<Rightarrow> None
                           | Some (Node _) \<Rightarrow> continue_with parents (Extension [sibling_idx] sibling_pointer)
                           | Some (Extension extension_affix pointer) \<Rightarrow>
                               continue_with parents (Extension (sibling_idx # extension_affix) pointer))))))"

fun prune_loop ::
  "('k, 'v) tcx \<Rightarrow> store \<Rightarrow> ('k, 'v) parents \<Rightarrow> (digest \<times> ('k, 'v) trie) list \<Rightarrow>
     (bytesrepr_error + (digest \<times> ('k, 'v) trie) list) option" where
  "prune_loop cx s [] es = Some (Inr es)"
| "prune_loop cx s ((idx, parent) # parents) [] = None"
| "prune_loop cx s ((idx, parent) # parents) ((trie_key, element) # es) =
     (case (element, parent) of
        (_, Leaf _ _) \<Rightarrow> None
      | (Leaf _ _, _) \<Rightarrow> None
      | (_, Node pointer_block) \<Rightarrow>
          attempt (push_element cx (Node (pointer_block(idx := Some (NodePointer trie_key)))) ((trie_key, element) # es))
            (prune_loop cx s parents)
      | (Extension child_affix pointer, Extension affix _) \<Rightarrow>
          attempt (push_element cx (Extension (affix @ child_affix) pointer) es) (prune_loop cx s parents)
      | (Node _, Extension affix _) \<Rightarrow>
          attempt (push_element cx (Extension affix (NodePointer trie_key)) ((trie_key, element) # es))
            (prune_loop cx s parents))"

definition prune_elements ::
  "('k, 'v) tcx \<Rightarrow> store \<Rightarrow> ('k, 'v) parents \<Rightarrow>
     (bytesrepr_error + (digest \<times> ('k, 'v) trie) list) option" where
  "prune_elements cx s parents =
     (case parents of
        [] \<Rightarrow> Some (Inr [])
      | (_, Leaf _ _) # _ \<Rightarrow> None
      | (_, Extension _ _) # _ \<Rightarrow> None
      | (idx, Node pointer_block) # parents \<Rightarrow>
          do {
            r \<leftarrow> prune_leaf cx s idx pointer_block parents;
            attempt r (\<lambda>(left, es).
              case left of None \<Rightarrow> Some (Inr es) | Some parents \<Rightarrow> prune_loop cx s parents es)
          })"

definition prune ::
  "('k, 'v) tcx \<Rightarrow> digest \<Rightarrow> 'k \<Rightarrow> store \<Rightarrow> (bytesrepr_error + trie_prune_result \<times> store) option" where
  "prune cx state_root key s =
     (case s state_root of
        None \<Rightarrow> Some (Inr (PruneRootNotFound, s))
      | Some root_trie_bytes \<Rightarrow>
          attempt (to_bytes (key_codec cx) key) (\<lambda>key_bytes. do {
            r \<leftarrow> scan_raw s key_bytes root_trie_bytes 0 [];
            attempt r (\<lambda>scan.
              case scan_tip scan of
                LazyLeaf leaf_bytes \<Rightarrow>
                  do {
                    r \<leftarrow> try_deserialize_leaf_key cx leaf_bytes;
                    attempt r (\<lambda>(leaf_key, _).
                      if leaf_key \<noteq> key then Some (Inr (MissingKey, s))
                      else do {
                        r \<leftarrow> prune_elements cx s (rev (scan_parents scan));
                        attempt r (\<lambda>es.
                          attempt (put_all cx (rev es) s) (\<lambda>s'.
                            Some (Inr (Pruned (case es of [] \<Rightarrow> state_root | (hash, _) # _ \<Rightarrow> hash), s'))))
                      })
                  }
              | _ \<Rightarrow> Some (Inr (MissingKey, s)))
          }))"

end
