(* ===== verification/Trie_Tree.thy ===== *)
theory Trie_Tree
  imports Trie_Store
begin

text \<open>
  The abstract view of a trie: a tree with the subtrees in place of the pointers. The tree is in normal
  form (\<open>tree_wf\<close>) if leaves are reached by prefixes of their keys, every node below the root has at
  least two children, and an extension has a non-empty affix and leads to a node. A normal form is
  determined by its entries (\<open>root_wf_unique\<close>), so that the root hash is a function of the contents.
\<close>

section \<open>Trees\<close>

datatype ('k, 'v) tree =
  TLeaf 'k 'v
| TNode "byte \<Rightarrow> ('k, 'v) tree option"
| TExt "byte list" "('k, 'v) tree"

primrec entries :: "('k, 'v) tree \<Rightarrow> ('k \<times> 'v) set" where
  "entries (TLeaf k v) = {(k, v)}"
| "entries (TNode f) = (\<Union>b. case map_option entries (f b) of None \<Rightarrow> {} | Some E \<Rightarrow> E)"
| "entries (TExt a t) = entries t"

lemma entries_TNode: "e \<in> entries (TNode f) \<longleftrightarrow> (\<exists>b t. f b = Some t \<and> e \<in> entries t)"
proof
  assume "e \<in> entries (TNode f)"
  then obtain b where "e \<in> (case map_option entries (f b) of None \<Rightarrow> {} | Some E \<Rightarrow> E)"
    by auto
  then show "\<exists>b t. f b = Some t \<and> e \<in> entries t"
    by (cases "f b") auto
next
  assume "\<exists>b t. f b = Some t \<and> e \<in> entries t"
  then obtain b t where "f b = Some t" "e \<in> entries t" by blast
  then show "e \<in> entries (TNode f)"
    by (auto intro!: exI [of _ b])
qed

declare entries.simps(2) [simp del]

text \<open>The bytes of a key.\<close>

definition key_path :: "('k, 'v) tcx \<Rightarrow> 'k \<Rightarrow> byte list" where
  "key_path cx k = (case to_bytes (key_codec cx) k of Inr b \<Rightarrow> b | Inl _ \<Rightarrow> [])"

lemma key_path_bytes: "tcx_ok cx \<Longrightarrow> to_bytes (key_codec cx) k = Inr (key_path cx k)"
  by (auto simp: tcx_ok_def key_path_def split: sum.split) (metis Inl_Inr_False)

lemma key_path_length: "tcx_ok cx \<Longrightarrow> length (key_path cx k) \<le> u32_max - 38"
  using key_path_bytes [of cx k] by (auto simp: tcx_ok_def) (metis sum.inject(2))

lemma key_path_prefix_free:
  "tcx_ok cx \<Longrightarrow> prefix (key_path cx k) (key_path cx k') \<Longrightarrow> k = k'"
  using bytesrepr.prefix_free [of "key_codec cx" k "key_path cx k" k' "key_path cx k'"]
  by (simp add: key_path_bytes tcx_ok_def)

lemma key_path_inj: "tcx_ok cx \<Longrightarrow> key_path cx k = key_path cx k' \<Longrightarrow> k = k'"
  by (erule key_path_prefix_free) simp

fun is_node :: "('k, 'v) tree \<Rightarrow> bool" where
  "is_node (TNode _) = True"
| "is_node _ = False"

lemma is_nodeE: "is_node t \<Longrightarrow> (\<And>f. t = TNode f \<Longrightarrow> P) \<Longrightarrow> P"
  by (cases t) auto

inductive tree_wf :: "('k, 'v) tcx \<Rightarrow> byte list \<Rightarrow> ('k, 'v) tree \<Rightarrow> bool" for cx where
  leaf: "prefix p (key_path cx k) \<Longrightarrow> tree_wf cx p (TLeaf k v)"
| node: "\<lbrakk>\<And>b t. f b = Some t \<Longrightarrow> tree_wf cx (p @ [b]) t; f b1 \<noteq> None; f b2 \<noteq> None; b1 \<noteq> b2\<rbrakk> \<Longrightarrow>
    tree_wf cx p (TNode f)"
| ext: "\<lbrakk>a \<noteq> []; is_node t; tree_wf cx (p @ a) t\<rbrakk> \<Longrightarrow> tree_wf cx p (TExt a t)"

inductive_simps tree_wf_leaf [simp]: "tree_wf cx p (TLeaf k v)"
inductive_simps tree_wf_ext [simp]: "tree_wf cx p (TExt a t)"
inductive_cases tree_wf_nodeE: "tree_wf cx p (TNode f)"

text \<open>The root is always a node, with any number of children.\<close>

definition root_wf :: "('k, 'v) tcx \<Rightarrow> ('k, 'v) tree \<Rightarrow> bool" where
  "root_wf cx t \<longleftrightarrow> (\<exists>f. t = TNode f \<and> (\<forall>b t. f b = Some t \<longrightarrow> tree_wf cx [b] t))"

section \<open>Normal forms are unique\<close>

lemma tree_wf_prefix: "tree_wf cx p t \<Longrightarrow> (k, v) \<in> entries t \<Longrightarrow> prefix p (key_path cx k)"
proof (induction rule: tree_wf.induct)
  case (node f p b1 b2)
  then show ?case
    by (auto simp: entries_TNode dest!: node.IH append_prefixD)
qed (auto dest: append_prefixD)

lemma tree_wf_nonempty: "tree_wf cx p t \<Longrightarrow> \<exists>k v. (k, v) \<in> entries t"
proof (induction rule: tree_wf.induct)
  case (node f p b1 b2)
  then obtain t where "f b1 = Some t" by blast
  with node.IH [of b1 t] show ?case
    by (auto simp: entries_TNode)
qed auto

text \<open>A node has two entries that differ in the byte after the path.\<close>

lemma tree_wf_diverge:
  assumes "tree_wf cx p (TNode f)"
  obtains b1 b2 k1 v1 k2 v2 where "b1 \<noteq> b2" "(k1, v1) \<in> entries (TNode f)" "(k2, v2) \<in> entries (TNode f)"
    "prefix (p @ [b1]) (key_path cx k1)" "prefix (p @ [b2]) (key_path cx k2)"
proof -
  from assms obtain b1 b2 where b: "b1 \<noteq> b2" "f b1 \<noteq> None" "f b2 \<noteq> None"
    and wf: "\<And>b t. f b = Some t \<Longrightarrow> tree_wf cx (p @ [b]) t"
    by (auto elim: tree_wf_nodeE)
  then obtain t1 t2 where t: "f b1 = Some t1" "f b2 = Some t2" by blast
  from tree_wf_nonempty [OF wf [OF t(1)]] tree_wf_nonempty [OF wf [OF t(2)]] obtain k1 v1 k2 v2 where
    "(k1, v1) \<in> entries t1" "(k2, v2) \<in> entries t2" by blast
  with that b(1) t tree_wf_prefix [OF wf [OF t(1)]] tree_wf_prefix [OF wf [OF t(2)]] show ?thesis
    by (meson entries_TNode)
qed

lemma prefix_snoc_unique: "prefix (p @ [a]) xs \<Longrightarrow> prefix (p @ [b]) xs \<Longrightarrow> a = b"
  by (auto simp: prefix_def)

lemma prefix_append_Cons: "prefix (p @ c # r) xs \<Longrightarrow> prefix (p @ [c]) xs"
  by (auto simp: prefix_def)

lemma prefix_same_length: "prefix p xs \<Longrightarrow> prefix q xs \<Longrightarrow> length p = length q \<Longrightarrow> p = q"
  by (auto simp: prefix_def)

text \<open>The entries of a child are those of the node with the byte of the child.\<close>

lemma entries_child:
  assumes "\<And>b t. f b = Some t \<Longrightarrow> tree_wf cx (p @ [b]) t" and "f b = Some t"
  shows "(k, v) \<in> entries t \<longleftrightarrow> (k, v) \<in> entries (TNode f) \<and> prefix (p @ [b]) (key_path cx k)"
proof
  assume "(k, v) \<in> entries t"
  with assms(2) tree_wf_prefix [OF assms(1) [OF assms(2)]]
  show "(k, v) \<in> entries (TNode f) \<and> prefix (p @ [b]) (key_path cx k)"
    by (auto simp: entries_TNode)
next
  assume *: "(k, v) \<in> entries (TNode f) \<and> prefix (p @ [b]) (key_path cx k)"
  then obtain c u where c: "f c = Some u" "(k, v) \<in> entries u"
    by (auto simp: entries_TNode)
  with * tree_wf_prefix [OF assms(1) [OF c(1)]] have "c = b"
    by (blast dest: prefix_snoc_unique)
  with c assms(2) show "(k, v) \<in> entries t" by simp
qed

lemma tree_wf_no_common_byte:
  assumes "tree_wf cx p (TNode f)"
  shows "\<exists>k v. (k, v) \<in> entries (TNode f) \<and> \<not> prefix (p @ [c]) (key_path cx k)"
  by (rule tree_wf_diverge [OF assms]) (metis prefix_snoc_unique)

lemma tree_wf_two_keys:
  assumes "tree_wf cx p t" and "\<And>k v. t \<noteq> TLeaf k v"
  shows "\<exists>k' v'. (k', v') \<in> entries t \<and> k' \<noteq> k"
  using assms
proof (induction rule: tree_wf.induct)
  case (node f p b1 b2)
  have "tree_wf cx p (TNode f)"
    by (rule tree_wf.node) (use node in auto)
  then show ?case
    by (rule tree_wf_diverge) (metis prefix_snoc_unique)
next
  case (ext a t p)
  then show ?case
    by (auto elim: is_nodeE)
qed auto

lemma tree_wf_ext_affix:
  assumes "tree_wf cx (p @ a) t" and "is_node t" and "tree_wf cx (p @ a') t'" and "entries t = entries t'"
  shows "\<not> strict_prefix a a'"
proof
  assume "strict_prefix a a'"
  then obtain c r where "a' = a @ c # r"
    by (elim strict_prefixE')
  then have "prefix ((p @ a) @ [c]) (p @ a')" by simp
  then have "prefix ((p @ a) @ [c]) (key_path cx k)" if "(k, v) \<in> entries t" for k v
    using tree_wf_prefix [OF assms(3)] that unfolding assms(4) by (blast intro: prefix_order.trans)
  then show False
    using assms(1,2) tree_wf_no_common_byte by (metis is_nodeE)
qed

lemma child_of_entry:
  assumes "\<And>b t. f b = Some t \<Longrightarrow> tree_wf cx (p @ [b]) t"
    and "(k, v) \<in> entries (TNode f)" and "prefix (p @ [b]) (key_path cx k)"
  shows "\<exists>t. f b = Some t"
proof -
  from assms(2) obtain c t where c: "f c = Some t" "(k, v) \<in> entries t"
    by (auto simp: entries_TNode)
  with tree_wf_prefix [OF assms(1) [OF c(1)] c(2)] assms(3) show ?thesis
    by (metis prefix_snoc_unique)
qed

lemma node_children_unique:
  assumes "\<And>b t. f b = Some t \<Longrightarrow> tree_wf cx (p @ [b]) t"
    and "\<And>b t. g b = Some t \<Longrightarrow> tree_wf cx (p @ [b]) t"
    and "entries (TNode f) = entries (TNode g)"
    and IH: "\<And>b t u. f b = Some t \<Longrightarrow> tree_wf cx (p @ [b]) u \<Longrightarrow> entries t = entries u \<Longrightarrow> t = u"
  shows "f = g"
proof
  fix b
  have nonempty: "\<exists>k v. (k, v) \<in> entries (TNode h) \<and> prefix (p @ [b]) (key_path cx k)"
    if "h b = Some t" "\<And>b t. h b = Some t \<Longrightarrow> tree_wf cx (p @ [b]) t" for h :: "byte \<Rightarrow> ('a, 'b) tree option" and t
    using tree_wf_nonempty [OF that(2) [OF that(1)]] tree_wf_prefix [OF that(2) [OF that(1)]] that(1)
    by (auto simp: entries_TNode)
  show "f b = g b"
  proof (cases "f b")
    case None
    have "g b \<noteq> Some u" for u
    proof
      assume "g b = Some u"
      from nonempty [of g u, OF this assms(2)] obtain k v where
        "(k, v) \<in> entries (TNode f)" "prefix (p @ [b]) (key_path cx k)"
        using assms(3) by blast
      from child_of_entry [of f cx p k v b, OF assms(1) this] None show False by simp
    qed
    with None show ?thesis by (cases "g b") auto
  next
    case (Some t)
    then obtain u where u: "g b = Some u"
      using nonempty [of f t, OF Some assms(1)] child_of_entry [of g cx p, OF assms(2)] assms(3) by blast
    have "entries t = entries u"
      using entries_child [of f cx p b t, OF assms(1) Some] entries_child [of g cx p b u, OF assms(2) u] assms(3)
      by auto
    with IH [OF Some assms(2) [OF u]] Some u show ?thesis by simp
  qed
qed

lemma tree_wf_unique:
  "tree_wf cx p t \<Longrightarrow> tree_wf cx p u \<Longrightarrow> entries t = entries u \<Longrightarrow> t = u"
proof (induction arbitrary: u rule: tree_wf.induct)
  case (leaf p k v)
  show ?case
  proof (rule ccontr)
    assume "TLeaf k v \<noteq> u"
    with leaf.prems(2) have "u \<noteq> TLeaf k' v'" for k' v'
      by auto
    from tree_wf_two_keys [OF leaf.prems(1) this, of k] leaf.prems(2) show False
      by auto
  qed
next
  case (node f p b1 b2)
  have wf: "tree_wf cx p (TNode f)"
    by (rule tree_wf.node) (use node in auto)
  show ?case
  proof (cases u)
    case (TLeaf k v)
    with tree_wf_two_keys [OF wf, of k, unfolded node.prems(2)] show ?thesis by auto
  next
    case (TNode g)
    with node.prems(1) have "\<And>b t. g b = Some t \<Longrightarrow> tree_wf cx (p @ [b]) t"
      by (auto elim: tree_wf_nodeE)
    from node_children_unique [of f cx p g, OF node.hyps(1) this] node.IH node.prems(2) TNode show ?thesis
      by simp
  next
    case (TExt a t)
    then obtain c r where "a = c # r"
      using node.prems(1) by (cases a) auto
    then have "prefix (p @ [c]) (key_path cx k)" if "(k, v) \<in> entries u" for k v
      using that tree_wf_prefix [of cx "p @ c # r" t k v] node.prems(1) TExt by (simp add: prefix_append_Cons)
    with tree_wf_no_common_byte [OF wf, of c, unfolded node.prems(2)] show ?thesis by blast
  qed
next
  case (ext a t p)
  have wf: "tree_wf cx p (TExt a t)"
    using ext.hyps by simp
  show ?case
  proof (cases u)
    case (TLeaf k v)
    with tree_wf_two_keys [OF wf, of k, unfolded ext.prems(2)] show ?thesis by auto
  next
    case (TNode g)
    obtain c r where "a = c # r"
      using ext.hyps(1) by (cases a) auto
    then have "prefix (p @ [c]) (key_path cx k)" if "(k, v) \<in> entries u" for k v
      using that tree_wf_prefix [of cx "p @ c # r" t k v] ext.hyps(3) ext.prems(2) by (simp add: prefix_append_Cons)
    with tree_wf_no_common_byte [of cx p g c] ext.prems(1) TNode show ?thesis by blast
  next
    case (TExt a' t')
    then have u: "tree_wf cx (p @ a') t'" "is_node t'" "entries t = entries t'"
      using ext.prems by auto
    obtain k v where "(k, v) \<in> entries t"
      using tree_wf_nonempty [OF ext.hyps(3)] by blast
    then have "prefix (p @ a) (key_path cx k)" "prefix (p @ a') (key_path cx k)"
      using tree_wf_prefix [OF ext.hyps(3)] tree_wf_prefix [OF u(1)] u(3) by auto
    then have "prefix a a' \<or> prefix a' a"
      using prefix_same_cases by fastforce
    then have "a = a'"
      using tree_wf_ext_affix [OF ext.hyps(3,2) u(1,3)] tree_wf_ext_affix [OF u(1,2) ext.hyps(3) u(3) [symmetric]]
      by (auto simp: strict_prefix_def)
    with ext.IH [of t'] u TExt show ?thesis by simp
  qed
qed

lemma root_wf_unique:
  assumes "root_wf cx t" and "root_wf cx u" and "entries t = entries u"
  shows "t = u"
proof -
  from assms(1,2) obtain f g where f: "t = TNode f" "\<And>b t. f b = Some t \<Longrightarrow> tree_wf cx ([] @ [b]) t"
    and g: "u = TNode g" "\<And>b t. g b = Some t \<Longrightarrow> tree_wf cx ([] @ [b]) t"
    by (auto simp: root_wf_def)
  have "entries (TNode f) = entries (TNode g)"
    using assms(3) f(1) g(1) by simp
  from node_children_unique [of f cx "[]" g, OF f(2) g(2) this] tree_wf_unique [OF f(2)] have "f = g"
    by blast
  with f g show ?thesis by simp
qed

end
