(* ===== verification/Trie_Scan.thy ===== *)
theory Trie_Scan
  imports Trie_Tree
begin

text \<open>
  How a tree lies in the store (\<open>stored\<close>), and what the functions that descend from the root do: \<open>read\<close>
  finds the value of a key, and \<open>scan_raw\<close> splits the tree into a context and the subtree where the
  path ends, a zipper.
\<close>

section \<open>Trees in the store\<close>

definition th :: "('k, 'v) tcx \<Rightarrow> ('k, 'v) trie \<Rightarrow> digest" where
  "th cx t = (case trie_hash cx t of Inr h \<Rightarrow> h | Inl _ \<Rightarrow> sentinel_none)"

primrec tptr :: "('k, 'v) tcx \<Rightarrow> ('k, 'v) tree \<Rightarrow> pointer" where
  "tptr cx (TLeaf k v) = LeafPointer (th cx (Leaf k v))"
| "tptr cx (TNode f) = NodePointer (th cx (Node (\<lambda>b. map_option (tptr cx) (f b))))"
| "tptr cx (TExt a t) = NodePointer (th cx (Extension a (tptr cx t)))"

text \<open>The pointer block of a node and the trie of a tree.\<close>

definition encf :: "('k, 'v) tcx \<Rightarrow> (byte \<Rightarrow> ('k, 'v) tree option) \<Rightarrow> pointer_block" where
  "encf cx f = (\<lambda>b. map_option (tptr cx) (f b))"

fun enc :: "('k, 'v) tcx \<Rightarrow> ('k, 'v) tree \<Rightarrow> ('k, 'v) trie" where
  "enc cx (TLeaf k v) = Leaf k v"
| "enc cx (TNode f) = Node (encf cx f)"
| "enc cx (TExt a t) = Extension a (tptr cx t)"

definition thash :: "('k, 'v) tcx \<Rightarrow> ('k, 'v) tree \<Rightarrow> digest" where
  "thash cx t = th cx (enc cx t)"

lemma tptr_thash:
  "tptr cx t = (case t of TLeaf _ _ \<Rightarrow> LeafPointer (thash cx t) | _ \<Rightarrow> NodePointer (thash cx t))"
  by (cases t) (simp_all add: thash_def encf_def)

lemma pointer_hash_tptr [simp]: "pointer_hash (tptr cx t) = thash cx t"
  by (cases t) (simp_all add: thash_def encf_def)

lemma encf_update [simp]: "(encf cx f)(b := Some (tptr cx t)) = encf cx (f(b := Some t))"
  "(encf cx f)(b := None) = encf cx (f(b := None))"
  by (auto simp: encf_def)

definition here :: "('k, 'v) tcx \<Rightarrow> store \<Rightarrow> ('k, 'v) tree \<Rightarrow> bool" where
  "here cx s t \<longleftrightarrow> (\<exists>b. trie_to_bytes cx (enc cx t) = Inr b \<and> s (thash cx t) = Some b)"

inductive stored :: "('k, 'v) tcx \<Rightarrow> store \<Rightarrow> ('k, 'v) tree \<Rightarrow> bool" for cx s where
  leaf: "here cx s (TLeaf k v) \<Longrightarrow> stored cx s (TLeaf k v)"
| node: "here cx s (TNode f) \<Longrightarrow> (\<And>b t. f b = Some t \<Longrightarrow> stored cx s t) \<Longrightarrow> stored cx s (TNode f)"
| ext: "here cx s (TExt a t) \<Longrightarrow> stored cx s t \<Longrightarrow> stored cx s (TExt a t)"

inductive_simps stored_leaf [simp]: "stored cx s (TLeaf k v)"
inductive_simps stored_node [simp]: "stored cx s (TNode f)"
inductive_simps stored_ext [simp]: "stored cx s (TExt a t)"

lemma stored_here: "stored cx s t \<Longrightarrow> here cx s t"
  by (cases t) simp_all

lemma here_mono: "here cx s t \<Longrightarrow> s \<subseteq>\<^sub>m s' \<Longrightarrow> here cx s' t"
  by (auto simp: here_def map_le_def dom_def)

lemma stored_mono: "stored cx s t \<Longrightarrow> s \<subseteq>\<^sub>m s' \<Longrightarrow> stored cx s' t"
  by (induction rule: stored.induct) (auto intro: here_mono)

lemma store_get_stored:
  assumes "tcx_ok cx" and "stored cx s t"
  shows "store_get cx s (thash cx t) = Inr (Some (enc cx t))"
  using stored_here [OF assms(2)] deserialize_trie_to [OF assms(1)] by (auto simp: here_def store_get_def)

section \<open>Paths\<close>

text \<open>
  What descending relies on: a leaf is reached by a prefix of its key, an extension is not empty and
  leads to a node, and only the root may be without children.
\<close>

inductive tree_paths :: "('k, 'v) tcx \<Rightarrow> byte list \<Rightarrow> ('k, 'v) tree \<Rightarrow> bool" for cx where
  leaf: "prefix p (key_path cx k) \<Longrightarrow> tree_paths cx p (TLeaf k v)"
| node: "\<lbrakk>\<And>b t. f b = Some t \<Longrightarrow> tree_paths cx (p @ [b]) t; p = [] \<or> (\<exists>b. f b \<noteq> None)\<rbrakk> \<Longrightarrow>
    tree_paths cx p (TNode f)"
| ext: "\<lbrakk>a \<noteq> []; is_node t; tree_paths cx (p @ a) t\<rbrakk> \<Longrightarrow> tree_paths cx p (TExt a t)"

inductive_simps tree_paths_leaf [simp]: "tree_paths cx p (TLeaf k v)"
inductive_simps tree_paths_node [simp]: "tree_paths cx p (TNode f)"
inductive_simps tree_paths_ext [simp]: "tree_paths cx p (TExt a t)"

lemma tree_wf_paths: "tree_wf cx p t \<Longrightarrow> tree_paths cx p t"
  by (induction rule: tree_wf.induct) (auto intro: tree_paths.intros)

lemma root_wf_paths: "root_wf cx t \<Longrightarrow> tree_paths cx [] t"
  by (auto simp: root_wf_def) (blast intro: tree_wf_paths)

lemma tree_paths_prefix: "tree_paths cx p t \<Longrightarrow> (k, v) \<in> entries t \<Longrightarrow> prefix p (key_path cx k)"
proof (induction rule: tree_paths.induct)
  case (node f p)
  then show ?case
    by (auto simp: entries_TNode dest!: node.IH append_prefixD)
qed (auto dest: append_prefixD)

lemma tree_paths_nonempty: "tree_paths cx p t \<Longrightarrow> p \<noteq> [] \<Longrightarrow> \<exists>k v. (k, v) \<in> entries t"
proof (induction rule: tree_paths.induct)
  case (node f p)
  then obtain b t where "f b = Some t" by blast
  with node.IH [of b t] show ?case
    by (auto simp: entries_TNode)
qed auto

lemma entries_unique: "tree_paths cx p t \<Longrightarrow> (k, v) \<in> entries t \<Longrightarrow> (k, v') \<in> entries t \<Longrightarrow> v = v'"
proof (induction rule: tree_paths.induct)
  case (node f p)
  from node.prems obtain b t b' t' where t: "f b = Some t" "(k, v) \<in> entries t" "f b' = Some t'" "(k, v') \<in> entries t'"
    by (auto simp: entries_TNode)
  from tree_paths_prefix [OF node.hyps(1) [OF t(1)] t(2)] tree_paths_prefix [OF node.hyps(1) [OF t(3)] t(4)]
  have "b = b'" by (rule prefix_snoc_unique)
  with t node.IH show ?case by auto
qed auto

text \<open>The key reaches beyond the path of a node.\<close>

lemma node_path_longer:
  assumes "tcx_ok cx" and "tree_paths cx p (TNode f)" and "prefix p (key_path cx k)"
  shows "length p < length (key_path cx k)"
proof (rule ccontr)
  assume "\<not> length p < length (key_path cx k)"
  with assms(3) have p: "p = key_path cx k"
    by (auto simp: prefix_def)
  have "key_path cx k \<noteq> []"
    using assms(1) key_path_bytes [OF assms(1), of k] by (auto simp: tcx_ok_def) (metis sum.inject(2))
  with p assms(2) obtain b t where t: "f b = Some t" "tree_paths cx (p @ [b]) t"
    by auto
  from tree_paths_nonempty [OF t(2)] obtain k' v where k': "(k', v) \<in> entries t" by auto
  from tree_paths_prefix [OF t(2) k'] have "prefix (p @ [b]) (key_path cx k')" .
  moreover from this have "prefix (key_path cx k) (key_path cx k')"
    unfolding p by (rule append_prefixD)
  then have "k = k'"
    by (rule key_path_prefix_free [OF assms(1)])
  ultimately have "prefix (p @ [b]) p"
    by (simp only: p)
  then show False
    by (auto dest: prefix_length_le)
qed

section \<open>Reading\<close>

definition lookup_in :: "('k \<times> 'v) set \<Rightarrow> 'k \<Rightarrow> 'v read_result" where
  "lookup_in E k = (if \<exists>v. (k, v) \<in> E then Found (THE v. (k, v) \<in> E) else NotFound)"

lemma lookup_in_Found: "(k, v) \<in> E \<Longrightarrow> (\<And>v'. (k, v') \<in> E \<Longrightarrow> v' = v) \<Longrightarrow> lookup_in E k = Found v"
  unfolding lookup_in_def by (metis the_equality)

lemma lookup_in_NotFound: "(\<And>v. (k, v) \<notin> E) \<Longrightarrow> lookup_in E k = NotFound"
  by (simp add: lookup_in_def)

lemma lookup_in_cong: "(\<And>v. (k, v) \<in> E \<longleftrightarrow> (k, v) \<in> E') \<Longrightarrow> lookup_in E k = lookup_in E' k"
  by (simp add: lookup_in_def)

lemma lookup_in_child:
  assumes "tree_paths cx p (TNode f)" and "prefix (p @ [b]) (key_path cx k)"
  shows "lookup_in (entries (TNode f)) k = (case f b of None \<Rightarrow> NotFound | Some t \<Rightarrow> lookup_in (entries t) k)"
proof -
  have child: "c = b" if "f c = Some t" "(k, v) \<in> entries t" for c t v
    using tree_paths_prefix [of cx "p @ [c]" t k v] assms that by (auto dest: prefix_snoc_unique)
  show ?thesis
  proof (cases "f b")
    case None
    with child show ?thesis
      by (auto simp: entries_TNode intro!: lookup_in_NotFound)
  next
    case (Some t)
    then have "(k, v) \<in> entries (TNode f) \<longleftrightarrow> (k, v) \<in> entries t" for v
      using child [of _ _ v] unfolding entries_TNode by (metis option.inject)
    with Some show ?thesis
      by (simp add: lookup_in_def)
  qed
qed

lemma prefix_nth: "prefix p xs \<Longrightarrow> length p < length xs \<Longrightarrow> prefix (p @ [xs ! length p]) xs"
  by (auto simp: prefix_def) (metis append_Cons append_Nil neq_Nil_conv nth_append_length)

lemma prefix_slice:
  "prefix p xs \<Longrightarrow> length p + length a \<le> length xs \<Longrightarrow>
    take (length a) (drop (length p) xs) = a \<longleftrightarrow> prefix (p @ a) xs"
  by (auto simp: prefix_def) (metis append_take_drop_id)

lemma read_loop_correct:
  assumes "tcx_ok cx" and "tree_paths cx p t" and "stored cx s t" and "prefix p (key_path cx k)"
    and "(\<exists>v. (k, v) \<in> entries t) \<or> (\<forall>k' v. (k', v) \<in> entries t \<longrightarrow> length (key_path cx k') \<le> length (key_path cx k))"
  shows "read_loop cx s k (key_path cx k) (length p) (enc cx t) = Some (Inr (lookup_in (entries t) k))"
  using assms(2-5)
proof (induction rule: tree_paths.induct)
  case (leaf p k' v)
  then show ?case
    by (subst read_loop.simps) (auto simp: lookup_in_def)
next
  case (node f p)
  let ?path = "key_path cx k"
  let ?b = "?path ! length p"
  have paths: "tree_paths cx p (TNode f)"
    using node.hyps by simp
  have len: "length p < length ?path"
    by (rule node_path_longer [OF assms(1) paths node.prems(2)])
  note pre = prefix_nth [OF node.prems(2) len]
  show ?case
  proof (cases "f ?b")
    case None
    then show ?thesis
      using len lookup_in_child [OF paths pre] by (subst read_loop.simps) (simp add: encf_def)
  next
    case (Some t)
    have "(\<exists>v. (k, v) \<in> entries t) \<or> (\<forall>k' v. (k', v) \<in> entries t \<longrightarrow> length (key_path cx k') \<le> length ?path)"
    proof -
      have "(k', v) \<in> entries (TNode f)" if "(k', v) \<in> entries t" for k' v
        using that Some by (auto simp: entries_TNode)
      moreover have "(k, v) \<in> entries t" if "(k, v) \<in> entries (TNode f)" for v
        using that tree_paths_prefix [OF node.hyps(1)] pre Some unfolding entries_TNode
        by (metis option.inject prefix_snoc_unique)
      ultimately show ?thesis
        using node.prems(3) by blast
    qed
    with node.IH [OF Some] node.prems(1) Some pre have
      "read_loop cx s k ?path (length (p @ [?b])) (enc cx t) = Some (Inr (lookup_in (entries t) k))"
      by simp
    then show ?thesis
      using len lookup_in_child [OF paths pre] Some store_get_stored [OF assms(1), of s t] node.prems(1)
      by (subst read_loop.simps) (simp add: encf_def)
  qed
next
  case (ext a t p)
  let ?path = "key_path cx k"
  have "\<exists>k' v. (k', v) \<in> entries t"
    using tree_paths_nonempty [OF ext.hyps(3)] ext.hyps(1) by simp
  then have len: "length p + length a \<le> length ?path"
    using ext.prems(3) tree_paths_prefix [OF ext.hyps(3)]
    by (metis entries.simps(3) le_trans length_append prefix_length_le)
  show ?case
  proof (cases "prefix (p @ a) ?path")
    case True
    then have "read_loop cx s k ?path (length (p @ a)) (enc cx t) = Some (Inr (lookup_in (entries t) k))"
      using ext.IH ext.prems(1,3) by simp
    then show ?thesis
      using len True prefix_slice [OF ext.prems(2) len] store_get_stored [OF assms(1), of s t] ext.prems(1)
      by (subst read_loop.simps) simp
  next
    case False
    then have "lookup_in (entries t) k = NotFound"
      using tree_paths_prefix [OF ext.hyps(3)] by (intro lookup_in_NotFound) blast
    then show ?thesis
      using len False prefix_slice [OF ext.prems(2) len] by (subst read_loop.simps) simp
  qed
qed

section \<open>Contexts\<close>

text \<open>
  A frame is what remains of a node or an extension without one child; a context is the list of frames
  from the root down. A frame of a node keeps the old child, as the parents of the code do.
\<close>

datatype ('k, 'v) frame = FNode byte "byte \<Rightarrow> ('k, 'v) tree option" | FExt "byte list"

fun plug1 :: "('k, 'v) frame \<Rightarrow> ('k, 'v) tree \<Rightarrow> ('k, 'v) tree" where
  "plug1 (FNode b f) t = TNode (f(b := Some t))"
| "plug1 (FExt a) t = TExt a t"

fun plug :: "('k, 'v) frame list \<Rightarrow> ('k, 'v) tree \<Rightarrow> ('k, 'v) tree" where
  "plug [] t = t"
| "plug (fr # frs) t = plug1 fr (plug frs t)"

fun frame_path :: "('k, 'v) frame \<Rightarrow> byte list" where
  "frame_path (FNode b f) = [b]"
| "frame_path (FExt a) = a"

definition ctx_path :: "('k, 'v) frame list \<Rightarrow> byte list" where
  "ctx_path frs = concat (map frame_path frs)"

lemma ctx_path_simps [simp]:
  "ctx_path [] = []" "ctx_path (fr # frs) = frame_path fr @ ctx_path frs"
  "ctx_path (frs @ frs') = ctx_path frs @ ctx_path frs'"
  by (simp_all add: ctx_path_def)

lemma plug_append [simp]: "plug (frs @ frs') t = plug frs (plug frs' t)"
  by (induction frs) simp_all

fun enc_frame :: "('k, 'v) tcx \<Rightarrow> ('k, 'v) frame \<Rightarrow> byte \<times> ('k, 'v) trie \<Rightarrow> bool" where
  "enc_frame cx (FNode b f) p \<longleftrightarrow> p = (b, Node (encf cx f))"
| "enc_frame cx (FExt a) p \<longleftrightarrow> (\<exists>i h. p = (i, Extension a (NodePointer h)))"

abbreviation enc_ctx :: "('k, 'v) tcx \<Rightarrow> ('k, 'v) frame list \<Rightarrow> ('k, 'v) parents \<Rightarrow> bool" where
  "enc_ctx cx \<equiv> list_all2 (enc_frame cx)"

lemma get_parents_path_ctx: "enc_ctx cx frs ps \<Longrightarrow> get_parents_path ps = ctx_path frs"
proof (induction rule: list_all2_induct)
  case (Cons fr frs p ps)
  then show ?case by (cases fr) auto
qed simp

text \<open>The frames that a scan collects: the child is in its place.\<close>

fun frame_full :: "('k, 'v) frame \<Rightarrow> ('k, 'v) tree \<Rightarrow> bool" where
  "frame_full (FNode b f) t \<longleftrightarrow> f b = Some t"
| "frame_full (FExt a) t \<longleftrightarrow> True"

fun full :: "('k, 'v) frame list \<Rightarrow> ('k, 'v) tree \<Rightarrow> bool" where
  "full [] t \<longleftrightarrow> True"
| "full (fr # frs) t \<longleftrightarrow> frame_full fr (plug frs t) \<and> full frs t"

lemma full_append [simp]: "full (frs @ frs') t \<longleftrightarrow> full frs (plug frs' t) \<and> full frs' t"
  by (induction frs) auto

section \<open>Scanning\<close>

definition lazy :: "byte list \<Rightarrow> ('k, 'v) tcx \<Rightarrow> ('k, 'v) tree \<Rightarrow> lazy_trie" where
  "lazy b cx t =
     (case t of TLeaf _ _ \<Rightarrow> LazyLeaf b | TNode f \<Rightarrow> LazyNode (encf cx f) | TExt a u \<Rightarrow> LazyExtension a (tptr cx u))"

text \<open>Where a scan for a path stops: at a leaf, at a node without the child, at an extension that differs.\<close>

fun stuck :: "byte list \<Rightarrow> byte list \<Rightarrow> ('k, 'v) tree \<Rightarrow> bool" where
  "stuck path p (TLeaf k v) \<longleftrightarrow> True"
| "stuck path p (TNode f) \<longleftrightarrow> length p < length path \<and> f (path ! length p) = None"
| "stuck path p (TExt a t) \<longleftrightarrow> \<not> prefix (p @ a) path"

lemma scan_raw_correct:
  assumes "tcx_ok cx" and "tree_paths cx p t" and "stored cx s t" and "prefix p (key_path cx k)"
    and "trie_to_bytes cx (enc cx t) = Inr b"
  shows "\<exists>frs u b' ps. t = plug frs u \<and> full frs u \<and> enc_ctx cx frs ps \<and> trie_to_bytes cx (enc cx u) = Inr b' \<and>
    scan_raw s (key_path cx k) b (length p) acc = Some (Inr \<lparr>scan_tip = lazy b' cx u, scan_parents = acc @ ps\<rparr>) \<and>
    prefix (p @ ctx_path frs) (key_path cx k) \<and> stuck (key_path cx k) (p @ ctx_path frs) u"
  using assms(2-5)
proof (induction arbitrary: b acc rule: tree_paths.induct)
  case (leaf p k' v)
  then have "scan_raw s (key_path cx k) b (length p) acc =
      Some (Inr \<lparr>scan_tip = lazy b cx (TLeaf k' v), scan_parents = acc @ []\<rparr>)"
    using deserialize_lazy_to [OF leaf.prems(3)] by (subst scan_raw.simps) (simp add: lazy_def)
  with leaf.prems show ?case
    by (intro exI [of _ "[]"] exI [of _ "TLeaf k' v"] exI [of _ b]) auto
next
  case (node f p)
  let ?path = "key_path cx k"
  let ?b = "?path ! length p"
  have paths: "tree_paths cx p (TNode f)"
    using node.hyps by simp
  have len: "length p < length ?path"
    by (rule node_path_longer [OF assms(1) paths node.prems(2)])
  note pre = prefix_nth [OF node.prems(2) len]
  note lz = deserialize_lazy_to [OF node.prems(3)]
  show ?case
  proof (cases "f ?b")
    case None
    then have "scan_raw s ?path b (length p) acc =
        Some (Inr \<lparr>scan_tip = lazy b cx (TNode f), scan_parents = acc @ []\<rparr>)"
      using lz len by (subst scan_raw.simps) (simp add: lazy_def encf_def)
    with node.prems None len show ?thesis
      by (intro exI [of _ "[]"] exI [of _ "TNode f"] exI [of _ b]) auto
  next
    case (Some t)
    have st: "stored cx s t"
      using node.prems(1) Some by simp
    obtain c where c: "trie_to_bytes cx (enc cx t) = Inr c" "s (thash cx t) = Some c"
      using stored_here [OF st] by (auto simp: here_def)
    let ?acc = "acc @ [(?b, Node (encf cx f))]"
    from node.IH [OF Some st pre c(1), of ?acc] obtain frs u b' ps where IH:
      "t = plug frs u" "full frs u" "enc_ctx cx frs ps" "trie_to_bytes cx (enc cx u) = Inr b'"
      "scan_raw s ?path c (length (p @ [?b])) ?acc =
        Some (Inr \<lparr>scan_tip = lazy b' cx u, scan_parents = ?acc @ ps\<rparr>)"
      "prefix ((p @ [?b]) @ ctx_path frs) ?path" "stuck ?path ((p @ [?b]) @ ctx_path frs) u"
      by blast
    have "scan_raw s ?path b (length p) acc = scan_raw s ?path c (length (p @ [?b])) ?acc"
      using lz len Some c(2) by (subst scan_raw.simps) (simp add: encf_def)
    moreover have "TNode f = plug (FNode ?b f # frs) u"
      using Some IH(1) by auto
    ultimately show ?thesis
      using IH Some by (intro exI [of _ "FNode ?b f # frs"] exI [of _ u] exI [of _ b'] exI [of _ "(?b, Node (encf cx f)) # ps"]) auto
  qed
next
  case (ext a t p)
  let ?path = "key_path cx k"
  note lz = deserialize_lazy_to [OF ext.prems(3)]
  show ?case
  proof (cases "prefix (p @ a) ?path")
    case True
    then have len: "length p + length a \<le> length ?path"
      by (auto dest: prefix_length_le)
    then have less: "length p < length ?path"
      using ext.hyps(1) by (cases a) auto
    have st: "stored cx s t"
      using ext.prems(1) by simp
    obtain c where c: "trie_to_bytes cx (enc cx t) = Inr c" "s (thash cx t) = Some c"
      using stored_here [OF st] by (auto simp: here_def)
    let ?p = "(?path ! length p, Extension a (tptr cx t))"
    let ?acc = "acc @ [?p]"
    from ext.IH [OF st True c(1), of ?acc] obtain frs u b' ps where IH:
      "t = plug frs u" "full frs u" "enc_ctx cx frs ps" "trie_to_bytes cx (enc cx u) = Inr b'"
      "scan_raw s ?path c (length (p @ a)) ?acc =
        Some (Inr \<lparr>scan_tip = lazy b' cx u, scan_parents = ?acc @ ps\<rparr>)"
      "prefix ((p @ a) @ ctx_path frs) ?path" "stuck ?path ((p @ a) @ ctx_path frs) u"
      by blast
    have "scan_raw s ?path b (length p) acc = scan_raw s ?path c (length (p @ a)) ?acc"
      using lz len less c(2) True prefix_slice [OF ext.prems(2) len] by (subst scan_raw.simps) (simp add: encf_def)
    moreover have "enc_frame cx (FExt a) ?p"
      using ext.hyps(2) by (auto elim!: is_nodeE)
    ultimately show ?thesis
      using IH by (intro exI [of _ "FExt a # frs"] exI [of _ u] exI [of _ b'] exI [of _ "?p # ps"]) auto
  next
    case False
    then have "scan_raw s ?path b (length p) acc =
        Some (Inr \<lparr>scan_tip = lazy b cx (TExt a t), scan_parents = acc @ []\<rparr>)"
      using lz prefix_slice [OF ext.prems(2), of a] by (subst scan_raw.simps) (auto simp: lazy_def not_less)
    with ext.prems False show ?thesis
      by (intro exI [of _ "[]"] exI [of _ "TExt a t"] exI [of _ b]) auto
  qed
qed

end
