(* ===== verification/Trie_Replace.thy ===== *)
theory Trie_Replace
  imports Trie_Scan
begin

text \<open>
  Replacing a subtree: what the entries and the normal form of a tree become when the subtree in a context
  is replaced, that \<open>rehash\<close> computes the trees from the new subtree up to the root, and what putting
  them into the store does. The store only grows, so that all earlier roots keep their contents.
\<close>

section \<open>Entries of a plugged tree\<close>

fun frame_entries :: "('k, 'v) frame \<Rightarrow> ('k \<times> 'v) set" where
  "frame_entries (FNode b f) = entries (TNode (f(b := None)))"
| "frame_entries (FExt a) = {}"

definition ctx_entries :: "('k, 'v) frame list \<Rightarrow> ('k \<times> 'v) set" where
  "ctx_entries frs = (\<Union>fr \<in> set frs. frame_entries fr)"

lemma ctx_entries_simps [simp]:
  "ctx_entries [] = {}" "ctx_entries (fr # frs) = frame_entries fr \<union> ctx_entries frs"
  "ctx_entries (frs @ frs') = ctx_entries frs \<union> ctx_entries frs'"
  by (auto simp: ctx_entries_def)

lemma entries_plug1: "entries (plug1 fr t) = entries t \<union> frame_entries fr"
proof (cases fr)
  case (FNode b f)
  have "(k, v) \<in> entries (TNode (f(b := Some t))) \<longleftrightarrow> (k, v) \<in> entries t \<union> entries (TNode (f(b := None)))" for k v
    by (auto simp: entries_TNode split: if_splits)
  then show ?thesis
    using FNode by auto
qed simp

lemma entries_plug: "entries (plug frs t) = entries t \<union> ctx_entries frs"
  by (induction frs) (auto simp: entries_plug1)

section \<open>Normal forms of a plugged tree\<close>

text \<open>An extension leads to a node.\<close>

definition fits :: "('k, 'v) frame list \<Rightarrow> ('k, 'v) tree \<Rightarrow> bool" where
  "fits frs t \<longleftrightarrow> (\<forall>frs' a. frs = frs' @ [FExt a] \<longrightarrow> is_node t)"

lemma fits_Nil [simp]: "fits [] t"
  by (simp add: fits_def)

lemma fits_Cons [simp]: "frs \<noteq> [] \<Longrightarrow> fits (fr # frs) t \<longleftrightarrow> fits frs t"
  by (auto simp: fits_def Cons_eq_append_conv)

lemma fits_single [simp]: "fits [FNode b f] t" "fits [FExt a] t \<longleftrightarrow> is_node t"
  by (simp_all add: fits_def Cons_eq_append_conv)

lemma fits_snoc [simp]: "fits (frs @ [FNode b f]) t" "fits (frs @ [FExt a]) t \<longleftrightarrow> is_node t"
  by (simp_all add: fits_def)

lemma is_node_plug: "frs \<noteq> [] \<Longrightarrow> is_node (plug frs t) \<longleftrightarrow> is_node (plug frs u)"
  by (cases frs rule: list.exhaust; cases "hd frs") auto

lemma tree_wf_plug:
  "tree_wf cx p (plug frs u) \<Longrightarrow> tree_wf cx (p @ ctx_path frs) u \<and> fits frs u"
proof (induction frs arbitrary: p)
  case (Cons fr frs)
  show ?case
  proof (cases fr)
    case (FNode b f)
    with Cons.prems have "tree_wf cx (p @ [b]) (plug frs u)"
      by (auto elim: tree_wf_nodeE)
    with Cons.IH FNode show ?thesis
      by (cases "frs = []") fastforce+
  next
    case (FExt a)
    with Cons.prems Cons.IH [of "p @ a"] show ?thesis
      by (cases "frs = []") auto
  qed
qed simp

lemma tree_wf_replug:
  "tree_wf cx p (plug frs u) \<Longrightarrow> tree_wf cx (p @ ctx_path frs) w \<Longrightarrow> fits frs w \<Longrightarrow> tree_wf cx p (plug frs w)"
proof (induction frs arbitrary: p)
  case (Cons fr frs)
  have fits: "fits frs w" if "frs \<noteq> []"
    using Cons.prems(3) that by simp
  show ?case
  proof (cases fr)
    case (FNode b f)
    from Cons.prems(1) FNode obtain b1 b2 where
      wf: "\<And>c t. (f(b := Some (plug frs u))) c = Some t \<Longrightarrow> tree_wf cx (p @ [c]) t"
      and two: "(f(b := Some (plug frs u))) b1 \<noteq> None" "(f(b := Some (plug frs u))) b2 \<noteq> None" "b1 \<noteq> b2"
      by (simp only: plug.simps plug1.simps) (erule tree_wf_nodeE, blast)
    have "tree_wf cx (p @ [b]) (plug frs w)"
      using Cons.IH [of "p @ [b]"] wf [of b "plug frs u"] Cons.prems(2) fits FNode by (cases "frs = []") auto
    with wf two show ?thesis
      unfolding FNode by (auto intro!: tree_wf.node [of _ _ _ b1 b2] split: if_splits)
  next
    case (FExt a)
    then have wf: "tree_wf cx (p @ a) (plug frs u)" "is_node (plug frs u)" "a \<noteq> []"
      using Cons.prems(1) by auto
    have "tree_wf cx (p @ a) (plug frs w)"
      using Cons.IH [OF wf(1)] Cons.prems(2) fits FExt by (cases "frs = []") auto
    moreover have "is_node (plug frs w)"
      using wf(2) is_node_plug [of frs w u] Cons.prems(3) FExt by (cases "frs = []") auto
    ultimately show ?thesis
      using wf(3) FExt by simp
  qed
qed simp

text \<open>The same with the root, which is a node with any number of children.\<close>

definition wf_in :: "('k, 'v) tcx \<Rightarrow> ('k, 'v) frame list \<Rightarrow> ('k, 'v) tree \<Rightarrow> bool" where
  "wf_in cx frs t \<longleftrightarrow> (if frs = [] then root_wf cx t else tree_wf cx (ctx_path frs) t)"

lemma root_wf_plug1:
  "root_wf cx (plug1 fr t) \<longleftrightarrow>
     (\<exists>b f. fr = FNode b f \<and> tree_wf cx [b] t \<and> (\<forall>c u. c \<noteq> b \<longrightarrow> f c = Some u \<longrightarrow> tree_wf cx [c] u))"
  by (cases fr) (auto simp: root_wf_def)

lemma root_wf_plug:
  assumes "root_wf cx (plug frs u)"
  shows "wf_in cx frs u \<and> fits frs u"
proof (cases frs)
  case (Cons fr frs')
  with assms obtain b f where "fr = FNode b f" "tree_wf cx [b] (plug frs' u)"
    by (auto simp: root_wf_plug1)
  with tree_wf_plug [of cx "[b]" frs' u] Cons show ?thesis
    by (cases "frs' = []") (auto simp: wf_in_def)
qed (use assms in \<open>simp add: wf_in_def\<close>)

lemma root_wf_replug:
  assumes "root_wf cx (plug frs u)" and "wf_in cx frs w" and "fits frs w"
  shows "root_wf cx (plug frs w)"
proof (cases frs)
  case (Cons fr frs')
  with assms obtain b f where fr: "fr = FNode b f" "tree_wf cx [b] (plug frs' u)"
      "\<And>c u. c \<noteq> b \<Longrightarrow> f c = Some u \<Longrightarrow> tree_wf cx [c] u"
    by (auto simp: root_wf_plug1)
  have "tree_wf cx [b] (plug frs' w)"
    using tree_wf_replug [OF fr(2), of w] assms(2,3) Cons fr(1) by (cases "frs' = []") (auto simp: wf_in_def)
  with fr have "root_wf cx (plug1 fr (plug frs' w))"
    unfolding root_wf_plug1 by blast
  with Cons show ?thesis by simp
qed (use assms in \<open>simp add: wf_in_def\<close>)

section \<open>Subtrees\<close>

inductive subtree :: "('k, 'v) tree \<Rightarrow> ('k, 'v) tree \<Rightarrow> bool" where
  refl: "subtree t t"
| node: "f b = Some t \<Longrightarrow> subtree u t \<Longrightarrow> subtree u (TNode f)"
| ext: "subtree u t \<Longrightarrow> subtree u (TExt a t)"

inductive_simps subtree_leaf: "subtree u (TLeaf k v)"
inductive_simps subtree_node: "subtree u (TNode f)"
inductive_simps subtree_ext: "subtree u (TExt a t)"

lemmas subtree_simps = subtree_leaf subtree_node subtree_ext

lemma stored_iff: "stored cx s t \<longleftrightarrow> (\<forall>u. subtree u t \<longrightarrow> here cx s u)"
proof
  assume "stored cx s t"
  then have "here cx s u" if "subtree u t" for u
    using that by (induction arbitrary: u rule: stored.induct) (auto elim: subtree.cases)
  then show "\<forall>u. subtree u t \<longrightarrow> here cx s u" by blast
next
  assume "\<forall>u. subtree u t \<longrightarrow> here cx s u"
  then show "stored cx s t"
  proof (induction t)
    case (TNode f)
    have "stored cx s t" if "f b = Some t" for b t
    proof (rule TNode.IH)
      show "Some t \<in> range f" "t \<in> set_option (Some t)"
        using that [symmetric] by simp_all
      show "\<forall>u. subtree u t \<longrightarrow> here cx s u"
        using TNode.prems that by (blast intro: subtree.node)
    qed
    with TNode.prems show ?case
      by (auto intro: subtree.refl)
  qed (auto intro: subtree.intros)
qed

lemma subtree_plug: "subtree (plug frs2 t) (plug (frs1 @ frs2) t)"
proof (induction frs1)
  case (Cons fr frs1)
  then show ?case
    by (cases fr) (auto intro: subtree.intros)
qed (simp add: subtree.refl)

lemma tree_paths_subtree:
  "tree_paths cx p t \<Longrightarrow> subtree u t \<Longrightarrow> \<exists>q. tree_paths cx q u \<and> entries u \<subseteq> entries t"
proof (induction arbitrary: u rule: tree_paths.induct)
  case (leaf p k v)
  then show ?case by (auto simp: subtree_simps)
next
  case (node f p)
  have wf: "tree_paths cx p (TNode f)"
    using node.hyps by simp
  from node.prems consider "u = TNode f" | b t where "f b = Some t" "subtree u t"
    by (auto simp: subtree_simps)
  then show ?case
  proof cases
    case 1
    with wf show ?thesis by blast
  next
    case 2
    then have "entries t \<subseteq> entries (TNode f)"
      using entries_TNode by blast
    with node.IH [OF 2] show ?thesis by blast
  qed
next
  case (ext a t p)
  then have "tree_paths cx p (TExt a t)" by simp
  with ext.prems ext.IH [of u] show ?case
    by (auto simp only: subtree_simps entries.simps)
qed

text \<open>The bytes of all subtrees; they exist if those of the leaves do.\<close>

definition leaf_fits :: "('k, 'v) tcx \<Rightarrow> 'k \<Rightarrow> 'v \<Rightarrow> bool" where
  "leaf_fits cx k v \<longleftrightarrow> (\<exists>b. trie_to_bytes cx (Leaf k v) = Inr b)"

definition tree_bytes :: "('k, 'v) tcx \<Rightarrow> ('k, 'v) tree \<Rightarrow> byte list set" where
  "tree_bytes cx t = {b. \<exists>u. subtree u t \<and> trie_to_bytes cx (enc cx u) = Inr b}"

lemma subtree_to_bytes:
  assumes "tcx_ok cx" and "tree_paths cx p t" and "\<And>k v. (k, v) \<in> entries t \<Longrightarrow> leaf_fits cx k v"
    and "subtree u t"
  shows "\<exists>b. trie_to_bytes cx (enc cx u) = Inr b"
proof (cases u)
  case (TLeaf k v)
  with tree_paths_subtree [OF assms(2,4)] assms(3) [of k v] show ?thesis
    by (auto simp: leaf_fits_def)
next
  case (TNode f)
  then show ?thesis by (simp add: node_to_bytes)
next
  case (TExt a w)
  with tree_paths_subtree [OF assms(2,4)] obtain q where q: "tree_paths cx q (TExt a w)" by auto
  then obtain k v where "(k, v) \<in> entries w" "prefix (q @ a) (key_path cx k)"
    using tree_paths_nonempty [of cx "q @ a" w] tree_paths_prefix [of cx "q @ a" w] by auto
  then have "length a \<le> u32_max - 38"
    using key_path_length [OF assms(1), of k] prefix_length_le [of "q @ a" "key_path cx k"] by simp
  with TExt extension_to_bytes [of a cx "tptr cx w"] show ?thesis by simp
qed

section \<open>Rehashing\<close>

text \<open>The trees from the tip up to the root; the frames come with the deepest one first.\<close>

fun climb :: "('k, 'v) frame list \<Rightarrow> ('k, 'v) tree \<Rightarrow> ('k, 'v) tree list" where
  "climb [] t = [t]"
| "climb (fr # rfrs) t = t # climb rfrs (plug1 fr t)"

lemma plug_rev_Cons: "plug (rev (fr # rfrs)) t = plug (rev rfrs) (plug1 fr t)"
  by simp

lemma last_climb: "last (climb rfrs t) = plug (rev rfrs) t"
proof (induction rfrs arbitrary: t)
  case (Cons fr rfrs)
  moreover have "climb rfrs (plug1 fr t) \<noteq> []"
    by (cases rfrs) simp_all
  ultimately show ?case by simp
qed simp

lemma climb_subtree: "u \<in> set (climb rfrs t) \<Longrightarrow> subtree u (plug (rev rfrs) t)"
proof (induction rfrs arbitrary: t)
  case (Cons fr rfrs)
  then show ?case
    using subtree_plug [of "[]" t "rev (fr # rfrs)"] by auto
qed (simp add: subtree.refl)

lemma climb_plug: "plug frs2 t \<in> set (climb (rev (frs1 @ frs2)) t)"
proof (induction frs2 arbitrary: t rule: rev_induct)
  case Nil
  then show ?case by (cases "rev frs1") simp_all
next
  case (snoc fr frs2)
  then show ?case by simp
qed

definition hashed :: "('k, 'v) tcx \<Rightarrow> ('k, 'v) tree \<Rightarrow> digest \<times> ('k, 'v) trie" where
  "hashed cx t = (thash cx t, enc cx t)"

lemma trie_hash_enc: "trie_to_bytes cx (enc cx t) = Inr b \<Longrightarrow> trie_hash cx (enc cx t) = Inr (thash cx t)"
  by (simp add: thash_def th_def trie_hash_def)

lemma tree_paths_unplug: "tree_paths cx p (plug (frs1 @ frs2) t) \<Longrightarrow> \<exists>q. tree_paths cx q (plug frs2 t)"
  using tree_paths_subtree [OF _ subtree_plug] by blast

lemma rehash_loop_climb:
  assumes "list_all2 (enc_frame cx) rfrs rps"
    and "\<exists>q. tree_paths cx q (plug (rev rfrs) t)"
    and "\<And>u. subtree u (plug (rev rfrs) t) \<Longrightarrow> \<exists>b. trie_to_bytes cx (enc cx u) = Inr b"
  shows "rehash_loop cx (enc cx t) (thash cx t) rps = Some (Inr (map (hashed cx) (tl (climb rfrs t))))"
  using assms
proof (induction rfrs rps arbitrary: t rule: list_all2_induct)
  case (Cons fr rfrs p rps)
  let ?u = "plug1 fr t"
  have u: "subtree ?u (plug (rev (fr # rfrs)) t)"
    using subtree_plug [of "[]" ?u "rev rfrs"] by simp
  obtain b where "trie_to_bytes cx (enc cx ?u) = Inr b"
    using Cons.prems(2) [OF u] by blast
  note hash = trie_hash_enc [OF this]
  from Cons.IH [of ?u] Cons.prems have IH:
    "rehash_loop cx (enc cx ?u) (thash cx ?u) rps = Some (Inr (map (hashed cx) (tl (climb rfrs ?u))))"
    by (simp only: plug_rev_Cons)
  have climb: "map (hashed cx) (climb rfrs ?u) = (thash cx ?u, enc cx ?u) # map (hashed cx) (tl (climb rfrs ?u))"
    by (cases rfrs) (simp_all add: hashed_def)
  show ?case
  proof (cases fr)
    case (FNode c f)
    with Cons.hyps(1) have p: "p = (c, Node (encf cx f))" by simp
    have "(case enc cx t of Leaf _ _ \<Rightarrow> LeafPointer (thash cx t) | _ \<Rightarrow> NodePointer (thash cx t)) = tptr cx t"
      by (cases t) (simp_all add: tptr_thash)
    with FNode p hash IH climb show ?thesis
      by (simp add: Let_def)
  next
    case (FExt a)
    with Cons.hyps(1) obtain i h where p: "p = (i, Extension a (NodePointer h))" by auto
    from Cons.prems(1) u tree_paths_subtree obtain q where "tree_paths cx q ?u" by blast
    with FExt have "is_node t" by simp
    then have "NodePointer (thash cx t) = tptr cx t"
      by (auto simp: tptr_thash elim: is_nodeE)
    with FExt p hash IH climb show ?thesis
      by (simp add: Let_def)
  qed
qed simp

lemma rehash_climb:
  assumes "enc_ctx cx frs ps" and "tree_paths cx p (plug frs t)"
    and "\<And>u. subtree u (plug frs t) \<Longrightarrow> \<exists>b. trie_to_bytes cx (enc cx u) = Inr b"
  shows "rehash cx (enc cx t) ps = Some (Inr (map (hashed cx) (climb (rev frs) t)))"
proof -
  obtain b where "trie_to_bytes cx (enc cx t) = Inr b"
    using assms(3) subtree_plug [of "[]" t frs] by auto
  note hash = trie_hash_enc [OF this]
  have "map (hashed cx) (climb (rev frs) t) = (thash cx t, enc cx t) # map (hashed cx) (tl (climb (rev frs) t))"
    by (cases "rev frs") (simp_all add: hashed_def)
  moreover have "rehash_loop cx (enc cx t) (thash cx t) (rev ps) = Some (Inr (map (hashed cx) (tl (climb (rev frs) t))))"
    using assms by (intro rehash_loop_climb) auto
  ultimately show ?thesis
    using hash by (simp add: rehash_def)
qed

section \<open>Adding to the store\<close>

definition hash_bytes :: "('k, 'v) tcx \<Rightarrow> byte list \<Rightarrow> digest" where
  "hash_bytes cx b = hash_into_chunks_if_necessary (blake2b cx) (tree_fold1 cx) b"

lemma thash_bytes: "trie_to_bytes cx (enc cx t) = Inr b \<Longrightarrow> thash cx t = hash_bytes cx b"
  by (simp add: thash_def th_def trie_hash_def hash_bytes_def)

text \<open>Every value lies at its hash.\<close>

definition addressed :: "('k, 'v) tcx \<Rightarrow> store \<Rightarrow> bool" where
  "addressed cx s \<longleftrightarrow> (\<forall>h b. s h = Some b \<longrightarrow> hash_bytes cx b = h)"

lemma addressed_upd:
  assumes "addressed cx s" and "inj_on (hash_bytes cx) (ran s \<union> B)" and "b \<in> B"
  defines "s' \<equiv> s(hash_bytes cx b \<mapsto> b)"
  shows "addressed cx s'" "s \<subseteq>\<^sub>m s'" "ran s' \<subseteq> ran s \<union> B"
proof -
  show "addressed cx s'"
    using assms(1) by (auto simp: addressed_def s'_def)
  have "b' = b" if "s (hash_bytes cx b) = Some b'" for b'
    using inj_onD [OF assms(2), of b' b] assms(1,3) that by (auto simp: addressed_def ranI)
  then show "s \<subseteq>\<^sub>m s'"
    by (auto simp: map_le_def s'_def)
  show "ran s' \<subseteq> ran s \<union> B"
    using assms(3) by (auto simp: ran_def s'_def)
qed

lemma put_all_hashed:
  assumes "addressed cx s" and "inj_on (hash_bytes cx) (ran s \<union> B)"
    and "\<And>t. t \<in> set ts \<Longrightarrow> \<exists>b\<in>B. trie_to_bytes cx (enc cx t) = Inr b"
  shows "\<exists>s'. put_all cx (map (hashed cx) ts) s = Inr s' \<and> s \<subseteq>\<^sub>m s' \<and> addressed cx s' \<and>
    ran s' \<subseteq> ran s \<union> B \<and> (\<forall>t\<in>set ts. here cx s' t)"
  using assms
proof (induction ts arbitrary: s)
  case (Cons t ts)
  obtain b where b: "b \<in> B" "trie_to_bytes cx (enc cx t) = Inr b"
    using Cons.prems(3) [of t] by auto
  let ?s = "s(thash cx t \<mapsto> b)"
  have upd: "addressed cx ?s" "s \<subseteq>\<^sub>m ?s" "ran ?s \<subseteq> ran s \<union> B"
    using addressed_upd [OF Cons.prems(1,2) b(1)] unfolding thash_bytes [OF b(2)] .
  have inj: "inj_on (hash_bytes cx) (ran ?s \<union> B)"
    using Cons.prems(2) by (rule inj_on_subset) (use upd(3) in blast)
  have "\<exists>b\<in>B. trie_to_bytes cx (enc cx u) = Inr b" if "u \<in> set ts" for u
    using Cons.prems(3) that by simp
  from Cons.IH [OF upd(1) inj this] obtain s' where s':
    "put_all cx (map (hashed cx) ts) ?s = Inr s'" "?s \<subseteq>\<^sub>m s'" "addressed cx s'" "ran s' \<subseteq> ran ?s \<union> B"
    "\<forall>t\<in>set ts. here cx s' t" by blast
  have "here cx ?s t"
    using b(2) by (simp add: here_def)
  then have "here cx s' t"
    using s'(2) by (rule here_mono)
  moreover have "put_all cx (map (hashed cx) (t # ts)) s = Inr s'"
    using s'(1) b(2) by (simp add: hashed_def store_put_def)
  ultimately show ?case
    using s'(2-5) upd(2,3) by (intro exI [of _ s']) (auto intro: map_le_trans)
qed auto

section \<open>The contents at a root\<close>

definition state :: "('k, 'v) tcx \<Rightarrow> store \<Rightarrow> digest \<Rightarrow> ('k \<times> 'v) set \<Rightarrow> bool" where
  "state cx s state_root E \<longleftrightarrow>
     (\<exists>t. root_wf cx t \<and> stored cx s t \<and> thash cx t = state_root \<and> entries t = E)"

lemma state_mono: "state cx s r E \<Longrightarrow> s \<subseteq>\<^sub>m s' \<Longrightarrow> state cx s' r E"
  unfolding state_def by (blast intro: stored_mono)

text \<open>The normal form with given entries; hash collisions with the store would be fatal.\<close>

definition no_collision :: "('k, 'v) tcx \<Rightarrow> store \<Rightarrow> ('k \<times> 'v) set \<Rightarrow> bool" where
  "no_collision cx s E \<longleftrightarrow>
     (\<forall>t. root_wf cx t \<longrightarrow> entries t = E \<longrightarrow> inj_on (hash_bytes cx) (ran s \<union> tree_bytes cx t))"

lemma stored_replug:
  assumes "stored cx s (plug frs u)" and "stored cx s w" and "\<And>frs1 frs2. frs = frs1 @ frs2 \<Longrightarrow> here cx s (plug frs2 w)"
  shows "stored cx s (plug frs w)"
  using assms
proof (induction frs)
  case (Cons fr frs)
  have "stored cx s (plug frs u)"
    using Cons.prems(1) by (cases fr) (auto, metis)
  moreover have "here cx s (plug frs2 w)" if "frs = frs1 @ frs2" for frs1 frs2
    using Cons.prems(3) [of "fr # frs1" frs2] that by simp
  ultimately have "stored cx s (plug frs w)"
    using Cons.IH Cons.prems(2) by blast
  moreover have "here cx s (plug (fr # frs) w)"
    using Cons.prems(3) [of "[]"] by simp
  ultimately show ?case
    using Cons.prems(1) by (cases fr) (auto split: if_splits)
qed simp

lemma stored_subtree: "stored cx s t \<Longrightarrow> subtree u t \<Longrightarrow> stored cx s u"
proof (induction arbitrary: u rule: stored.induct)
  case (leaf k v)
  then show ?case by (auto simp: subtree_simps)
next
  case (node f)
  then have "stored cx s (TNode f)" by simp
  with node.prems node.IH show ?case
    by (auto simp only: subtree_simps)
next
  case (ext a t)
  then have "stored cx s (TExt a t)" by simp
  with ext.prems ext.IH show ?case
    by (auto simp only: subtree_simps)
qed

lemma stored_leaf_fits: "stored cx s t \<Longrightarrow> (k, v) \<in> entries t \<Longrightarrow> leaf_fits cx k v"
proof (induction rule: stored.induct)
  case (leaf k' v')
  then show ?case by (auto simp: leaf_fits_def here_def)
next
  case (node f)
  then show ?case unfolding entries_TNode by blast
qed simp

text \<open>The trees \<open>ts\<close>, the root of the new tree being the last, are all that the store lacks of it.\<close>

definition replaces :: "('k, 'v) tcx \<Rightarrow> ('k, 'v) tree \<Rightarrow> ('k, 'v) tree \<Rightarrow> ('k, 'v) tree list \<Rightarrow> bool" where
  "replaces cx t t' ts \<longleftrightarrow>
     root_wf cx t' \<and> ts \<noteq> [] \<and> last ts = t' \<and> (\<forall>u\<in>set ts. subtree u t') \<and>
     (\<forall>s. stored cx s t \<longrightarrow> (\<forall>u\<in>set ts. here cx s u) \<longrightarrow> stored cx s t')"

lemma replaces_climb:
  assumes "root_wf cx (plug (frs @ mid) t)" and "\<And>x. x \<in> set ws \<Longrightarrow> subtree x (plug mid t)"
    and "\<And>s. \<lbrakk>stored cx s u; \<And>x. x \<in> set ws \<Longrightarrow> here cx s x;
        \<And>mid1 mid2. mid = mid1 @ mid2 \<Longrightarrow> here cx s (plug mid2 t)\<rbrakk> \<Longrightarrow> stored cx s (plug mid t)"
  shows "replaces cx (plug frs u) (plug (frs @ mid) t) (ws @ climb (rev (frs @ mid)) t)"
proof -
  let ?ts = "ws @ climb (rev (frs @ mid)) t"
  have "climb (rev (frs @ mid)) t \<noteq> []"
    by (cases "rev (frs @ mid)") simp_all
  then have "?ts \<noteq> []" "last ?ts = plug (frs @ mid) t"
    using last_climb [of "rev (frs @ mid)" t] by (simp_all del: rev_append)
  moreover have "subtree x (plug (frs @ mid) t)" if "x \<in> set ?ts" for x
  proof -
    from that consider "x \<in> set ws" | "x \<in> set (climb (rev (frs @ mid)) t)"
      by (auto simp del: rev_append)
    then show ?thesis
    proof cases
      case 1
      then have "subtree x (plug mid t)" by (rule assms(2))
      then show ?thesis
      proof (induction frs)
        case (Cons fr frs)
        then show ?case by (cases fr) (auto intro: subtree.intros)
      qed simp
    next
      case 2
      then show ?thesis
        using climb_subtree [of x "rev (frs @ mid)" t] by (simp del: rev_append)
    qed
  qed
  moreover have "stored cx s (plug (frs @ mid) t)"
    if "stored cx s (plug frs u)" "\<forall>x\<in>set ?ts. here cx s x" for s
  proof -
    have here: "here cx s (plug mid2 t)" if "frs @ mid = mid1 @ mid2" for mid1 mid2
      using climb_plug [of mid2 t mid1] that \<open>\<forall>x\<in>set ?ts. here cx s x\<close> by (auto simp del: rev_append)
    have "stored cx s u"
      using stored_subtree [OF that(1)] subtree_plug [of "[]" u frs] by simp
    then have "stored cx s (plug mid t)"
      using that(2) here [of "frs @ _"] by (intro assms(3)) auto
    moreover have "here cx s (plug frs2 (plug mid t))" if "frs = frs1 @ frs2" for frs1 frs2
      using here [of frs1 "frs2 @ mid"] that by simp
    ultimately show ?thesis
      using stored_replug [OF that(1)] by simp
  qed
  ultimately show ?thesis
    using assms(1) by (simp add: replaces_def del: rev_append)
qed

lemma put_replacement:
  assumes "tcx_ok cx" and "addressed cx s" and "stored cx s t" and "replaces cx t t' ts"
    and "no_collision cx s (entries t')" and "\<And>k v. (k, v) \<in> entries t' \<Longrightarrow> leaf_fits cx k v"
  shows "\<exists>s'. put_all cx (map (hashed cx) ts) s = Inr s' \<and> s \<subseteq>\<^sub>m s' \<and> addressed cx s' \<and>
    state cx s' (fst (last (map (hashed cx) ts))) (entries t')"
proof -
  from assms(4) have t': "root_wf cx t'" "ts \<noteq> []" "last ts = t'" "\<And>u. u \<in> set ts \<Longrightarrow> subtree u t'"
    "\<And>s. stored cx s t \<Longrightarrow> (\<forall>u\<in>set ts. here cx s u) \<Longrightarrow> stored cx s t'"
    by (auto simp: replaces_def)
  have inj: "inj_on (hash_bytes cx) (ran s \<union> tree_bytes cx t')"
    using assms(5) t'(1) by (auto simp: no_collision_def)
  have "\<exists>b\<in>tree_bytes cx t'. trie_to_bytes cx (enc cx u) = Inr b" if "u \<in> set ts" for u
    using subtree_to_bytes [OF assms(1) root_wf_paths [OF t'(1)] assms(6) t'(4) [OF that]] t'(4) [OF that]
    by (auto simp: tree_bytes_def)
  from put_all_hashed [OF assms(2) inj this] obtain s' where s':
    "put_all cx (map (hashed cx) ts) s = Inr s'" "s \<subseteq>\<^sub>m s'" "addressed cx s'" "\<forall>u\<in>set ts. here cx s' u"
    by blast
  have "stored cx s' t'"
    using t'(5) [OF stored_mono [OF assms(3) s'(2)] s'(4)] .
  moreover have "fst (last (map (hashed cx) ts)) = thash cx t'"
    using t'(2,3) by (simp add: last_map hashed_def)
  ultimately show ?thesis
    using s' t'(1) by (auto simp: state_def)
qed

end
