(* ===== verification/Trie_Write.thy ===== *)
theory Trie_Write
  imports Trie_Replace
begin

text \<open>
  Writing: \<open>write_trie\<close> turns the tree at the root into the normal form with the new entry. The four cases of
  the code are the four ways in which a scan ends: at a node without the child, at the leaf of the key,
  at another leaf, and at an extension; in the last two the paths branch.
\<close>

section \<open>Common prefixes\<close>

lemma common_prefix_prefix [simp]: "prefix (common_prefix xs ys) xs" "prefix (common_prefix xs ys) ys"
  by (induction xs ys rule: common_prefix.induct) auto

lemma common_prefix_of_prefix: "prefix ys xs \<Longrightarrow> common_prefix xs ys = ys"
  by (induction xs ys rule: common_prefix.induct) auto

lemma common_prefix_append: "common_prefix (q @ xs) (q @ ys) = q @ common_prefix xs ys"
  by (induction q) simp_all

lemma common_prefix_diverge:
  assumes "\<not> prefix xs ys" and "\<not> prefix ys xs"
  shows "\<exists>pa i r i' r'. xs = pa @ i # r \<and> ys = pa @ i' # r' \<and> i \<noteq> i' \<and> common_prefix xs ys = pa"
  using assms
proof (induction xs ys rule: common_prefix.induct)
  case (1 l ls r rs)
  show ?case
  proof (cases "l = r")
    case True
    with 1 obtain pa i s i' s' where "ls = pa @ i # s" "rs = pa @ i' # s'" "i \<noteq> i'" "common_prefix ls rs = pa"
      by auto
    with True show ?thesis
      by (intro exI [of _ "l # pa"] exI [of _ i] exI [of _ s] exI [of _ i'] exI [of _ s']) simp
  next
    case False
    then show ?thesis
      by (intro exI [of _ "[]"] exI [of _ l] exI [of _ ls] exI [of _ r] exI [of _ rs]) simp
  qed
qed auto

lemma common_prefix_branch:
  assumes "prefix q xs" and "prefix q ys" and "\<not> prefix xs ys" and "\<not> prefix ys xs"
  obtains pa i r i' r' where "xs = q @ pa @ i # r" "ys = q @ pa @ i' # r'" "i \<noteq> i'" "common_prefix xs ys = q @ pa"
proof -
  from assms(1,2) obtain us vs where "xs = q @ us" "ys = q @ vs"
    by (auto simp: prefix_def)
  with assms(3,4) common_prefix_diverge [of us vs] that show ?thesis
    by (auto simp: common_prefix_append)
qed

section \<open>Branching\<close>

definition ext_frames :: "byte list \<Rightarrow> ('k, 'v) frame list" where
  "ext_frames a = (if a = [] then [] else [FExt a])"

lemma ctx_path_ext_frames [simp]: "ctx_path (ext_frames a) = a"
  by (simp add: ext_frames_def)

lemma ctx_entries_ext_frames [simp]: "ctx_entries (ext_frames a) = {}"
  by (simp add: ext_frames_def)

lemma tree_wf_ext_frames:
  "tree_wf cx (q @ a) t \<Longrightarrow> is_node t \<Longrightarrow> tree_wf cx q (plug (ext_frames a) t)"
  by (cases "a = []") (simp_all add: ext_frames_def)

text \<open>The subtree in which the path of the new leaf and that of \<open>w\<close> branch off after \<open>pa\<close>.\<close>

definition branch :: "byte list \<Rightarrow> byte \<Rightarrow> byte \<Rightarrow> ('k, 'v) tree \<Rightarrow> ('k, 'v) frame list" where
  "branch pa i i' w = ext_frames pa @ [FNode i [i' \<mapsto> w]]"

lemma branch_wf:
  assumes "key_path cx k = q @ pa @ i # r" and "i \<noteq> i'" and "tree_wf cx (q @ pa @ [i']) w"
  shows "tree_wf cx q (plug (branch pa i i' w) (TLeaf k v))"
proof -
  have "tree_wf cx (q @ pa) (TNode ([i' \<mapsto> w, i \<mapsto> TLeaf k v]))"
    using assms by (intro tree_wf.node [of _ _ _ i i']) (auto split: if_splits)
  then show ?thesis
    by (simp add: branch_def tree_wf_ext_frames)
qed

lemma entries_branch:
  "i \<noteq> i' \<Longrightarrow> entries (plug (branch pa i i' w) (TLeaf k v)) = insert (k, v) (entries w)"
proof -
  assume *: "i \<noteq> i'"
  have "(k', v') \<in> entries (TNode ([i' \<mapsto> w, i \<mapsto> TLeaf k v])) \<longleftrightarrow> (k', v') \<in> insert (k, v) (entries w)" for k' v'
    using * unfolding entries_TNode
    by (auto split: if_splits intro: exI [of _ i] exI [of _ i'])
  then have "entries (TNode ([i' \<mapsto> w, i \<mapsto> TLeaf k v])) = insert (k, v) (entries w)"
    by auto
  then show ?thesis
    by (simp add: branch_def entries_plug)
qed

lemma stored_branch:
  assumes "stored cx s w" and "\<And>mid1 mid2. branch pa i i' w = mid1 @ mid2 \<Longrightarrow> here cx s (plug mid2 (TLeaf k v))"
  shows "stored cx s (plug (branch pa i i' w) (TLeaf k v))"
proof -
  have "here cx s (TLeaf k v)"
    using assms(2) [of "branch pa i i' w" "[]"] by simp
  moreover have "here cx s (TNode ([i' \<mapsto> w, i \<mapsto> TLeaf k v]))"
    using assms(2) [of "ext_frames pa"] by (simp add: branch_def)
  moreover have "here cx s (plug (branch pa i i' w) (TLeaf k v))"
    using assms(2) [of "[]"] by simp
  ultimately show ?thesis
    using assms(1) by (auto simp: branch_def ext_frames_def split: if_splits)
qed

lemma ctx_entries_branch_off:
  assumes "tree_paths cx p (plug frs u)" and "prefix (p @ ctx_path frs) (key_path cx k)"
  shows "(k, v) \<notin> ctx_entries frs"
  using assms
proof (induction frs arbitrary: p)
  case (Cons fr frs)
  show ?case
  proof (cases fr)
    case (FNode b f)
    with Cons.prems(1) have wf: "\<And>c t. (f(b := Some (plug frs u))) c = Some t \<Longrightarrow> tree_paths cx (p @ [c]) t"
      by simp
    have pre: "prefix (p @ [b]) (key_path cx k)"
      using Cons.prems(2) FNode by (auto dest: prefix_append_Cons)
    have "c = b" if "f c = Some t" "(k, v) \<in> entries t" for c t
      using tree_paths_prefix [of cx "p @ [c]" t k v] wf [of c t] that pre by (auto dest: prefix_snoc_unique)
    then have "(k, v) \<notin> frame_entries fr"
      using FNode by (auto simp: entries_TNode)
    moreover have "(k, v) \<notin> ctx_entries frs"
      using Cons.IH [of "p @ [b]"] wf [of b] Cons.prems(2) FNode by simp
    ultimately show ?thesis by simp
  next
    case (FExt a)
    with Cons.IH [of "p @ a"] Cons.prems show ?thesis by simp
  qed
qed simp

section \<open>The new tree\<close>

abbreviation insert_entry :: "'k \<Rightarrow> 'v \<Rightarrow> ('k \<times> 'v) set \<Rightarrow> ('k \<times> 'v) set" where
  "insert_entry k v E \<equiv> insert (k, v) {e \<in> E. fst e \<noteq> k}"

lemma fits_other: "fits frs u \<Longrightarrow> \<not> is_node u \<Longrightarrow> fits frs w"
  by (auto simp: fits_def)

lemma entries_replug:
  assumes "root_wf cx (plug frs u)" and "prefix (ctx_path frs) (key_path cx k)"
    and "entries w = insert_entry k v (entries u)"
  shows "entries (plug frs w) = insert_entry k v (entries (plug frs u))"
proof -
  have "(k, v') \<notin> ctx_entries frs" for v'
    using ctx_entries_branch_off [OF root_wf_paths [OF assms(1)]] assms(2) by simp
  then show ?thesis
    using assms(3) by (auto simp: entries_plug)
qed

text \<open>The leaf becomes a child of a node.\<close>

lemma node_case:
  assumes "tcx_ok cx" and "root_wf cx (plug frs (TNode f))" and "prefix (ctx_path frs) (key_path cx k)"
    and "stuck (key_path cx k) (ctx_path frs) (TNode f)"
  defines "i \<equiv> key_path cx k ! length (ctx_path frs)"
  shows "replaces cx (plug frs (TNode f)) (plug (frs @ [FNode i f]) (TLeaf k v)) (climb (rev (frs @ [FNode i f])) (TLeaf k v))"
    and "entries (plug (frs @ [FNode i f]) (TLeaf k v)) = insert_entry k v (entries (plug frs (TNode f)))"
proof -
  let ?w = "TNode (f(i := Some (TLeaf k v)))"
  have wf: "wf_in cx frs (TNode f)" "fits frs (TNode f)"
    using root_wf_plug [OF assms(2)] by simp_all
  have i: "prefix (ctx_path frs @ [i]) (key_path cx k)" "f i = None"
    using assms(3,4) prefix_nth [of "ctx_path frs" "key_path cx k"] by (simp_all add: i_def)
  have "wf_in cx frs ?w"
  proof (cases "frs = []")
    case True
    with wf(1) i show ?thesis by (auto simp: wf_in_def root_wf_def)
  next
    case False
    with wf(1) have "tree_wf cx (ctx_path frs) (TNode f)"
      by (simp add: wf_in_def)
    then obtain b1 b2 where "\<And>b t. f b = Some t \<Longrightarrow> tree_wf cx (ctx_path frs @ [b]) t"
        "f b1 \<noteq> None" "f b2 \<noteq> None" "b1 \<noteq> b2"
      by (erule_tac tree_wf_nodeE) blast
    with i have "tree_wf cx (ctx_path frs) ?w"
      by (intro tree_wf.node [of _ _ _ b1 b2]) (auto split: if_splits)
    with False show ?thesis by (simp add: wf_in_def)
  qed
  moreover have "fits frs ?w"
    using wf(2) by (auto simp: fits_def)
  ultimately have root: "root_wf cx (plug (frs @ [FNode i f]) (TLeaf k v))"
    using root_wf_replug [OF assms(2)] by simp
  have "stored cx s (plug [FNode i f] (TLeaf k v))"
    if "stored cx s (TNode f)" and "\<And>mid1 mid2. [FNode i f] = mid1 @ mid2 \<Longrightarrow> here cx s (plug mid2 (TLeaf k v))" for s
    using that(1) that(2) [of "[]"] that(2) [of "[FNode i f]" "[]"] by (auto split: if_splits)
  from replaces_climb [OF root, of "[]" "TNode f"] this
  show "replaces cx (plug frs (TNode f)) (plug (frs @ [FNode i f]) (TLeaf k v)) (climb (rev (frs @ [FNode i f])) (TLeaf k v))"
    by simp
  have "(k, v') \<notin> entries (TNode f)" for v'
  proof
    assume *: "(k, v') \<in> entries (TNode f)"
    have "\<And>b t. f b = Some t \<Longrightarrow> tree_wf cx (ctx_path frs @ [b]) t"
      using wf(1) by (cases "frs = []") (auto simp: wf_in_def root_wf_def elim: tree_wf_nodeE)
    from child_of_entry [of f, OF this * i(1)] i(2) show False by simp
  qed
  then have "entries ?w = insert_entry k v (entries (TNode f))"
    using i(2) entries_plug1 [of "FNode i f" "TLeaf k v"] by (auto simp: fun_upd_idem)
  then show "entries (plug (frs @ [FNode i f]) (TLeaf k v)) = insert_entry k v (entries (plug frs (TNode f)))"
    using entries_replug [OF assms(2,3)] by simp
qed

text \<open>The leaf takes the place of the one with the same key.\<close>

lemma same_leaf_case:
  assumes "root_wf cx (plug frs (TLeaf k v'))" and "prefix (ctx_path frs) (key_path cx k)"
  shows "replaces cx (plug frs (TLeaf k v')) (plug frs (TLeaf k v)) (climb (rev frs) (TLeaf k v))"
    and "entries (plug frs (TLeaf k v)) = insert_entry k v (entries (plug frs (TLeaf k v')))"
proof -
  have wf: "wf_in cx frs (TLeaf k v')" "fits frs (TLeaf k v')"
    using root_wf_plug [OF assms(1)] by simp_all
  then have "wf_in cx frs (TLeaf k v)" "fits frs (TLeaf k v)"
    by (auto simp: wf_in_def root_wf_def fits_def split: if_splits)
  then have root: "root_wf cx (plug (frs @ []) (TLeaf k v))"
    using root_wf_replug [OF assms(1)] by simp
  have "stored cx s (plug [] (TLeaf k v))"
    if "\<And>mid1 mid2. [] = mid1 @ mid2 \<Longrightarrow> here cx s (plug mid2 (TLeaf k v))" for s
    using that by simp
  from replaces_climb [OF root, of "[]" "TLeaf k v'"] this
  show "replaces cx (plug frs (TLeaf k v')) (plug frs (TLeaf k v)) (climb (rev frs) (TLeaf k v))"
    by simp
  show "entries (plug frs (TLeaf k v)) = insert_entry k v (entries (plug frs (TLeaf k v')))"
    by (rule entries_replug [OF assms]) auto
qed

text \<open>The path of the leaf branches off before the leaf or within the extension.\<close>

lemma branch_case:
  assumes "root_wf cx (plug frs u)" and "frs \<noteq> []" and "\<not> is_node u"
    and "key_path cx k = ctx_path frs @ pa @ i # r" and "i \<noteq> i'" and "tree_wf cx (ctx_path frs @ pa @ [i']) w"
    and "entries w = entries u" and "\<And>v'. (k, v') \<notin> entries u" and "set ws \<subseteq> {w}"
    and "\<And>s. stored cx s u \<Longrightarrow> (\<And>x. x \<in> set ws \<Longrightarrow> here cx s x) \<Longrightarrow> stored cx s w"
  shows "replaces cx (plug frs u) (plug (frs @ branch pa i i' w) (TLeaf k v)) (ws @ climb (rev (frs @ branch pa i i' w)) (TLeaf k v))"
    and "entries (plug (frs @ branch pa i i' w) (TLeaf k v)) = insert_entry k v (entries (plug frs u))"
proof -
  let ?t = "plug (branch pa i i' w) (TLeaf k v)"
  have "tree_wf cx (ctx_path frs) ?t"
    by (rule branch_wf) (use assms in auto)
  moreover have "fits frs ?t"
    using root_wf_plug [OF assms(1)] fits_other [OF _ assms(3)] by blast
  ultimately have root: "root_wf cx (plug (frs @ branch pa i i' w) (TLeaf k v))"
    using root_wf_replug [OF assms(1)] assms(2) by (simp add: wf_in_def)
  have "subtree w (TNode [i' \<mapsto> w, i \<mapsto> TLeaf k v])"
    using assms(5) by (intro subtree.node [of _ i' w]) (simp_all add: subtree.refl)
  then have "subtree w ?t"
    by (auto simp: branch_def ext_frames_def intro: subtree.ext)
  then have sub: "subtree x ?t" if "x \<in> set ws" for x
    using assms(9) that by blast
  have st: "stored cx s ?t" if "stored cx s u" "\<And>x. x \<in> set ws \<Longrightarrow> here cx s x"
      "\<And>mid1 mid2. branch pa i i' w = mid1 @ mid2 \<Longrightarrow> here cx s (plug mid2 (TLeaf k v))" for s
    by (rule stored_branch [OF assms(10) [OF that(1,2)] that(3)])
  show "replaces cx (plug frs u) (plug (frs @ branch pa i i' w) (TLeaf k v)) (ws @ climb (rev (frs @ branch pa i i' w)) (TLeaf k v))"
    by (rule replaces_climb [OF root sub st])
  have "entries ?t = insert_entry k v (entries u)"
    using entries_branch [OF assms(5), of pa w k v] assms(7,8) by auto
  then show "entries (plug (frs @ branch pa i i' w) (TLeaf k v)) = insert_entry k v (entries (plug frs u))"
    using entries_replug [OF assms(1), of k ?t v] assms(4) by simp
qed

section \<open>The new elements\<close>

definition new_tree :: "('k, 'v) tcx \<Rightarrow> 'k \<Rightarrow> 'v \<Rightarrow> ('k, 'v) tree \<Rightarrow> (digest \<times> ('k, 'v) trie) list \<Rightarrow> bool" where
  "new_tree cx k v t es \<longleftrightarrow>
     (\<exists>t' ts. es = map (hashed cx) ts \<and> replaces cx t t' ts \<and> entries t' = insert_entry k v (entries t))"

lemma rehash_new:
  assumes "tcx_ok cx" and "leaf_fits cx k v" and "\<And>k' v'. (k', v') \<in> entries t \<Longrightarrow> leaf_fits cx k' v'"
    and "replaces cx t (plug frs (TLeaf k v)) ts" and "entries (plug frs (TLeaf k v)) = insert_entry k v (entries t)"
    and "enc_ctx cx frs ps"
  shows "rehash cx (Leaf k v) ps = Some (Inr (map (hashed cx) (climb (rev frs) (TLeaf k v))))"
proof -
  have paths: "tree_paths cx [] (plug frs (TLeaf k v))"
    using assms(4) by (simp add: replaces_def root_wf_paths)
  have "leaf_fits cx k' v'" if "(k', v') \<in> entries (plug frs (TLeaf k v))" for k' v'
    using that assms(2,3) unfolding assms(5) by auto
  from subtree_to_bytes [OF assms(1) paths this] rehash_climb [OF assms(6) paths] show ?thesis
    by simp
qed

lemma add_node_to_parents_ctx:
  assumes "enc_ctx cx frs ps" and "prefix (ctx_path frs) path" and "length (ctx_path frs) < length path"
  shows "add_node_to_parents path (Node pb) ps = Some (ps @ [(path ! length (ctx_path frs), Node pb)])"
  using assms by (simp add: add_node_to_parents_def get_parents_path_ctx common_prefix_of_prefix Let_def)

lemma new_elements_node:
  assumes "tcx_ok cx" and "root_wf cx (plug frs (TNode f))" and "enc_ctx cx frs ps"
    and "prefix (ctx_path frs) (key_path cx k)" and "stuck (key_path cx k) (ctx_path frs) (TNode f)"
    and "leaf_fits cx k v" and "\<And>k' v'. (k', v') \<in> entries (plug frs (TNode f)) \<Longrightarrow> leaf_fits cx k' v'"
  shows "\<exists>es. new_elements cx k v (key_path cx k) (LazyNode (encf cx f)) ps = Some (Inr es) \<and>
    new_tree cx k v (plug frs (TNode f)) es"
proof -
  let ?i = "key_path cx k ! length (ctx_path frs)"
  note node = node_case [OF assms(1,2,4,5), of v]
  have "enc_ctx cx (frs @ [FNode ?i f]) (ps @ [(?i, Node (encf cx f))])"
    using assms(3) by (intro list_all2_appendI) auto
  from rehash_new [OF assms(1,6,7) node this]
  have "new_elements cx k v (key_path cx k) (LazyNode (encf cx f)) ps =
      Some (Inr (map (hashed cx) (climb (rev (frs @ [FNode ?i f])) (TLeaf k v))))"
    using add_node_to_parents_ctx [OF assms(3,4)] assms(5) by (simp add: new_elements_def Let_def del: rev_append)
  with node show ?thesis
    unfolding new_tree_def by blast
qed

lemma new_elements_same_leaf:
  assumes "tcx_ok cx" and "root_wf cx (plug frs (TLeaf k v'))" and "enc_ctx cx frs ps"
    and "prefix (ctx_path frs) (key_path cx k)" and "trie_to_bytes cx (Leaf k v') = Inr b" and "v \<noteq> v'"
    and "leaf_fits cx k v" and "\<And>k' v''. (k', v'') \<in> entries (plug frs (TLeaf k v')) \<Longrightarrow> leaf_fits cx k' v''"
  shows "\<exists>es. new_elements cx k v (key_path cx k) (LazyLeaf b) ps = Some (Inr es) \<and>
    new_tree cx k v (plug frs (TLeaf k v')) es"
proof -
  note leaf = same_leaf_case [OF assms(2,4), of v]
  obtain vb where vb: "to_bytes (value_codec cx) v' = Inr vb" "try_deserialize_leaf_key cx b = Some (Inr (k, vb))"
    using try_deserialize_leaf_key_to [OF assms(1,5)] by blast
  obtain nb where nb: "to_bytes (value_codec cx) v = Inr nb"
    using assms(7) by (auto simp: leaf_fits_def trie_to_bytes_Inr trie_write_bytes_def)
  have "nb \<noteq> vb"
    using bytesrepr.to_bytes_inj [of "value_codec cx" v nb v'] vb(1) nb assms(1,6) by (auto simp: tcx_ok_def)
  with rehash_new [OF assms(1,7,8) leaf assms(3)] vb(2) nb
  have "new_elements cx k v (key_path cx k) (LazyLeaf b) ps =
      Some (Inr (map (hashed cx) (climb (rev frs) (TLeaf k v))))"
    by (simp add: new_elements_def Let_def)
  with leaf show ?thesis
    unfolding new_tree_def by blast
qed

lemma new_elements_same_entry:
  assumes "tcx_ok cx" and "trie_to_bytes cx (Leaf k v) = Inr b"
  shows "new_elements cx k v path (LazyLeaf b) ps = Some (Inr [])"
  using try_deserialize_leaf_key_to [OF assms] by (auto simp: new_elements_def Let_def)

lemma key_paths_branch:
  "tcx_ok cx \<Longrightarrow> k \<noteq> k' \<Longrightarrow> \<not> prefix (key_path cx k) (key_path cx k')"
  using key_path_prefix_free [of cx k k'] by auto

lemma fits_ends_in_node:
  assumes "fits frs u" and "\<not> is_node u" and "frs \<noteq> []"
  obtains frs' b f where "frs = frs' @ [FNode b f]"
proof -
  obtain frs' fr where "frs = frs' @ [fr]"
    using assms(3) by (cases frs rule: rev_cases) auto
  with assms(1,2) that show ?thesis
    by (cases fr) (auto simp: fits_def)
qed

lemma enc_branch:
  assumes "enc_ctx cx frs ps" and "enc_ctx cx (ext_frames pa) qs" and "encf cx [i' \<mapsto> w] = pb"
  shows "enc_ctx cx (frs @ branch pa i i' w) ((ps @ qs) @ [(i, Node pb)])"
  using assms unfolding branch_def append_assoc
  by (intro list_all2_appendI) auto

lemma new_elements_other_leaf:
  assumes "tcx_ok cx" and "root_wf cx (plug frs (TLeaf k' v'))" and "full frs (TLeaf k' v')" and "enc_ctx cx frs ps"
    and "prefix (ctx_path frs) (key_path cx k)" and "trie_to_bytes cx (Leaf k' v') = Inr b" and "k \<noteq> k'"
    and "leaf_fits cx k v" and "\<And>l w. (l, w) \<in> entries (plug frs (TLeaf k' v')) \<Longrightarrow> leaf_fits cx l w"
  shows "\<exists>es. new_elements cx k v (key_path cx k) (LazyLeaf b) ps = Some (Inr es) \<and>
    new_tree cx k v (plug frs (TLeaf k' v')) es"
proof -
  let ?u = "TLeaf k' v'"
  have wf: "wf_in cx frs ?u" "fits frs ?u"
    using root_wf_plug [OF assms(2)] by simp_all
  then have frs: "frs \<noteq> []" and "prefix (ctx_path frs) (key_path cx k')"
    by (auto simp: wf_in_def root_wf_def split: if_splits)
  with common_prefix_branch [OF assms(5), of "key_path cx k'"] key_paths_branch [OF assms(1)] assms(7)
  obtain pa i r i' r' where br: "key_path cx k = ctx_path frs @ pa @ i # r" "key_path cx k' = ctx_path frs @ pa @ i' # r'"
      "i \<noteq> i'" "common_prefix (key_path cx k) (key_path cx k') = ctx_path frs @ pa"
    by metis
  let ?t = "plug (frs @ branch pa i i' ?u) (TLeaf k v)"
  have "tree_wf cx (ctx_path frs @ pa @ [i']) ?u"
    using br(2) by simp
  then have case': "replaces cx (plug frs ?u) ?t ([] @ climb (rev (frs @ branch pa i i' ?u)) (TLeaf k v))"
      "entries ?t = insert_entry k v (entries (plug frs ?u))"
    using branch_case [OF assms(2) frs _ br(1,3), of ?u "[]" v] assms(7) by auto
  obtain frs' c f where c: "frs = frs' @ [FNode c f]"
    using fits_ends_in_node [OF wf(2) _ frs] by auto
  then obtain ps' where ps: "ps = ps' @ [(c, Node (encf cx f))]"
    using assms(4) by (auto simp: list_all2_append1 list_all2_Cons1)
  have "f c = Some ?u"
    using assms(3) c by simp
  then have ptr: "encf cx f c = Some (tptr cx ?u)"
    by (simp add: encf_def)
  let ?pb = "[i' \<mapsto> tptr cx ?u]"
  obtain h where h: "trie_hash cx (Node ?pb) = Inr h"
    by (simp add: trie_hash_def node_to_bytes)
  let ?qs = "if pa = [] then [] else [(c, Extension pa (NodePointer h))]"
  have "reparent_leaf cx (key_path cx k) (key_path cx k') ps = Some (Inr (Node ?pb, ps @ ?qs))"
    using br(2,4) ps ptr h get_parents_path_ctx [OF assms(4)]
    by (simp add: reparent_leaf_def Let_def nth_append)
  moreover have qs: "enc_ctx cx (ext_frames pa) ?qs"
    by (simp add: ext_frames_def)
  have enc: "enc_ctx cx (frs @ branch pa i i' ?u) ((ps @ ?qs) @ [(i, Node ?pb)])"
    by (rule enc_branch [OF assms(4) qs]) (simp add: encf_def fun_eq_iff)
  have "add_node_to_parents (key_path cx k) (Node ?pb) (ps @ ?qs) = Some ((ps @ ?qs) @ [(i, Node ?pb)])"
    using add_node_to_parents_ctx [OF list_all2_appendI [OF assms(4) qs], of "key_path cx k" ?pb] br(1)
    by (simp add: nth_append)
  moreover obtain vb where "try_deserialize_leaf_key cx b = Some (Inr (k', vb))"
    using try_deserialize_leaf_key_to [OF assms(1,6)] by blast
  moreover note rehash_new [OF assms(1,8,9) case' enc]
  ultimately have "new_elements cx k v (key_path cx k) (LazyLeaf b) ps =
      Some (Inr (map (hashed cx) (climb (rev (frs @ branch pa i i' ?u)) (TLeaf k v))))"
    using assms(7) key_path_bytes [OF assms(1), of k'] by (simp add: new_elements_def Let_def del: rev_append)
  with case' show ?thesis
    unfolding new_tree_def append_Nil by blast
qed

lemma stored_ext_frames:
  "stored cx s t \<Longrightarrow> (ca \<noteq> [] \<Longrightarrow> here cx s (TExt ca t)) \<Longrightarrow> stored cx s (plug (ext_frames ca) t)"
  by (simp add: ext_frames_def)

lemma split_extension_ctx:
  assumes "enc_ctx cx frs ps" and "path = ctx_path frs @ pa @ i # r" and "i \<noteq> i'" and "is_node t"
    and "length ca \<le> u32_max - 38"
  defines "w \<equiv> plug (ext_frames ca) t"
  shows "\<exists>h. split_extension cx path (Extension (pa @ i' # ca) (tptr cx t)) ps =
    Some (Inr \<lparr>split_new_node = Node [i' \<mapsto> tptr cx w],
      split_parents = ps @ (if pa = [] then [] else [(hd pa, Extension pa (NodePointer h))]),
      maybe_hashed_child_extension = (if ca = [] then None else Some (hashed cx w))\<rparr>)"
    (is "\<exists>h. ?l = ?r h")
proof -
  obtain h where h: "trie_hash cx (Node [i' \<mapsto> tptr cx w]) = Inr h"
    by (simp add: trie_hash_def node_to_bytes)
  have shared: "common_prefix path (ctx_path frs @ pa @ i' # ca) = ctx_path frs @ pa"
    using assms(2,3) by (simp add: common_prefix_append)
  show ?thesis
  proof (intro exI [of _ h], cases "ca = []")
    case True
    then have "w = t" by (simp add: w_def ext_frames_def)
    with True h shared get_parents_path_ctx [OF assms(1)]
    show "?l = ?r h"
      by (cases "pa = []") (simp_all add: split_extension_def Let_def nth_append)
  next
    case False
    then have w: "w = TExt ca t" by (simp add: w_def ext_frames_def)
    obtain b where "trie_to_bytes cx (enc cx w) = Inr b"
      using extension_to_bytes [OF assms(5)] w by fastforce
    note hash = trie_hash_enc [OF this]
    have "tptr cx w = NodePointer (thash cx w)"
      by (simp add: w tptr_thash)
    with False h hash w shared get_parents_path_ctx [OF assms(1)]
    show "?l = ?r h"
      by (cases "pa = []") (simp_all add: split_extension_def Let_def nth_append hashed_def)
  qed
qed

lemma new_elements_ext:
  assumes "tcx_ok cx" and "root_wf cx (plug frs (TExt a t))" and "enc_ctx cx frs ps"
    and "prefix (ctx_path frs) (key_path cx k)" and "stuck (key_path cx k) (ctx_path frs) (TExt a t)"
    and "leaf_fits cx k v" and "\<And>l w. (l, w) \<in> entries (plug frs (TExt a t)) \<Longrightarrow> leaf_fits cx l w"
  shows "\<exists>es. new_elements cx k v (key_path cx k) (LazyExtension a (tptr cx t)) ps = Some (Inr es) \<and>
    new_tree cx k v (plug frs (TExt a t)) es"
proof -
  let ?u = "TExt a t"
  let ?q = "ctx_path frs"
  have wf: "wf_in cx frs ?u" "fits frs ?u"
    using root_wf_plug [OF assms(2)] by simp_all
  then have frs: "frs \<noteq> []" and t: "tree_wf cx (?q @ a) t" "is_node t"
    by (auto simp: wf_in_def root_wf_def split: if_splits)
  obtain k' v' where k': "(k', v') \<in> entries t" "prefix (?q @ a) (key_path cx k')"
    using tree_wf_nonempty [OF t(1)] tree_wf_prefix [OF t(1)] by blast
  have not: "\<not> prefix (?q @ a) (key_path cx k)"
    using assms(5) by simp
  have not': "\<not> prefix (key_path cx k) (?q @ a)"
    using k'(2) not key_path_prefix_free [OF assms(1), of k k'] by (metis prefix_order.trans)
  have "prefix ?q (?q @ a)" by simp
  then obtain pa i r i' ca where
    br: "key_path cx k = ?q @ pa @ i # r" "?q @ a = ?q @ pa @ i' # ca" "i \<noteq> i'"
    by (rule common_prefix_branch [OF assms(4) _ not' not])
  then have a: "a = pa @ i' # ca" by simp
  define w where "w = plug (ext_frames ca) t"
  let ?ws = "if ca = [] then [] else [w]"
  let ?t = "plug (frs @ branch pa i i' w) (TLeaf k v)"
  have w: "tree_wf cx (?q @ pa @ [i']) w" "entries w = entries ?u"
    using tree_wf_ext_frames [of cx "?q @ pa @ [i']" ca t] t a by (simp_all add: w_def entries_plug)
  have absent: "(k, v'') \<notin> entries ?u" for v''
    using not tree_wf_prefix [OF t(1)] by auto
  have "stored cx s w" if "stored cx s ?u" "\<And>x. x \<in> set ?ws \<Longrightarrow> here cx s x" for s
    unfolding w_def by (rule stored_ext_frames) (use that in \<open>auto simp: w_def ext_frames_def\<close>)
  then have case': "replaces cx (plug frs ?u) ?t (?ws @ climb (rev (frs @ branch pa i i' w)) (TLeaf k v))"
      "entries ?t = insert_entry k v (entries (plug frs ?u))"
    using branch_case [OF assms(2) frs _ br(1,3) w absent, of ?ws v] by simp_all
  have "length ca \<le> u32_max - 38"
    using prefix_length_le [OF k'(2)] key_path_length [OF assms(1), of k'] a by simp
  from split_extension_ctx [OF assms(3) br(1,3) t(2) this] obtain h where
    split: "split_extension cx (key_path cx k) (Extension a (tptr cx t)) ps =
      Some (Inr \<lparr>split_new_node = Node [i' \<mapsto> tptr cx w],
        split_parents = ps @ (if pa = [] then [] else [(hd pa, Extension pa (NodePointer h))]),
        maybe_hashed_child_extension = (if ca = [] then None else Some (hashed cx w))\<rparr>)"
    unfolding a w_def by blast
  let ?qs = "if pa = [] then [] else [(hd pa, Extension pa (NodePointer h))]"
  let ?pb = "[i' \<mapsto> tptr cx w]"
  have qs: "enc_ctx cx (ext_frames pa) ?qs"
    by (simp add: ext_frames_def)
  have enc: "enc_ctx cx (frs @ branch pa i i' w) ((ps @ ?qs) @ [(i, Node ?pb)])"
    by (rule enc_branch [OF assms(3) qs]) (simp add: encf_def fun_eq_iff)
  have add: "add_node_to_parents (key_path cx k) (Node ?pb) (ps @ ?qs) = Some ((ps @ ?qs) @ [(i, Node ?pb)])"
    using add_node_to_parents_ctx [OF list_all2_appendI [OF assms(3) qs], of "key_path cx k" ?pb] br(1)
    by (simp add: nth_append)
  have "new_elements cx k v (key_path cx k) (LazyExtension a (tptr cx t)) ps =
      Some (Inr (map (hashed cx) (?ws @ climb (rev (frs @ branch pa i i' w)) (TLeaf k v))))"
    using split add rehash_new [OF assms(1,6,7) case' enc]
    by (simp add: new_elements_def Let_def del: rev_append append_assoc)
  with case' show ?thesis
    unfolding new_tree_def by blast
qed

section \<open>Writing\<close>

lemma new_elements_correct:
  assumes "tcx_ok cx" and "root_wf cx (plug frs u)" and "full frs u" and "enc_ctx cx frs ps"
    and "prefix (ctx_path frs) (key_path cx k)" and "stuck (key_path cx k) (ctx_path frs) u"
    and "trie_to_bytes cx (enc cx u) = Inr b" and "(k, v) \<notin> entries u"
    and "leaf_fits cx k v" and "\<And>l w. (l, w) \<in> entries (plug frs u) \<Longrightarrow> leaf_fits cx l w"
  shows "\<exists>es. new_elements cx k v (key_path cx k) (lazy b cx u) ps = Some (Inr es) \<and> new_tree cx k v (plug frs u) es"
proof (cases u)
  case (TLeaf k' v')
  show ?thesis
  proof (cases "k = k'")
    case True
    then show ?thesis
      using new_elements_same_leaf [of cx frs k v' ps b v] assms TLeaf by (simp add: lazy_def)
  next
    case False
    then show ?thesis
      using new_elements_other_leaf [of cx frs k' v' ps k b v] assms TLeaf by (simp add: lazy_def)
  qed
next
  case (TNode f)
  then show ?thesis
    using new_elements_node [of cx frs f ps k v] assms by (simp add: lazy_def)
next
  case (TExt a t)
  then show ?thesis
    using new_elements_ext [of cx frs a t ps k v] assms by (simp add: lazy_def)
qed

text \<open>A scan for the key of an entry ends at its leaf.\<close>

lemma entry_at_tip:
  assumes "tcx_ok cx" and "root_wf cx (plug frs u)"
    and "prefix (ctx_path frs) (key_path cx k)" and "stuck (key_path cx k) (ctx_path frs) u"
    and "(k, v) \<in> entries (plug frs u)"
  shows "u = TLeaf k v"
proof -
  have "(k, v) \<in> entries u"
    using assms(5) ctx_entries_branch_off [OF root_wf_paths [OF assms(2)]] assms(3) by (auto simp: entries_plug)
  moreover have "wf_in cx frs u"
    using root_wf_plug [OF assms(2)] by simp
  ultimately show ?thesis
  proof (cases u)
    case (TNode f)
    with \<open>wf_in cx frs u\<close> have "\<And>b t. f b = Some t \<Longrightarrow> tree_wf cx (ctx_path frs @ [b]) t"
      by (cases "frs = []") (auto simp: wf_in_def root_wf_def elim: tree_wf_nodeE)
    from child_of_entry [of f, OF this] \<open>(k, v) \<in> entries u\<close> assms(3,4) TNode prefix_nth show ?thesis
      by fastforce
  next
    case (TExt a t)
    with \<open>wf_in cx frs u\<close> have "tree_wf cx (ctx_path frs @ a) t"
      by (auto simp: wf_in_def root_wf_def split: if_splits)
    from tree_wf_prefix [OF this] \<open>(k, v) \<in> entries u\<close> assms(4) TExt show ?thesis by simp
  qed simp
qed

lemma new_elements_existing:
  assumes "tcx_ok cx" and "root_wf cx (plug frs u)"
    and "prefix (ctx_path frs) (key_path cx k)" and "stuck (key_path cx k) (ctx_path frs) u"
    and "trie_to_bytes cx (enc cx u) = Inr b" and "(k, v) \<in> entries (plug frs u)"
  shows "new_elements cx k v (key_path cx k) (lazy b cx u) ps = Some (Inr [])"
  using entry_at_tip [OF assms(1-4,6)] new_elements_same_entry [OF assms(1)] assms(5) by (simp add: lazy_def)

lemma scan_raw_root:
  assumes "tcx_ok cx" and "root_wf cx t" and "stored cx s t"
  shows "\<exists>frs u b b' ps. t = plug frs u \<and> full frs u \<and> enc_ctx cx frs ps \<and>
    s (thash cx t) = Some b \<and> trie_to_bytes cx (enc cx u) = Inr b' \<and>
    scan_raw s (key_path cx k) b 0 [] = Some (Inr \<lparr>scan_tip = lazy b' cx u, scan_parents = ps\<rparr>) \<and>
    prefix (ctx_path frs) (key_path cx k) \<and> stuck (key_path cx k) (ctx_path frs) u"
proof -
  obtain b where b: "trie_to_bytes cx (enc cx t) = Inr b" "s (thash cx t) = Some b"
    using stored_here [OF assms(3)] by (auto simp: here_def)
  from scan_raw_correct [OF assms(1) root_wf_paths [OF assms(2)] assms(3) _ b(1), of k "[]"] b(2)
  show ?thesis by auto
qed

lemma write_trie_correct:
  assumes "tcx_ok cx" and "addressed cx s" and "state cx s r E" and "leaf_fits cx k v"
    and "(k, v) \<notin> E \<Longrightarrow> no_collision cx s (insert_entry k v E)"
  shows "\<exists>res s'. write_trie cx r k v s = Some (Inr (res, s')) \<and> s \<subseteq>\<^sub>m s' \<and> addressed cx s' \<and>
    (if (k, v) \<in> E then res = AlreadyExists \<and> s' = s
     else \<exists>r'. res = Written r' \<and> state cx s' r' (insert_entry k v E))"
proof -
  from assms(3) obtain t where t: "root_wf cx t" "stored cx s t" "thash cx t = r" "entries t = E"
    by (auto simp: state_def)
  from scan_raw_root [OF assms(1) t(1,2), of k] obtain frs u b b' ps where
    scan: "t = plug frs u" "full frs u" "enc_ctx cx frs ps" "s r = Some b" "trie_to_bytes cx (enc cx u) = Inr b'"
      "scan_raw s (key_path cx k) b 0 [] = Some (Inr \<lparr>scan_tip = lazy b' cx u, scan_parents = ps\<rparr>)"
      "prefix (ctx_path frs) (key_path cx k)" "stuck (key_path cx k) (ctx_path frs) u"
    unfolding t(3) by blast
  note root = t(1) [unfolded scan(1)]
  have run: "write_trie cx r k v s = do {
      es \<leftarrow> new_elements cx k v (key_path cx k) (lazy b' cx u) ps;
      attempt es (\<lambda>es. if es = [] then Some (Inr (AlreadyExists, s))
        else attempt (put_all cx es s) (\<lambda>s'. Some (Inr (Written (fst (last es)), s'))))
    }"
    using scan(4,6) key_path_bytes [OF assms(1), of k] by (simp add: write_trie_def)
  show ?thesis
  proof (cases "(k, v) \<in> E")
    case True
    then have "new_elements cx k v (key_path cx k) (lazy b' cx u) ps = Some (Inr [])"
      using new_elements_existing [OF assms(1) root scan(7,8,5)] t(4) scan(1) by simp
    with True run assms(2) show ?thesis by simp
  next
    case False
    have fit: "leaf_fits cx l w" if "(l, w) \<in> entries (plug frs u)" for l w
      using stored_leaf_fits [OF t(2)] that scan(1) by simp
    have "(k, v) \<notin> entries u"
      using False t(4) scan(1) by (auto simp: entries_plug)
    from new_elements_correct [OF assms(1) root scan(2,3,7,8,5) this assms(4) fit] obtain t' ts where
      new: "new_elements cx k v (key_path cx k) (lazy b' cx u) ps = Some (Inr (map (hashed cx) ts))"
        "replaces cx t t' ts" "entries t' = insert_entry k v E"
      by (auto simp: new_tree_def scan(1) [symmetric] t(4))
    have "leaf_fits cx l w" if "(l, w) \<in> entries t'" for l w
      using that new(3) assms(4) stored_leaf_fits [OF t(2)] t(4) by auto
    from put_replacement [OF assms(1,2) t(2) new(2) _ this] assms(5) [OF False] new(3) obtain s' where s':
      "put_all cx (map (hashed cx) ts) s = Inr s'" "s \<subseteq>\<^sub>m s'" "addressed cx s'"
      "state cx s' (fst (last (map (hashed cx) ts))) (insert_entry k v E)"
      by auto
    moreover have "ts \<noteq> []"
      using new(2) by (simp add: replaces_def)
    ultimately show ?thesis
      using False run new(1) by simp
  qed
qed

end
