(* ===== verification/Trie_Prune.thy ===== *)
theory Trie_Prune
  imports Trie_Write
begin

text \<open>
  Pruning: \<open>prune\<close> turns the tree at the root into the normal form without the key. A node that is left with
  one child, and is not the root, disappears: a leaf moves up to the next node, and an extension takes
  the place of the node otherwise, merged with the extensions below and above it.
\<close>

section \<open>Children\<close>

lemma child_count_card: "child_count pb = card (dom pb)"
proof -
  have "map fst (List.map_filter (\<lambda>i. map_option (\<lambda>v. (i, v)) (pb i)) is) = filter (\<lambda>i. pb i \<noteq> None) is" for "is"
    by (induction "is") (auto simp: List.map_filter_def)
  from this [of all_bytes]
  have "map fst (as_indexed_pointers pb) = filter (\<lambda>i. pb i \<noteq> None) all_bytes"
    by (simp only: as_indexed_pointers_def)
  then have "distinct (map fst (as_indexed_pointers pb))" "set (map fst (as_indexed_pointers pb)) = dom pb"
    by (auto simp: dom_def)
  then show ?thesis
    unfolding child_count_def by (metis distinct_card length_map)
qed

lemma dom_encf [simp]: "dom (encf cx f) = dom f"
  by (auto simp: encf_def dom_def)

lemma finite_dom_byte [simp]: "finite (dom (f :: byte \<Rightarrow> 'a option))"
  by (rule finite_subset [of _ "set all_bytes"]) auto

lemma three_children:
  assumes "card (dom (f :: byte \<Rightarrow> 'a option)) > 2"
  obtains b1 b2 where "b1 \<noteq> i" "b2 \<noteq> i" "b1 \<noteq> b2" "f b1 \<noteq> None" "f b2 \<noteq> None"
proof -
  have "card (dom f - {i}) \<ge> 2"
    using assms by (auto simp: card_Diff_singleton_if)
  then obtain b1 b2 where "b1 \<in> dom f - {i}" "b2 \<in> dom f - {i}" "b1 \<noteq> b2"
    by (metis card_le_Suc_iff numeral_2_eq_2 insertI1 insertI2)
  with that show ?thesis by blast
qed

lemma find_sibling_Some:
  "find (\<lambda>(jdx, _). idx \<noteq> jdx) (as_indexed_pointers pb) = Some (j, p) \<Longrightarrow> j \<noteq> idx \<and> pb j = Some p"
  using as_indexed_pointers_set [of j p pb] by (auto simp: find_Some_iff) (metis nth_mem)

lemma find_sibling_None:
  "find (\<lambda>(jdx, _). idx \<noteq> jdx) (as_indexed_pointers pb) = None \<Longrightarrow> j \<noteq> idx \<Longrightarrow> pb j = None"
  using as_indexed_pointers_set [of j _ pb] by (auto simp: find_None_iff) (metis not_None_eq)

lemma two_children:
  assumes "card (dom (f :: byte \<Rightarrow> 'a option)) \<le> 2" and "f i \<noteq> None" and "f j \<noteq> None" and "i \<noteq> j"
  shows "dom f = {i, j}"
proof -
  have "{i, j} \<subseteq> dom f" "card {i, j} = 2"
    using assms by auto
  with assms(1) show ?thesis
    by (metis card_seteq finite_dom_byte)
qed

section \<open>Climbing up\<close>

lemma push_element_enc:
  "trie_to_bytes cx (enc cx t) = Inr b \<Longrightarrow> push_element cx (enc cx t) es = Inr (hashed cx t # es)"
  by (simp add: push_element_def trie_hash_enc hashed_def)

fun is_leaf :: "('k, 'v) tree \<Rightarrow> bool" where
  "is_leaf (TLeaf _ _) = True"
| "is_leaf _ = False"

lemma prune_loop_node:
  "\<not> is_leaf t \<Longrightarrow> prune_loop cx s ((c, Node pb) # rps) ((h, enc cx t) # es) =
     attempt (push_element cx (Node (pb(c := Some (NodePointer h)))) ((h, enc cx t) # es)) (prune_loop cx s rps)"
  by (cases t) simp_all

lemma prune_loop_extension:
  "is_node t \<Longrightarrow> prune_loop cx s ((c, Extension a p) # rps) ((h, enc cx t) # es) =
     attempt (push_element cx (Extension a (NodePointer h)) ((h, enc cx t) # es)) (prune_loop cx s rps)"
  by (cases t) simp_all

lemma prune_loop_climb:
  assumes "list_all2 (enc_frame cx) rfrs rps" and "\<not> is_leaf t"
    and "\<exists>q. tree_paths cx q (plug (rev rfrs) t)"
    and "\<And>u. subtree u (plug (rev rfrs) t) \<Longrightarrow> \<exists>b. trie_to_bytes cx (enc cx u) = Inr b"
  shows "prune_loop cx s rps (hashed cx t # es) = Some (Inr (map (hashed cx) (rev (climb rfrs t)) @ es))"
  using assms
proof (induction rfrs rps arbitrary: t es rule: list_all2_induct)
  case Nil
  then show ?case by simp
next
  case (Cons fr rfrs p rps)
  let ?u = "plug1 fr t"
  have u: "subtree ?u (plug (rev (fr # rfrs)) t)"
    using subtree_plug [of "[]" ?u "rev rfrs"] by simp
  obtain b where "trie_to_bytes cx (enc cx ?u) = Inr b"
    using Cons.prems(3) [OF u] by blast
  note push = push_element_enc [OF this, of "hashed cx t # es"]
  have "\<not> is_leaf ?u"
    by (cases fr) simp_all
  then have IH: "prune_loop cx s rps (hashed cx ?u # hashed cx t # es) =
      Some (Inr (map (hashed cx) (rev (climb rfrs ?u)) @ hashed cx t # es))"
    using Cons.prems(2,3) by (intro Cons.IH) simp_all
  have ptr: "NodePointer (thash cx t) = tptr cx t"
    using Cons.prems(1) by (cases t) (simp_all add: tptr_thash)
  show ?case
  proof (cases fr)
    case (FNode c f)
    with Cons.hyps(1) have p: "p = (c, Node (encf cx f))" by simp
    have "prune_loop cx s (p # rps) (hashed cx t # es) =
        attempt (push_element cx (enc cx ?u) (hashed cx t # es)) (prune_loop cx s rps)"
      using prune_loop_node [OF Cons.prems(1)] FNode
      by (simp only: p hashed_def ptr encf_update plug1.simps enc.simps)
    with push IH show ?thesis by simp
  next
    case (FExt a)
    with Cons.hyps(1) obtain i h where p: "p = (i, Extension a (NodePointer h))" by auto
    from Cons.prems(2) u tree_paths_subtree obtain q where "tree_paths cx q ?u" by blast
    with FExt have "is_node t" by simp
    then have "prune_loop cx s (p # rps) (hashed cx t # es) =
        attempt (push_element cx (enc cx ?u) (hashed cx t # es)) (prune_loop cx s rps)"
      using prune_loop_extension [of t] FExt by (simp only: p hashed_def ptr plug1.simps enc.simps)
    with push IH show ?thesis by simp
  qed
qed

section \<open>The new tree\<close>

abbreviation remove_key :: "'k \<Rightarrow> ('k \<times> 'v) set \<Rightarrow> ('k \<times> 'v) set" where
  "remove_key k E \<equiv> {e \<in> E. fst e \<noteq> k}"

definition pruned_tree :: "('k, 'v) tcx \<Rightarrow> 'k \<Rightarrow> ('k, 'v) tree \<Rightarrow> (digest \<times> ('k, 'v) trie) list \<Rightarrow> bool" where
  "pruned_tree cx k t es \<longleftrightarrow>
     (\<exists>t' ts. es = rev (map (hashed cx) ts) \<and> replaces cx t t' ts \<and> entries t' = remove_key k (entries t))"

lemma entries_remove:
  assumes "root_wf cx (plug frs u)" and "prefix (ctx_path frs) (key_path cx k)"
    and "entries w = remove_key k (entries u)"
  shows "entries (plug frs w) = remove_key k (entries (plug frs u))"
proof -
  have "(k, v') \<notin> ctx_entries frs" for v'
    using ctx_entries_branch_off [OF root_wf_paths [OF assms(1)]] assms(2) by simp
  then show ?thesis
    using assms(3) by (auto simp: entries_plug)
qed

lemma pruned_at:
  assumes "tcx_ok cx" and "root_wf cx (plug frs u)" and "prefix (ctx_path frs) (key_path cx k)"
    and "root_wf cx (plug frs t)" and "\<not> is_leaf t" and "entries t = remove_key k (entries u)"
    and "\<And>s. stored cx s u \<Longrightarrow> here cx s t \<Longrightarrow> stored cx s t" and "enc_ctx cx frs ps"
    and "\<And>l w. (l, w) \<in> entries (plug frs u) \<Longrightarrow> leaf_fits cx l w"
  shows "push_element cx (enc cx t) [] = Inr [hashed cx t]"
    and "\<exists>es. prune_loop cx s (rev ps) [hashed cx t] = Some (Inr es) \<and> pruned_tree cx k (plug frs u) es"
proof -
  have entries: "entries (plug frs t) = remove_key k (entries (plug frs u))"
    by (rule entries_remove [OF assms(2,3,6)])
  then have "leaf_fits cx l w" if "(l, w) \<in> entries (plug frs t)" for l w
    using that assms(9) by auto
  note bytes = subtree_to_bytes [OF assms(1) root_wf_paths [OF assms(4)] this]
  obtain b where "trie_to_bytes cx (enc cx t) = Inr b"
    using bytes subtree_plug [of "[]" t frs] by auto
  then show "push_element cx (enc cx t) [] = Inr [hashed cx t]"
    by (rule push_element_enc)
  have "replaces cx (plug frs u) (plug (frs @ []) t) ([] @ climb (rev (frs @ [])) t)"
  proof (rule replaces_climb)
    show "stored cx s (plug [] t)" if "stored cx s u" "\<And>mid1 mid2. [] = mid1 @ mid2 \<Longrightarrow> here cx s (plug mid2 t)" for s
      using assms(7) that by simp
  qed (use assms(4) in simp_all)
  then have "pruned_tree cx k (plug frs u) (rev (map (hashed cx) (climb (rev frs) t)))"
    using entries unfolding pruned_tree_def by auto
  moreover have "prune_loop cx s (rev ps) [hashed cx t] = Some (Inr (map (hashed cx) (rev (climb (rev frs) t)) @ []))"
    by (rule prune_loop_climb) (use assms(5,8) root_wf_paths [OF assms(4)] bytes in auto)
  ultimately show "\<exists>es. prune_loop cx s (rev ps) [hashed cx t] = Some (Inr es) \<and> pruned_tree cx k (plug frs u) es"
    by (simp add: rev_map)
qed

lemma entries_TNode_remove:
  assumes "f i = Some (TLeaf k v)" and "\<And>b t v'. f b = Some t \<Longrightarrow> b \<noteq> i \<Longrightarrow> (k, v') \<notin> entries t"
  shows "entries (TNode (f(i := None))) = remove_key k (entries (TNode f))"
proof -
  have "(l, w) \<in> entries (TNode (f(i := None))) \<longleftrightarrow> (l, w) \<in> remove_key k (entries (TNode f))" for l w
    using assms by (auto simp: entries_TNode) (metis entries.simps(1) option.inject prod.inject singletonD)
  then show ?thesis by auto
qed

lemma other_children_lack_key:
  assumes "\<And>b t. f b = Some t \<Longrightarrow> tree_wf cx (q @ [b]) t" and "f i = Some (TLeaf k v)" and "f b = Some t" and "b \<noteq> i"
  shows "(k, v') \<notin> entries t"
proof
  assume "(k, v') \<in> entries t"
  from tree_wf_prefix [OF assms(1) [OF assms(3)] this] assms(1) [OF assms(2)] assms(4) show False
    by (auto dest: prefix_snoc_unique)
qed

lemma wf_in_children:
  "wf_in cx frs (TNode f) \<Longrightarrow> f b = Some t \<Longrightarrow> tree_wf cx (ctx_path frs @ [b]) t"
  by (cases "frs = []") (auto simp: wf_in_def root_wf_def elim: tree_wf_nodeE)

text \<open>The node stays: it is the root, or it has at least two other children.\<close>

lemma keep_node_wf:
  assumes "root_wf cx (plug frs (TNode f))" and "frs = [] \<or> card (dom f) > 2"
  shows "root_wf cx (plug frs (TNode (f(i := None))))"
proof (rule root_wf_replug [OF assms(1)])
  have wf: "wf_in cx frs (TNode f)" "fits frs (TNode f)"
    using root_wf_plug [OF assms(1)] by simp_all
  then show "fits frs (TNode (f(i := None)))"
    by (auto simp: fits_def)
  show "wf_in cx frs (TNode (f(i := None)))"
  proof (cases "frs = []")
    case True
    with wf(1) show ?thesis by (auto simp: wf_in_def root_wf_def)
  next
    case False
    with assms(2) have "card (dom f) > 2" by simp
    then obtain b1 b2 where "b1 \<noteq> i" "b2 \<noteq> i" "b1 \<noteq> b2" "f b1 \<noteq> None" "f b2 \<noteq> None"
      by (rule three_children)
    then have "tree_wf cx (ctx_path frs) (TNode (f(i := None)))"
      using wf_in_children [OF wf(1)] by (intro tree_wf.node [of _ _ _ b1 b2]) (auto split: if_splits)
    with False show ?thesis by (simp add: wf_in_def)
  qed
qed

lemma keep_node:
  assumes "tcx_ok cx" and "root_wf cx (plug frs (TNode f))" and "prefix (ctx_path frs) (key_path cx k)"
    and "f i = Some (TLeaf k v)" and "frs = [] \<or> card (dom f) > 2" and "enc_ctx cx frs ps"
    and "\<And>l w. (l, w) \<in> entries (plug frs (TNode f)) \<Longrightarrow> leaf_fits cx l w"
  shows "push_element cx (Node (encf cx (f(i := None)))) [] = Inr [hashed cx (TNode (f(i := None)))]"
    and "\<exists>es. prune_loop cx s (rev ps) [hashed cx (TNode (f(i := None)))] = Some (Inr es) \<and>
      pruned_tree cx k (plug frs (TNode f)) es"
proof -
  let ?t = "TNode (f(i := None))"
  have wf: "wf_in cx frs (TNode f)"
    using root_wf_plug [OF assms(2)] by simp
  have "entries ?t = remove_key k (entries (TNode f))"
  proof (rule entries_TNode_remove)
    show "(k, v') \<notin> entries t" if "f b = Some t" "b \<noteq> i" for b t v'
      using other_children_lack_key [of f cx "ctx_path frs" i k v b t] wf_in_children [OF wf] assms(4) that by blast
  qed (rule assms(4))
  moreover have "stored cx s ?t" if "stored cx s (TNode f)" "here cx s ?t" for s
    using that by (auto split: if_splits)
  ultimately show "push_element cx (Node (encf cx (f(i := None)))) [] = Inr [hashed cx ?t]"
    "\<exists>es. prune_loop cx s (rev ps) [hashed cx ?t] = Some (Inr es) \<and> pruned_tree cx k (plug frs (TNode f)) es"
    using pruned_at [OF assms(1-3) keep_node_wf [OF assms(2,5), of i] _ _ _ assms(6,7)] by simp_all
qed

text \<open>The sibling is a leaf, which moves up to the next node, past an extension if there is one.\<close>

lemma sibling_entries:
  assumes "dom f = {i, j}" and "f i = Some (TLeaf k v)" and "f j = Some w" and "i \<noteq> j" and "\<And>v'. (k, v') \<notin> entries w"
  shows "entries w = remove_key k (entries (TNode f))"
proof -
  have "b = i \<or> b = j" if "f b = Some t" for b t
    using assms(1) that by blast
  then have "(l, x) \<in> entries w \<longleftrightarrow> (l, x) \<in> remove_key k (entries (TNode f))" for l x
    using assms(2-5) by (auto simp: entries_TNode) fastforce
  then show ?thesis by auto
qed

lemma move_leaf:
  assumes "tcx_ok cx" and "root_wf cx (plug (frs @ [FNode g h]) u)" and "h g = Some u"
    and "prefix (ctx_path frs) (key_path cx k)" and "subtree (TLeaf l w) u" and "entries (TLeaf l w) = remove_key k (entries u)"
    and "enc_ctx cx frs ps" and "\<And>l w. (l, w) \<in> entries (plug (frs @ [FNode g h]) u) \<Longrightarrow> leaf_fits cx l w"
    and "prefix (ctx_path frs @ [g]) (key_path cx k)"
  shows "push_element cx (Node (encf cx (h(g := Some (TLeaf l w))))) [] = Inr [hashed cx (TNode (h(g := Some (TLeaf l w))))]"
    and "\<exists>es. prune_loop cx s (rev ps) [hashed cx (TNode (h(g := Some (TLeaf l w))))] = Some (Inr es) \<and>
      pruned_tree cx k (plug (frs @ [FNode g h]) u) es"
proof -
  let ?t = "TNode (h(g := Some (TLeaf l w)))"
  have h: "plug (frs @ [FNode g h]) u = plug frs (TNode h)"
    using assms(3) by (simp add: fun_upd_idem)
  have wf: "wf_in cx (frs @ [FNode g h]) u"
    using root_wf_plug [OF assms(2)] by simp
  have "(l, w) \<in> entries u"
    using assms(6) by auto
  then have "prefix (ctx_path frs @ [g]) (key_path cx l)"
    using wf tree_wf_prefix by (fastforce simp: wf_in_def)
  then have root: "root_wf cx (plug frs ?t)"
    using root_wf_replug [OF assms(2), of "TLeaf l w"] by (simp add: wf_in_def)
  have "entries (plug [FNode g h] (TLeaf l w)) = remove_key k (entries (plug [FNode g h] u))"
  proof -
    have "(k, v') \<notin> frame_entries (FNode g h)" for v'
      using ctx_entries_branch_off [OF root_wf_paths [OF assms(2)], of k v'] assms(9) by simp
    then show ?thesis
      using assms(6) by (simp only: entries_plug) auto
  qed
  then have ent: "entries ?t = remove_key k (entries (TNode h))"
    using assms(3) by (simp add: fun_upd_idem)
  have st: "stored cx s ?t" if "stored cx s (TNode h)" "here cx s ?t" for s
    using that assms(3) stored_subtree [OF _ assms(5), of cx s] by (auto split: if_splits)
  have fit: "leaf_fits cx l w" if "(l, w) \<in> entries (plug frs (TNode h))" for l w
    using assms(8) that unfolding h .
  have "\<not> is_leaf ?t" by simp
  note at = pruned_at [OF assms(1) assms(2) [unfolded h] assms(4) root this ent st assms(7) fit]
  show "push_element cx (Node (encf cx (h(g := Some (TLeaf l w))))) [] = Inr [hashed cx ?t]"
    "\<exists>es. prune_loop cx s (rev ps) [hashed cx ?t] = Some (Inr es) \<and> pruned_tree cx k (plug (frs @ [FNode g h]) u) es"
    using at unfolding h by simp_all
qed

text \<open>The sibling is a node or an extension, and an extension takes the place of the node.\<close>

lemma collapse:
  assumes "tcx_ok cx" and "root_wf cx (plug frs u)" and "prefix (ctx_path frs) (key_path cx k)"
    and "frs \<noteq> []" and "fits frs (TExt c w)" and "c \<noteq> []" and "is_node w" and "tree_wf cx (ctx_path frs @ c) w"
    and "subtree w u" and "entries w = remove_key k (entries u)" and "enc_ctx cx frs ps"
    and "\<And>l w. (l, w) \<in> entries (plug frs u) \<Longrightarrow> leaf_fits cx l w"
  shows "push_element cx (Extension c (tptr cx w)) [] = Inr [hashed cx (TExt c w)]"
    and "\<exists>es. prune_loop cx s (rev ps) [hashed cx (TExt c w)] = Some (Inr es) \<and> pruned_tree cx k (plug frs u) es"
proof -
  let ?t = "TExt c w"
  have root: "root_wf cx (plug frs ?t)"
    by (rule root_wf_replug [OF assms(2)]) (use assms(4-8) in \<open>simp_all add: wf_in_def\<close>)
  have ent: "entries ?t = remove_key k (entries u)"
    using assms(10) by simp
  have st: "stored cx s ?t" if "stored cx s u" "here cx s ?t" for s
    using that stored_subtree [OF _ assms(9), of cx s] by simp
  have "\<not> is_leaf ?t" by simp
  note at = pruned_at [OF assms(1-3) root this ent st assms(11,12)]
  show "push_element cx (Extension c (tptr cx w)) [] = Inr [hashed cx ?t]"
    "\<exists>es. prune_loop cx s (rev ps) [hashed cx ?t] = Some (Inr es) \<and> pruned_tree cx k (plug frs u) es"
    using at by simp_all
qed

text \<open>Merging with the extension above.\<close>

lemma collapse_merge:
  assumes "tcx_ok cx" and "root_wf cx (plug frs (TNode f))" and "prefix (ctx_path frs) (key_path cx k)"
    and "frs \<noteq> []" and "c \<noteq> []" and "is_node w" and "tree_wf cx (ctx_path frs @ c) w"
    and "subtree w (TNode f)" and "entries w = remove_key k (entries (TNode f))" and "enc_ctx cx frs ps"
    and "\<And>l w. (l, w) \<in> entries (plug frs (TNode f)) \<Longrightarrow> leaf_fits cx l w"
  shows "push_element cx (Extension c (tptr cx w)) [] = Inr [hashed cx (TExt c w)]"
    and "\<exists>es. prune_loop cx s (rev ps) [hashed cx (TExt c w)] = Some (Inr es) \<and> pruned_tree cx k (plug frs (TNode f)) es"
proof -
  have "length c \<le> u32_max - 38"
  proof -
    obtain l x where "(l, x) \<in> entries w" using tree_wf_nonempty [OF assms(7)] by blast
    from prefix_length_le [OF tree_wf_prefix [OF assms(7) this]] key_path_length [OF assms(1), of l] show ?thesis
      by simp
  qed
  then obtain b where "trie_to_bytes cx (enc cx (TExt c w)) = Inr b"
    using extension_to_bytes [of c cx "tptr cx w"] by auto
  from push_element_enc [OF this] show push: "push_element cx (Extension c (tptr cx w)) [] = Inr [hashed cx (TExt c w)]"
    by simp
  obtain frs1 fr where fr: "frs = frs1 @ [fr]"
    using assms(4) by (cases frs rule: rev_cases) auto
  show "\<exists>es. prune_loop cx s (rev ps) [hashed cx (TExt c w)] = Some (Inr es) \<and> pruned_tree cx k (plug frs (TNode f)) es"
  proof (cases fr)
    case (FNode g h)
    with fr have "fits frs (TExt c w)" by simp
    from collapse(2) [OF assms(1-4) this assms(5-11)] show ?thesis .
  next
    case (FExt a)
    from assms(10) obtain ps1 gi h where ps: "ps = ps1 @ [(gi, Extension a (NodePointer h))]" "enc_ctx cx frs1 ps1"
      unfolding fr FExt by (auto simp: list_all2_append1 list_all2_Cons1)
    have plug: "plug frs (TNode f) = plug frs1 (TExt a (TNode f))"
      by (simp add: fr FExt)
    have wf: "wf_in cx frs1 (TExt a (TNode f))" "fits frs1 (TExt a (TNode f))"
      using root_wf_plug [of cx frs1 "TExt a (TNode f)"] assms(2) plug by simp_all
    then have frs1: "frs1 \<noteq> []" "fits frs1 (TExt (a @ c) w)"
      using fits_other [OF wf(2)] by (auto simp: wf_in_def root_wf_def)
    have pre: "prefix (ctx_path frs1) (key_path cx k)" "a @ c \<noteq> []"
      using assms(3,5) fr FExt by (auto dest: append_prefixD)
    have tw: "tree_wf cx (ctx_path frs1 @ a @ c) w" "subtree w (TExt a (TNode f))"
      using assms(7,8) fr FExt by (auto intro: subtree.ext)
    have ent: "entries w = remove_key k (entries (TExt a (TNode f)))"
      using assms(9) by simp
    have fit: "leaf_fits cx l x" if "(l, x) \<in> entries (plug frs1 (TExt a (TNode f)))" for l x
      using assms(11) that plug by simp
    note merge = collapse [OF assms(1) assms(2) [unfolded plug] pre(1) frs1 pre(2) assms(6) tw ent ps(2) fit]
    have "prune_loop cx s (rev ps) [hashed cx (TExt c w)] = prune_loop cx s (rev ps1) [hashed cx (TExt (a @ c) w)]"
      using merge(1) by (simp add: ps(1) hashed_def)
    with merge(2) [of s] plug show ?thesis by simp
  qed
qed

section \<open>Pruning\<close>

lemma prune_elements_Cons:
  "prune_elements cx s ((idx, Node pb) # parents) = do {
     r \<leftarrow> prune_leaf cx s idx pb parents;
     attempt r (\<lambda>(left, es). case left of None \<Rightarrow> Some (Inr es) | Some parents \<Rightarrow> prune_loop cx s parents es)
   }"
  by (simp add: prune_elements_def)

text \<open>
  The situation in which the node at the end of the context, which holds the leaf at \<open>i\<close>, has exactly one
  other child, and is not the root.
\<close>

definition one_sibling ::
  "('k, 'v) tcx \<Rightarrow> store \<Rightarrow> ('k, 'v) frame list \<Rightarrow> ('k, 'v) parents \<Rightarrow> (byte \<Rightarrow> ('k, 'v) tree option) \<Rightarrow>
     byte \<Rightarrow> 'k \<Rightarrow> byte \<Rightarrow> ('k, 'v) tree \<Rightarrow> bool" where
  "one_sibling cx s frs ps f i k j w \<longleftrightarrow>
     root_wf cx (plug frs (TNode f)) \<and> stored cx s (plug frs (TNode f)) \<and> full frs (TNode f) \<and> enc_ctx cx frs ps \<and>
     prefix (ctx_path frs @ [i]) (key_path cx k) \<and> (\<exists>v. f i = Some (TLeaf k v)) \<and> card (dom f) \<le> 2 \<and> frs \<noteq> [] \<and>
     find (\<lambda>(jdx, _). i \<noteq> jdx) (as_indexed_pointers (encf cx f)) = Some (j, tptr cx w) \<and> f j = Some w \<and> i \<noteq> j"

lemma one_siblingD:
  assumes "one_sibling cx s frs ps f i k j w"
  shows "root_wf cx (plug frs (TNode f))" "full frs (TNode f)" "enc_ctx cx frs ps" "frs \<noteq> []"
    and "prefix (ctx_path frs) (key_path cx k)" and "\<not> child_count (encf cx f) > 2"
    and "find (\<lambda>(jdx, _). i \<noteq> jdx) (as_indexed_pointers (encf cx f)) = Some (j, tptr cx w)"
    and "subtree w (TNode f)" and "stored cx s w" and "tree_wf cx (ctx_path frs @ [j]) w"
    and "entries w = remove_key k (entries (TNode f))"
    and "(l, x) \<in> entries (plug frs (TNode f)) \<Longrightarrow> leaf_fits cx l x"
proof -
  from assms obtain v where d: "root_wf cx (plug frs (TNode f))" "stored cx s (plug frs (TNode f))"
    "prefix (ctx_path frs @ [i]) (key_path cx k)" "f i = Some (TLeaf k v)" "card (dom f) \<le> 2" "f j = Some w" "i \<noteq> j"
    by (auto simp: one_sibling_def)
  show "root_wf cx (plug frs (TNode f))" "full frs (TNode f)" "enc_ctx cx frs ps" "frs \<noteq> []"
    "find (\<lambda>(jdx, _). i \<noteq> jdx) (as_indexed_pointers (encf cx f)) = Some (j, tptr cx w)"
    using assms by (simp_all add: one_sibling_def)
  show "prefix (ctx_path frs) (key_path cx k)"
    using d(3) by (rule append_prefixD)
  show "\<not> child_count (encf cx f) > 2"
    using d(5) by (simp add: child_count_card)
  show sub: "subtree w (TNode f)"
    using d(6) by (rule subtree.node) (rule subtree.refl)
  have "stored cx s (TNode f)"
    using subtree_plug [of "[]" "TNode f" frs] by (intro stored_subtree [OF d(2)]) simp
  then show "stored cx s w"
    using sub by (rule stored_subtree)
  have "wf_in cx frs (TNode f)"
    using root_wf_plug [OF d(1)] by simp
  note children = wf_in_children [OF this]
  show "tree_wf cx (ctx_path frs @ [j]) w"
    using children [OF d(6)] .
  have "dom f = {i, j}"
    using two_children [of f i j] d by simp
  then show "entries w = remove_key k (entries (TNode f))"
    using sibling_entries [OF _ d(4,6,7)] other_children_lack_key [of f cx "ctx_path frs" i k v j w]
      children d(4,6,7) by blast
  show "leaf_fits cx l x" if "(l, x) \<in> entries (plug frs (TNode f))"
    using stored_leaf_fits [OF d(2) that] .
qed

lemma enc_ctx_snoc:
  assumes "enc_ctx cx (frs @ [fr]) ps"
  obtains ps' p where "ps = ps' @ [p]" "enc_ctx cx frs ps'" "enc_frame cx fr p"
  using assms by (auto simp: list_all2_append1 list_all2_Cons1)

lemma prune_leaf_sibling:
  assumes "tcx_ok cx" and one: "one_sibling cx s frs ps f i k j (TLeaf l x)"
  shows "\<exists>es. prune_elements cx s ((i, Node (encf cx f)) # rev ps) = Some (Inr es) \<and> pruned_tree cx k (plug frs (TNode f)) es"
proof -
  note d = one_siblingD [OF one]
  have wf: "fits frs (TNode f)"
    using root_wf_plug [OF d(1)] by simp
  obtain frs1 fr where fr: "frs = frs1 @ [fr]"
    using d(4) by (cases frs rule: rev_cases) auto
  obtain ps1 gi gp where ps: "ps = ps1 @ [(gi, gp)]" "enc_ctx cx frs1 ps1" "enc_frame cx fr (gi, gp)"
    using enc_ctx_snoc [OF d(3) [unfolded fr]] by (metis surj_pair)
  show ?thesis
  proof (cases fr)
    case (FNode g h)
    then have p: "gi = g" "gp = Node (encf cx h)" "h g = Some (TNode f)"
      using ps(3) d(2) fr by simp_all
    have pre: "prefix (ctx_path frs1 @ [g]) (key_path cx k)"
      using d(5) fr FNode by simp
    note move = move_leaf [OF assms(1) d(1) [unfolded fr FNode] p(3) append_prefixD [OF pre] d(8,11) ps(2)
        d(12) [unfolded fr FNode] pre]
    then show ?thesis
      using fr FNode p d(6,7) ps(1) encf_update(1) [of cx h g "TLeaf l x"]
      by (simp add: prune_elements_Cons prune_leaf_def Let_def)
  next
    case (FExt a)
    have plug: "plug frs (TNode f) = plug frs1 (TExt a (TNode f))"
      by (simp add: fr FExt)
    have wf1: "wf_in cx frs1 (TExt a (TNode f))" "fits frs1 (TExt a (TNode f))"
      using root_wf_plug [of cx frs1 "TExt a (TNode f)"] d(1) plug by simp_all
    then have "frs1 \<noteq> []"
      by (auto simp: wf_in_def root_wf_def)
    then obtain frs2 g h where frs1: "frs1 = frs2 @ [FNode g h]"
      using fits_ends_in_node [OF wf1(2)] by auto
    obtain ps2 where ps2: "ps1 = ps2 @ [(g, Node (encf cx h))]" "enc_ctx cx frs2 ps2"
      using enc_ctx_snoc [OF ps(2) [unfolded frs1]] by (metis enc_frame.simps(1))
    have h: "h g = Some (TExt a (TNode f))"
      using d(2) fr FExt frs1 by simp
    have pre: "prefix (ctx_path frs2 @ [g]) (key_path cx k)"
      using d(5) unfolding fr frs1 by (auto dest: prefix_append_Cons append_prefixD)
    have sub: "subtree (TLeaf l x) (TExt a (TNode f))"
      using d(8) by (rule subtree.ext)
    have ent: "entries (TLeaf l x) = remove_key k (entries (TExt a (TNode f)))"
      using d(11) by simp
    note move = move_leaf [OF assms(1) d(1) [unfolded plug frs1] h append_prefixD [OF pre] sub ent ps2(2)
        d(12) [unfolded plug frs1] pre]
    obtain h' where "gp = Extension a (NodePointer h')"
      using ps(3) FExt by auto
    with move show ?thesis
      using plug frs1 d(6,7) ps(1) ps2(1) encf_update(1) [of cx h g "TLeaf l x"]
      by (simp add: prune_elements_Cons prune_leaf_def Let_def)
  qed
qed

lemma prune_node_sibling:
  assumes "tcx_ok cx" and one: "one_sibling cx s frs ps f i k j w" and "\<not> is_leaf w"
  shows "\<exists>es. prune_elements cx s ((i, Node (encf cx f)) # rev ps) = Some (Inr es) \<and> pruned_tree cx k (plug frs (TNode f)) es"
proof -
  note d = one_siblingD [OF one]
  obtain frs1 fr where fr: "frs = frs1 @ [fr]"
    using d(4) by (cases frs rule: rev_cases) auto
  obtain ps1 gi gp where ps: "ps = ps1 @ [(gi, gp)]" "enc_frame cx fr (gi, gp)"
    using enc_ctx_snoc [OF d(3) [unfolded fr]] by (metis surj_pair)
  have gp: "(\<exists>pb. gp = Node pb) \<or> (\<exists>a p. gp = Extension a p)"
    using ps(2) by (cases fr) auto
  have get: "store_get cx s (thash cx w) = Inr (Some (enc cx w))" "tptr cx w = NodePointer (thash cx w)"
    using store_get_stored [OF assms(1) d(9)] assms(3) by (cases w; simp add: tptr_thash)+
  define c where "c = j # (case w of TExt a _ \<Rightarrow> a | _ \<Rightarrow> [])"
  define w' where "w' = (case w of TExt _ t \<Rightarrow> t | _ \<Rightarrow> w)"
  have w': "c \<noteq> []" "is_node w'" "tree_wf cx (ctx_path frs @ c) w'" "subtree w' w" "entries w' = entries w"
    using d(10) assms(3) by (cases w; auto simp: c_def w'_def intro: subtree.intros)+
  have sub: "subtree w' (TNode f)"
    using w'(4) one by (auto simp: one_sibling_def intro: subtree.node)
  have ent: "entries w' = remove_key k (entries (TNode f))"
    using w'(5) d(11) by simp
  note coll = collapse_merge [OF assms(1) d(1,5,4) w'(1-3) sub ent d(3,12)]
  show ?thesis
  proof (cases w)
    case (TNode f')
    then have "c = [j]" "w' = w" by (simp_all add: c_def w'_def)
    with gp show ?thesis
      by (elim disjE exE) (use coll get d(6,7) ps(1) TNode in \<open>simp_all add: prune_elements_Cons prune_leaf_def Let_def\<close>)
  next
    case (TExt a t)
    then have "c = j # a" "w' = t" by (simp_all add: c_def w'_def)
    with gp show ?thesis
      by (elim disjE exE) (use coll get d(6,7) ps(1) TExt in \<open>simp_all add: prune_elements_Cons prune_leaf_def Let_def\<close>)
  qed (use assms(3) in simp)
qed

lemma prune_elements_correct:
  assumes "tcx_ok cx" and "root_wf cx (plug frs (TNode f))" and "stored cx s (plug frs (TNode f))"
    and "full frs (TNode f)" and "enc_ctx cx frs ps" and "prefix (ctx_path frs @ [i]) (key_path cx k)"
    and "f i = Some (TLeaf k v)"
  shows "\<exists>es. prune_elements cx s ((i, Node (encf cx f)) # rev ps) = Some (Inr es) \<and> pruned_tree cx k (plug frs (TNode f)) es"
proof (cases "card (dom f) > 2 \<or> frs = []")
  case True
  then have keep: "frs = [] \<or> card (dom f) > 2" by blast
  have fit: "leaf_fits cx l x" if "(l, x) \<in> entries (plug frs (TNode f))" for l x
    using stored_leaf_fits [OF assms(3) that] .
  note node = keep_node [OF assms(1,2) append_prefixD [OF assms(6)] assms(7) keep assms(5) fit]
  show ?thesis
  proof (cases "card (dom f) > 2")
    case True
    with node show ?thesis
      by (simp add: prune_elements_Cons prune_leaf_def child_count_card Let_def)
  next
    case False
    with True assms(5) have root: "frs = []" "ps = []" by auto
    show ?thesis
    proof (cases "find (\<lambda>(jdx, _). i \<noteq> jdx) (as_indexed_pointers (encf cx f))")
      case None
      have "encf cx (f(i := None)) = pointer_block_new"
        using find_sibling_None [OF None] by (auto simp: encf_def pointer_block_new_def fun_eq_iff)
      with None False root node show ?thesis
        by (simp add: prune_elements_Cons prune_leaf_def child_count_card Let_def)
    next
      case (Some jp)
      with False root node show ?thesis
        by (cases jp) (simp add: prune_elements_Cons prune_leaf_def child_count_card Let_def)
    qed
  qed
next
  case False
  have "wf_in cx frs (TNode f)"
    using root_wf_plug [OF assms(2)] by simp
  with False have "tree_wf cx (ctx_path frs) (TNode f)"
    by (simp add: wf_in_def)
  then have "\<exists>b. b \<noteq> i \<and> f b \<noteq> None"
  proof (cases rule: tree_wf.cases)
    case (node b1 b2)
    then show ?thesis by (intro exI [of _ "if b1 = i then b2 else b1"]) auto
  qed
  then obtain b where b: "b \<noteq> i" "f b \<noteq> None" by blast
  obtain j p where find: "find (\<lambda>(jdx, _). i \<noteq> jdx) (as_indexed_pointers (encf cx f)) = Some (j, p)"
    using find_sibling_None [of i "encf cx f" b] b by (cases "find (\<lambda>(jdx, _). i \<noteq> jdx) (as_indexed_pointers (encf cx f))") (auto simp: encf_def)
  then obtain w where w: "j \<noteq> i" "f j = Some w" "p = tptr cx w"
    using find_sibling_Some [OF find] by (auto simp: encf_def)
  have "one_sibling cx s frs ps f i k j w"
    using assms False find w by (auto simp: one_sibling_def)
  then show ?thesis
    using prune_leaf_sibling [OF assms(1)] prune_node_sibling [OF assms(1)] by (cases w) auto
qed

lemma prune_correct:
  assumes "tcx_ok cx" and "addressed cx s" and "state cx s r E"
    and "k \<in> fst ` E \<Longrightarrow> no_collision cx s (remove_key k E)"
  shows "\<exists>res s'. prune cx r k s = Some (Inr (res, s')) \<and> s \<subseteq>\<^sub>m s' \<and> addressed cx s' \<and>
    (if k \<in> fst ` E then \<exists>r'. res = Pruned r' \<and> state cx s' r' (remove_key k E)
     else res = MissingKey \<and> s' = s)"
proof -
  from assms(3) obtain t where t: "root_wf cx t" "stored cx s t" "thash cx t = r" "entries t = E"
    by (auto simp: state_def)
  from scan_raw_root [OF assms(1) t(1,2), of k] obtain frs u b b' ps where
    scan: "t = plug frs u" "full frs u" "enc_ctx cx frs ps" "s r = Some b" "trie_to_bytes cx (enc cx u) = Inr b'"
      "scan_raw s (key_path cx k) b 0 [] = Some (Inr \<lparr>scan_tip = lazy b' cx u, scan_parents = ps\<rparr>)"
      "prefix (ctx_path frs) (key_path cx k)" "stuck (key_path cx k) (ctx_path frs) u"
    unfolding t(3) by blast
  note run = prune_def [of cx r k s] scan(4,6) key_path_bytes [OF assms(1), of k]
  show ?thesis
  proof (cases "\<exists>v. u = TLeaf k v")
    case True
    then obtain v where u: "u = TLeaf k v" by blast
    with scan(1) t(4) have k: "k \<in> fst ` E"
      by (force simp: entries_plug)
    have wf: "wf_in cx frs u" "fits frs u"
      using root_wf_plug [of cx frs u] t(1) scan(1) by simp_all
    with u have "frs \<noteq> []"
      by (auto simp: wf_in_def root_wf_def)
    with wf u obtain frs1 i f where fr: "frs = frs1 @ [FNode i f]"
      using fits_ends_in_node [OF wf(2)] by auto
    obtain ps1 where ps: "ps = ps1 @ [(i, Node (encf cx f))]" "enc_ctx cx frs1 ps1"
      using enc_ctx_snoc [OF scan(3) [unfolded fr]] by (metis enc_frame.simps(1))
    have "f i = Some (TLeaf k v)"
      using scan(2) fr u by simp
    moreover from this have "f(i := Some (TLeaf k v)) = f"
      by (rule fun_upd_idem)
    ultimately have f: "f i = Some (TLeaf k v)" "full frs1 (TNode f)" "t = plug frs1 (TNode f)"
      using scan(1,2) fr u by simp_all
    have "prefix (ctx_path frs1 @ [i]) (key_path cx k)"
      using scan(7) fr by simp
    from prune_elements_correct [OF assms(1) t(1,2) [unfolded f(3)] f(2) ps(2) this f(1)] obtain t' ts where
      new: "prune_elements cx s (rev ps) = Some (Inr (rev (map (hashed cx) ts)))" "replaces cx t t' ts"
        "entries t' = remove_key k E"
      by (auto simp: pruned_tree_def ps(1) f(3) [symmetric] t(4))
    have "leaf_fits cx l w" if "(l, w) \<in> entries t'" for l w
      using that new(3) stored_leaf_fits [OF t(2)] t(4) by auto
    from put_replacement [OF assms(1,2) t(2) new(2) _ this] assms(4) [OF k] new(3) obtain s' where s':
      "put_all cx (map (hashed cx) ts) s = Inr s'" "s \<subseteq>\<^sub>m s'" "addressed cx s'"
      "state cx s' (fst (last (map (hashed cx) ts))) (remove_key k E)"
      by auto
    obtain vb where "try_deserialize_leaf_key cx b' = Some (Inr (k, vb))"
      using try_deserialize_leaf_key_to [OF assms(1), of k v b'] scan(5) u by auto
    moreover obtain ts' x where "ts = ts' @ [x]"
      using new(2) by (cases ts rule: rev_cases) (auto simp: replaces_def)
    ultimately show ?thesis
      using run new(1) s' k u by (simp add: lazy_def hashed_def)
  next
    case False
    have "(k, v) \<notin> E" for v
    proof
      assume "(k, v) \<in> E"
      then have "(k, v) \<in> entries (plug frs u)"
        using t(4) scan(1) by simp
      with entry_at_tip [OF assms(1) _ scan(7,8)] t(1) scan(1) False show False by blast
    qed
    then have "k \<notin> fst ` E" by auto
    moreover have "prune cx r k s = Some (Inr (MissingKey, s))"
    proof (cases u)
      case (TLeaf k' v')
      with False try_deserialize_leaf_key_to [OF assms(1), of k' v' b'] scan(5) run show ?thesis
        by (auto simp: lazy_def)
    qed (use run in \<open>simp_all add: lazy_def\<close>)
    ultimately show ?thesis
      using assms(2) by simp
  qed
qed

end
