(* ===== verification/Trie_Proof.thy ===== *)
theory Trie_Proof
  imports Trie_Prune
begin

text \<open>
  Merkle proofs of entries: \<open>read_with_proof\<close> returns a proof from which \<open>compute_state_hash\<close> computes the
  root (completeness), and a proof from which a root is computed is that of an entry (soundness).
\<close>

section \<open>Hashes of short byte strings\<close>

lemma hash_bytes_short: "length b \<le> chunk_size_bytes \<Longrightarrow> hash_bytes cx b = blake2b cx b"
  by (simp add: hash_bytes_def hash_into_chunks_if_necessary_def)

lemma node_bytes_short:
  "trie_to_bytes cx (Node pb) = Inr b \<Longrightarrow> length b \<le> chunk_size_bytes"
  using pointer_block_serialized_length_le [of pb]
  by (auto simp: node_to_bytes length_pointer_block_write_bytes chunk_size_bytes_def)

lemma extension_bytes_short:
  assumes "length a \<le> chunk_size_bytes - 38" and "trie_to_bytes cx (Extension a p) = Inr b"
  shows "length b \<le> chunk_size_bytes"
proof -
  from assms(2) obtain x y where b: "u8_slice_to_bytes a = Inr x" "to_bytes pointer_codec p = Inr y" "length b = 1 + length x + length y"
    by (auto simp: trie_to_bytes_Inr trie_write_bytes_def)
  have "length x = 4 + length a" "length y = 33"
    using slice_bytes(2) [OF b(1)] pointer.length_to [OF b(2)] by (simp_all add: bytes_codec_def pointer_codec_def)
  with b(3) assms(1) show ?thesis
    by (simp add: chunk_size_bytes_def)
qed

section \<open>Completeness\<close>

text \<open>The proof step for a frame, with the pointers of the siblings.\<close>

fun frame_step :: "('k, 'v) tcx \<Rightarrow> ('k, 'v) frame \<Rightarrow> trie_merkle_proof_step" where
  "frame_step cx (FNode b f) = PsNode b (filter (\<lambda>(index, _). index \<noteq> b) (as_indexed_pointers (encf cx f)))"
| "frame_step cx (FExt a) = PsExtension a"

lemma map_filter_override:
  "fold (\<lambda>(idx, ptr) ret. ret(idx := Some ptr)) xs (m :: pointer_block) = m ++ map_of (rev xs)"
  by (induction xs arbitrary: m) (auto simp: map_add_def fun_eq_iff split: option.split)

lemma from_indexed_pointers_map_of: "from_indexed_pointers xs = map_of (rev xs)"
  by (simp add: from_indexed_pointers_def map_filter_override pointer_block_new_def)

lemma distinct_as_indexed_pointers: "distinct (map fst (as_indexed_pointers pb))"
proof -
  have "map fst (List.map_filter (\<lambda>i. map_option (\<lambda>v. (i, v)) (pb i)) is) = filter (\<lambda>i. pb i \<noteq> None) is" for "is"
    by (induction "is") (auto simp: List.map_filter_def)
  from this [of all_bytes] show ?thesis
    by (simp add: as_indexed_pointers_def)
qed

lemma fill_hole:
  "from_indexed_pointers (filter (\<lambda>(index, _). index \<noteq> b) (as_indexed_pointers pb) @ [(b, p)]) = pb(b := Some p)"
proof
  fix i
  let ?xs = "filter (\<lambda>(index, _). index \<noteq> b) (as_indexed_pointers pb)"
  have d: "distinct (map fst (rev ?xs))"
    using distinct_as_indexed_pointers [of pb] by (simp add: rev_map [symmetric] distinct_map_filter)
  have "map_of (rev ?xs) i = pb i" if "i \<noteq> b"
  proof (cases "pb i")
    case None
    then have "i \<notin> fst ` set (rev ?xs)"
      using as_indexed_pointers_set [of i _ pb] by auto
    with None show ?thesis
      by (simp add: map_of_eq_None_iff)
  next
    case (Some q)
    then have "(i, q) \<in> set (rev ?xs)"
      using as_indexed_pointers_set [of i q pb] that by auto
    with Some d show ?thesis
      by (simp add: map_of_is_SomeI)
  qed
  then show "from_indexed_pointers (?xs @ [(b, p)]) i = (pb(b := Some p)) i"
    by (simp add: from_indexed_pointers_map_of)
qed

lemma read_proof_loop_correct:
  assumes "tcx_ok cx" and "tree_paths cx p t" and "stored cx s t" and "prefix p (key_path cx k)"
    and "(k, v) \<in> entries t"
  shows "\<exists>frs. t = plug frs (TLeaf k v) \<and> full frs (TLeaf k v) \<and>
    read_proof_loop cx s k (key_path cx k) steps (length p) (enc cx t) =
      Some (Inr (Found \<lparr>tp_key = k, tp_value = v, tp_steps = rev (map (frame_step cx) frs) @ steps\<rparr>))"
  using assms(2-5)
proof (induction arbitrary: steps rule: tree_paths.induct)
  case (leaf p k' v')
  then show ?case
    by (intro exI [of _ "[]"]) (subst read_proof_loop.simps, auto)
next
  case (node f p)
  let ?path = "key_path cx k"
  let ?b = "?path ! length p"
  have paths: "tree_paths cx p (TNode f)"
    using node.hyps by simp
  have len: "length p < length ?path"
    by (rule node_path_longer [OF assms(1) paths node.prems(2)])
  note pre = prefix_nth [OF node.prems(2) len]
  obtain c t where c: "f c = Some t" "(k, v) \<in> entries t"
    using node.prems(3) by (auto simp: entries_TNode)
  have "c = ?b"
    using tree_paths_prefix [OF node.hyps(1) [OF c(1)] c(2)] pre by (rule prefix_snoc_unique)
  with c have t: "f ?b = Some t" by simp
  have st: "stored cx s t"
    using node.prems(1) t by simp
  let ?step = "frame_step cx (FNode ?b f)"
  from node.IH [OF t st pre c(2), of "?step # steps"] obtain frs where
    IH: "t = plug frs (TLeaf k v)" "full frs (TLeaf k v)"
      "read_proof_loop cx s k ?path (?step # steps) (length (p @ [?b])) (enc cx t) =
        Some (Inr (Found \<lparr>tp_key = k, tp_value = v, tp_steps = rev (map (frame_step cx) frs) @ ?step # steps\<rparr>))"
    by blast
  have "read_proof_loop cx s k ?path steps (length p) (enc cx (TNode f)) =
      read_proof_loop cx s k ?path (?step # steps) (length (p @ [?b])) (enc cx t)"
    using len t store_get_stored [OF assms(1) st]
    by (subst read_proof_loop.simps) (simp add: encf_def Let_def)
  moreover have "TNode f = plug (FNode ?b f # frs) (TLeaf k v)" "full (FNode ?b f # frs) (TLeaf k v)"
    using t IH by (simp_all add: fun_upd_idem)
  ultimately show ?case
    using IH(3) by (intro exI [of _ "FNode ?b f # frs"]) simp
next
  case (ext a t p)
  let ?path = "key_path cx k"
  have entry: "(k, v) \<in> entries t"
    using ext.prems(3) by simp
  have pre: "prefix (p @ a) ?path"
    using tree_paths_prefix [OF ext.hyps(3) entry] .
  then have len: "length p + length a \<le> length ?path"
    by (auto dest: prefix_length_le)
  have st: "stored cx s t"
    using ext.prems(1) by simp
  from ext.IH [OF st pre entry, of "PsExtension a # steps"] obtain frs where
    IH: "t = plug frs (TLeaf k v)" "full frs (TLeaf k v)"
      "read_proof_loop cx s k ?path (PsExtension a # steps) (length (p @ a)) (enc cx t) =
        Some (Inr (Found \<lparr>tp_key = k, tp_value = v, tp_steps = rev (map (frame_step cx) frs) @ PsExtension a # steps\<rparr>))"
    by blast
  have "read_proof_loop cx s k ?path steps (length p) (enc cx (TExt a t)) =
      read_proof_loop cx s k ?path (PsExtension a # steps) (length (p @ a)) (enc cx t)"
    using len pre prefix_slice [OF ext.prems(2) len] store_get_stored [OF assms(1) st]
    by (subst read_proof_loop.simps) simp
  with IH show ?case
    by (intro exI [of _ "FExt a # frs"]) simp
qed

text \<open>Keys are short enough that no extension is cut into chunks.\<close>

definition short_keys :: "('k, 'v) tcx \<Rightarrow> bool" where
  "short_keys cx \<longleftrightarrow> (\<forall>k. length (key_path cx k) \<le> chunk_size_bytes - 38)"

lemma thash_short:
  assumes "short_keys cx" and "tree_paths cx p t" and "\<not> is_leaf t" and "trie_to_bytes cx (enc cx t) = Inr b"
  shows "thash cx t = blake2b cx b"
proof -
  have "length b \<le> chunk_size_bytes"
  proof (cases t)
    case (TNode f)
    with assms(4) node_bytes_short show ?thesis by auto
  next
    case (TExt a u)
    then obtain k v where "(k, v) \<in> entries u" "prefix (p @ a) (key_path cx k)"
      using tree_paths_nonempty [of cx "p @ a" u] tree_paths_prefix [of cx "p @ a" u] assms(2) by auto
    then have "length a \<le> chunk_size_bytes - 38"
      using assms(1) prefix_length_le [of "p @ a" "key_path cx k"] unfolding short_keys_def
      by (metis add_leD2 le_trans length_append)
    with TExt assms(4) show ?thesis
      by (auto intro: extension_bytes_short)
  qed (use assms(3) in simp)
  then show ?thesis
    using thash_bytes [OF assms(4)] hash_bytes_short by simp
qed

lemma proof_steps_climb:
  assumes "short_keys cx" and "\<exists>q. tree_paths cx q (plug (rev rfrs) t)" and "full (rev rfrs) t"
    and "\<And>u. subtree u (plug (rev rfrs) t) \<Longrightarrow> \<exists>b. trie_to_bytes cx (enc cx u) = Inr b"
    and "n = 0 \<longleftrightarrow> is_leaf t"
  shows "proof_steps_hash cx n (thash cx t) (map (frame_step cx) rfrs) = Inr (thash cx (plug (rev rfrs) t))"
  using assms(2-5)
proof (induction rfrs arbitrary: n t)
  case (Cons fr rfrs)
  let ?u = "plug1 fr t"
  have u: "subtree ?u (plug (rev (fr # rfrs)) t)"
    using subtree_plug [of "[]" ?u "rev rfrs"] by simp
  obtain b where b: "trie_to_bytes cx (enc cx ?u) = Inr b"
    using Cons.prems(3) [OF u] by blast
  have leaf: "\<not> is_leaf ?u"
    by (cases fr) simp_all
  obtain q where q: "tree_paths cx q ?u"
    using Cons.prems(1) u tree_paths_subtree by blast
  have hash: "blake2b cx b = thash cx ?u"
    using thash_short [OF assms(1) q leaf b] by simp
  have ptr: "(if n = 0 then LeafPointer (thash cx t) else NodePointer (thash cx t)) = tptr cx t"
    using Cons.prems(4) by (cases t) (simp_all add: tptr_thash)
  have "(case frame_step cx fr of
      PsNode i ps \<Rightarrow> trie_to_bytes cx (Node (from_indexed_pointers (ps @ [(i, tptr cx t)])))
    | PsExtension a \<Rightarrow> trie_to_bytes cx (Extension a (tptr cx t))) = Inr b"
    using b by (cases fr) (simp_all add: fill_hole)
  then have "proof_steps_hash cx n (thash cx t) (map (frame_step cx) (fr # rfrs)) =
      proof_steps_hash cx (n + 1) (thash cx ?u) (map (frame_step cx) rfrs)"
    using hash by (simp add: ptr Let_def)
  also have "\<dots> = Inr (thash cx (plug (rev rfrs) ?u))"
    by (rule Cons.IH) (use Cons.prems leaf in simp_all)
  finally show ?case by simp
qed simp

lemma read_with_proof_complete:
  assumes "tcx_ok cx" and "short_keys cx" and "state cx s r E" and "(k, v) \<in> E"
  shows "\<exists>pf. read_with_proof cx s r k = Some (Inr (Found pf)) \<and> tp_key pf = k \<and> tp_value pf = v \<and>
    compute_state_hash cx pf = Inr r"
proof -
  from assms(3) obtain t where t: "root_wf cx t" "stored cx s t" "thash cx t = r" "entries t = E"
    by (auto simp: state_def)
  have entry: "(k, v) \<in> entries t" and paths: "tree_paths cx [] t"
    using assms(4) t(4) root_wf_paths [OF t(1)] by simp_all
  from read_proof_loop_correct [OF assms(1) paths t(2) _ entry, of "[]"] obtain frs where
    frs: "t = plug frs (TLeaf k v)" "full frs (TLeaf k v)"
      "read_proof_loop cx s k (key_path cx k) [] 0 (enc cx t) =
        Some (Inr (Found \<lparr>tp_key = k, tp_value = v, tp_steps = rev (map (frame_step cx) frs)\<rparr>))"
    by auto
  let ?pf = "\<lparr>tp_key = k, tp_value = v, tp_steps = rev (map (frame_step cx) frs)\<rparr>"
  have "read_with_proof cx s r k = Some (Inr (Found ?pf))"
    using frs(3) key_path_bytes [OF assms(1), of k] store_get_stored [OF assms(1) t(2)] t(3)
    by (simp add: read_with_proof_def)
  moreover have "compute_state_hash cx ?pf = Inr r"
  proof -
    have bytes: "\<exists>b. trie_to_bytes cx (enc cx u) = Inr b" if "subtree u t" for u
      using stored_here [OF stored_subtree [OF t(2) that]] by (auto simp: here_def)
    have "subtree (TLeaf k v) t"
      using subtree_plug [of "[]" "TLeaf k v" frs] frs(1) by simp
    from bytes [OF this] have "trie_hash cx (Leaf k v) = Inr (thash cx (TLeaf k v))"
      using trie_hash_enc [of cx "TLeaf k v"] by auto
    moreover have "proof_steps_hash cx 0 (thash cx (TLeaf k v)) (map (frame_step cx) (rev frs)) = Inr (thash cx (plug (rev (rev frs)) (TLeaf k v)))"
      by (rule proof_steps_climb [OF assms(2)]) (use frs(1,2) paths bytes in auto)
    ultimately show ?thesis
      using frs(1) t(3) by (simp add: compute_state_hash_def rev_map)
  qed
  ultimately show ?thesis by auto
qed

section \<open>Soundness\<close>

text \<open>The trie that a proof step stands for, and the byte strings that are hashed when a proof is checked.\<close>

definition step_trie :: "nat \<Rightarrow> digest \<Rightarrow> trie_merkle_proof_step \<Rightarrow> ('k, 'v) trie" where
  "step_trie n h step =
     (let p = if n = 0 then LeafPointer h else NodePointer h in
      case step of
        PsNode i ps \<Rightarrow> Node (from_indexed_pointers (ps @ [(i, p)]))
      | PsExtension a \<Rightarrow> Extension a p)"

fun step_inputs :: "('k, 'v) tcx \<Rightarrow> nat \<Rightarrow> digest \<Rightarrow> trie_merkle_proof_step list \<Rightarrow> byte list set" where
  "step_inputs cx n h [] = {}"
| "step_inputs cx n h (step # steps) =
     (case trie_to_bytes cx (step_trie n h step) of
        Inl _ \<Rightarrow> {}
      | Inr b \<Rightarrow> insert b (step_inputs cx (n + 1) (blake2b cx b) steps))"

definition trie_proof_inputs :: "('k, 'v) tcx \<Rightarrow> ('k, 'v) trie_merkle_proof \<Rightarrow> byte list set" where
  "trie_proof_inputs cx pf =
     (case trie_to_bytes cx (Leaf (tp_key pf) (tp_value pf)) of
        Inl _ \<Rightarrow> {}
      | Inr b \<Rightarrow> insert b (step_inputs cx 0 (hash_bytes cx b) (tp_steps pf)))"

definition short_steps :: "trie_merkle_proof_step list \<Rightarrow> bool" where
  "short_steps steps \<longleftrightarrow> (\<forall>a. PsExtension a \<in> set steps \<longrightarrow> length a \<le> chunk_size_bytes - 38)"

lemma proof_steps_hash_step:
  "proof_steps_hash cx n h (step # steps) =
     and_then (trie_to_bytes cx (step_trie n h step)) (\<lambda>b. proof_steps_hash cx (n + 1) (blake2b cx b) steps)"
  by (cases step) (simp_all add: step_trie_def Let_def)

lemma step_bytes_short:
  "short_steps (step # steps) \<Longrightarrow> trie_to_bytes cx (step_trie n h step) = Inr b \<Longrightarrow> length b \<le> chunk_size_bytes"
  by (cases step) (auto simp: step_trie_def short_steps_def intro: node_bytes_short extension_bytes_short)

lemma trie_to_bytes_inj:
  "tcx_ok cx \<Longrightarrow> trie_to_bytes cx t = Inr b \<Longrightarrow> trie_to_bytes cx u = Inr b \<Longrightarrow> t = u"
  using deserialize_trie_to [of cx t b] deserialize_trie_to [of cx u b] by simp

lemma step_trie_child:
  assumes "enc cx u = step_trie n h step"
  shows "\<exists>w. subtree w u \<and> thash cx w = h"
proof (cases step)
  case (PsNode i ps)
  let ?p = "if n = 0 then LeafPointer h else NodePointer h"
  obtain f where u: "u = TNode f" and f: "encf cx f = from_indexed_pointers (ps @ [(i, ?p)])"
    using assms PsNode by (cases u) (auto simp: step_trie_def)
  have "encf cx f i = Some ?p"
    by (simp add: f from_indexed_pointers_map_of)
  then obtain w where "f i = Some w" "tptr cx w = ?p"
    by (auto simp: encf_def)
  moreover from this(2) have "thash cx w = h"
    using pointer_hash_tptr [of cx w] by (cases "n = 0") simp_all
  ultimately show ?thesis
    using u by (auto intro: subtree.intros)
next
  case (PsExtension a)
  then obtain w where "u = TExt a w" "tptr cx w = (if n = 0 then LeafPointer h else NodePointer h)"
    using assms by (cases u) (auto simp: step_trie_def)
  moreover from this(2) have "thash cx w = h"
    using pointer_hash_tptr [of cx w] by (cases "n = 0") simp_all
  ultimately show ?thesis
    by (auto intro: subtree.intros)
qed

lemma subtree_trans: "subtree u v \<Longrightarrow> subtree v w \<Longrightarrow> subtree u w"
  by (rotate_tac, induction rule: subtree.induct) (auto intro: subtree.intros)

lemma proof_steps_sound:
  assumes "tcx_ok cx" and "inj_on (hash_bytes cx) (ran s \<union> B)" and "stored cx s t"
    and "step_inputs cx n h steps \<subseteq> B" and "short_steps steps" and "proof_steps_hash cx n h steps = Inr (thash cx t)"
  shows "\<exists>u. subtree u t \<and> thash cx u = h"
  using assms(4-6)
proof (induction steps arbitrary: n h)
  case Nil
  then show ?case by (auto intro: subtree.refl)
next
  case (Cons step steps)
  from Cons.prems(3) obtain b where b: "trie_to_bytes cx (step_trie n h step) = Inr b"
    "proof_steps_hash cx (n + 1) (blake2b cx b) steps = Inr (thash cx t)"
    unfolding proof_steps_hash_step by (auto simp: and_then_def split: sum.splits)
  have inputs: "b \<in> B" "step_inputs cx (n + 1) (blake2b cx b) steps \<subseteq> B"
    using Cons.prems(1) b(1) by auto
  have "short_steps steps"
    using Cons.prems(2) by (simp add: short_steps_def)
  from Cons.IH [OF inputs(2) this b(2)] obtain u where u: "subtree u t" "thash cx u = blake2b cx b" by blast
  have "here cx s u"
    using stored_here [OF stored_subtree [OF assms(3) u(1)]] .
  then obtain b' where b': "trie_to_bytes cx (enc cx u) = Inr b'" "s (thash cx u) = Some b'"
    by (auto simp: here_def)
  have "hash_bytes cx b' = hash_bytes cx b"
    using thash_bytes [OF b'(1)] u(2) hash_bytes_short [OF step_bytes_short [OF Cons.prems(2) b(1)], of cx] by simp
  then have "b' = b"
    using inj_onD [OF assms(2)] inputs(1) b'(2) by (auto intro: ranI)
  with b(1) b'(1) have "enc cx u = step_trie n h step"
    using trie_to_bytes_inj [OF assms(1)] by blast
  from step_trie_child [OF this] u(1) show ?case
    by (blast intro: subtree_trans)
qed

lemma trie_proof_sound:
  assumes "tcx_ok cx" and "state cx s r E" and "inj_on (hash_bytes cx) (ran s \<union> trie_proof_inputs cx pf)"
    and "short_steps (tp_steps pf)" and "compute_state_hash cx pf = Inr r"
  shows "(tp_key pf, tp_value pf) \<in> E"
proof -
  from assms(2) obtain t where t: "root_wf cx t" "stored cx s t" "thash cx t = r" "entries t = E"
    by (auto simp: state_def)
  from assms(5) obtain b where b: "trie_to_bytes cx (Leaf (tp_key pf) (tp_value pf)) = Inr b"
    "proof_steps_hash cx 0 (hash_bytes cx b) (tp_steps pf) = Inr (thash cx t)"
    by (auto simp: compute_state_hash_def trie_hash_def hash_bytes_def t(3) and_then_def split: sum.splits)
  have inputs: "b \<in> trie_proof_inputs cx pf" "step_inputs cx 0 (hash_bytes cx b) (tp_steps pf) \<subseteq> trie_proof_inputs cx pf"
    using b(1) by (auto simp: trie_proof_inputs_def)
  from proof_steps_sound [OF assms(1,3) t(2) inputs(2) assms(4) b(2)] obtain u where
    u: "subtree u t" "thash cx u = hash_bytes cx b" by blast
  have "here cx s u"
    using stored_here [OF stored_subtree [OF t(2) u(1)]] .
  then obtain b' where b': "trie_to_bytes cx (enc cx u) = Inr b'" "s (thash cx u) = Some b'"
    by (auto simp: here_def)
  have "b' = b"
    using inj_onD [OF assms(3), of b' b] thash_bytes [OF b'(1)] u(2) inputs(1) b'(2) by (auto intro: ranI)
  with b(1) b'(1) have "enc cx u = Leaf (tp_key pf) (tp_value pf)"
    using trie_to_bytes_inj [OF assms(1)] by blast
  then have "u = TLeaf (tp_key pf) (tp_value pf)"
    by (cases u) simp_all
  with tree_paths_subtree [OF root_wf_paths [OF t(1)] u(1)] t(4) show ?thesis by auto
qed

end
