(* ===== verification/Trie_Example.thy ===== *)
theory Trie_Example
  imports Trie_Proof
begin

text \<open>
  A small instance: keys and values are bytes, and the hash of a byte string is its length. The hash is
  injective on the byte strings of a trie with one entry, the empty trie, and a leaf.
\<close>

definition tdemo_hash :: "byte list \<Rightarrow> digest" where
  "tdemo_hash b = to_digest (le_bytes 32 (length b))"

definition tdemo_cx :: "(byte, byte) tcx" where
  "tdemo_cx = \<lparr>key_codec = u8_codec, value_codec = u8_codec, blake2b = tdemo_hash, tree_fold1 = (\<lambda>_ _. None)\<rparr>"

lemma tdemo_cx_simps [simp]:
  "key_codec tdemo_cx = u8_codec" "value_codec tdemo_cx = u8_codec" "blake2b tdemo_cx = tdemo_hash"
  by (simp_all add: tdemo_cx_def)

lemma tdemo_cx_ok: "tcx_ok tdemo_cx"
  using u8.bytesrepr_axioms by (simp add: tcx_ok_def u8_codec_def u32_max_def)

lemma tdemo_key_path [simp]: "key_path tdemo_cx k = [k]"
  by (simp add: key_path_def u8_codec_def)

lemma tdemo_short_keys: "short_keys tdemo_cx"
  by (simp add: short_keys_def chunk_size_bytes_def)

lemma tdemo_leaf_fits: "leaf_fits tdemo_cx k v"
  by (simp add: leaf_fits_def trie_to_bytes_Inr trie_serialized_length_def trie_write_bytes_def u8_codec_def u32_max_def)

lemma tdemo_hash_inj:
  assumes "tdemo_hash b = tdemo_hash b'" and "length b < 256 ^ 32" and "length b' < 256 ^ 32"
  shows "length b = length b'"
proof -
  have "le_bytes 32 (length b) = le_bytes 32 (length b')"
    using arg_cong [OF assms(1), of digest_bytes] by (simp add: tdemo_hash_def)
  from arg_cong [OF this, of le_nat] assms(2,3) show ?thesis by (simp add: le_nat_le_bytes)
qed

section \<open>The trees\<close>

definition tdemo_empty :: "(byte, byte) tree" where
  "tdemo_empty = TNode (\<lambda>_. None)"

definition tdemo_tree :: "(byte, byte) tree" where
  "tdemo_tree = TNode [5 \<mapsto> TLeaf 5 7]"

lemma tdemo_root_wf: "root_wf tdemo_cx tdemo_empty" "root_wf tdemo_cx tdemo_tree"
  by (simp_all add: root_wf_def tdemo_empty_def tdemo_tree_def)

lemma tdemo_entries: "entries tdemo_empty = {}" "entries tdemo_tree = {(5, 7)}"
  by (auto simp: entries_TNode tdemo_empty_def tdemo_tree_def split: if_splits)

lemma length_pointer_block: "length (pointer_block_write_bytes pb) = 256 + 33 * card (dom pb)"
proof -
  have "sum_list (map (\<lambda>i. serialized_length (option_codec pointer_codec) (pb i)) is) =
      length is + 33 * length (List.map_filter (\<lambda>i. map_option (\<lambda>v. (i, v)) (pb i)) is)" for "is"
    by (induction "is") (auto simp: pointer_codec_def List.map_filter_def split: option.split)
  from this [of all_bytes] show ?thesis
    by (simp add: length_pointer_block_write_bytes pointer_block_serialized_length_def radix_def
        as_indexed_pointers_def [symmetric] child_count_def [symmetric] child_count_card)
qed

definition tdemo_leaf_bytes :: "byte list" where
  "tdemo_leaf_bytes = [0, 5, 7]"

definition tdemo_empty_bytes :: "byte list" where
  "tdemo_empty_bytes = 1 # pointer_block_write_bytes (\<lambda>_. None)"

definition tdemo_tree_bytes :: "byte list" where
  "tdemo_tree_bytes = 1 # pointer_block_write_bytes [5 \<mapsto> LeafPointer (tdemo_hash tdemo_leaf_bytes)]"

lemma tdemo_lengths: "length tdemo_leaf_bytes = 3" "length tdemo_empty_bytes = 257" "length tdemo_tree_bytes = 290"
  by (simp_all add: tdemo_leaf_bytes_def tdemo_empty_bytes_def tdemo_tree_bytes_def length_pointer_block)

lemma tdemo_hash_bytes: "length b \<le> 1000 \<Longrightarrow> hash_bytes tdemo_cx b = tdemo_hash b"
  by (simp add: hash_bytes_def hash_into_chunks_if_necessary_def chunk_size_bytes_def)

lemma tdemo_hash_inj_on: "inj_on (hash_bytes tdemo_cx) {tdemo_leaf_bytes, tdemo_empty_bytes, tdemo_tree_bytes}"
proof -
  let ?B = "{tdemo_leaf_bytes, tdemo_empty_bytes, tdemo_tree_bytes}"
  have hash: "hash_bytes tdemo_cx x = tdemo_hash x" "length x < 256 ^ 32" if "x \<in> ?B" for x
    using that tdemo_lengths tdemo_hash_bytes by auto
  show ?thesis
  proof (rule inj_onI)
    fix x y assume *: "x \<in> ?B" "y \<in> ?B" "hash_bytes tdemo_cx x = hash_bytes tdemo_cx y"
    have "length x = length y"
      by (rule tdemo_hash_inj) (use * hash in simp_all)
    with *(1,2) tdemo_lengths show "x = y"
      by (elim insertE emptyE) simp_all
  qed
qed

lemma tdemo_enc_bytes:
  "trie_to_bytes tdemo_cx (enc tdemo_cx (TLeaf 5 7)) = Inr tdemo_leaf_bytes"
  "trie_to_bytes tdemo_cx (enc tdemo_cx tdemo_empty) = Inr tdemo_empty_bytes"
  "trie_to_bytes tdemo_cx (enc tdemo_cx tdemo_tree) = Inr tdemo_tree_bytes"
proof -
  show leaf: "trie_to_bytes tdemo_cx (enc tdemo_cx (TLeaf 5 7)) = Inr tdemo_leaf_bytes"
    by (simp add: trie_to_bytes_Inr trie_serialized_length_def trie_write_bytes_def u8_codec_def u32_max_def
        trie_tag_to_u8_def tdemo_leaf_bytes_def)
  show "trie_to_bytes tdemo_cx (enc tdemo_cx tdemo_empty) = Inr tdemo_empty_bytes"
    by (simp add: node_to_bytes tdemo_empty_def tdemo_empty_bytes_def encf_def)
  have "tptr tdemo_cx (TLeaf 5 7) = LeafPointer (tdemo_hash tdemo_leaf_bytes)"
    using thash_bytes [OF leaf] tdemo_hash_bytes [of tdemo_leaf_bytes] tdemo_lengths by (simp add: tptr_thash del: tptr.simps)
  then have "encf tdemo_cx [5 \<mapsto> TLeaf 5 7] = [5 \<mapsto> LeafPointer (tdemo_hash tdemo_leaf_bytes)]"
    by (simp add: encf_def fun_eq_iff del: tptr.simps)
  then show "trie_to_bytes tdemo_cx (enc tdemo_cx tdemo_tree) = Inr tdemo_tree_bytes"
    by (simp add: node_to_bytes tdemo_tree_def tdemo_tree_bytes_def)
qed

lemma tdemo_tree_byte_sets:
  "tree_bytes tdemo_cx tdemo_empty = {tdemo_empty_bytes}" "tree_bytes tdemo_cx tdemo_tree = {tdemo_leaf_bytes, tdemo_tree_bytes}"
proof -
  have "subtree u tdemo_empty \<longleftrightarrow> u = tdemo_empty" for u
    by (auto simp: tdemo_empty_def subtree_simps)
  then show "tree_bytes tdemo_cx tdemo_empty = {tdemo_empty_bytes}"
    using tdemo_enc_bytes(2) by (auto simp: tree_bytes_def)
  have "subtree u tdemo_tree \<longleftrightarrow> u = tdemo_tree \<or> u = TLeaf 5 7" for u
    by (auto simp: tdemo_tree_def subtree_simps split: if_splits)
  then have "tree_bytes tdemo_cx tdemo_tree = {b. trie_to_bytes tdemo_cx (enc tdemo_cx (TLeaf 5 7)) = Inr b} \<union>
      {b. trie_to_bytes tdemo_cx (enc tdemo_cx tdemo_tree) = Inr b}"
    unfolding tree_bytes_def by (simp only: set_eq_iff mem_Collect_eq Un_iff) blast
  then show "tree_bytes tdemo_cx tdemo_tree = {tdemo_leaf_bytes, tdemo_tree_bytes}"
    unfolding tdemo_enc_bytes by auto
qed

section \<open>The stores\<close>

definition tdemo_root0 :: digest where
  "tdemo_root0 = hash_bytes tdemo_cx tdemo_empty_bytes"

definition tdemo_root1 :: digest where
  "tdemo_root1 = hash_bytes tdemo_cx tdemo_tree_bytes"

definition tdemo_store0 :: store where
  "tdemo_store0 = [tdemo_root0 \<mapsto> tdemo_empty_bytes]"

definition tdemo_store1 :: store where
  "tdemo_store1 = tdemo_store0(hash_bytes tdemo_cx tdemo_leaf_bytes \<mapsto> tdemo_leaf_bytes, tdemo_root1 \<mapsto> tdemo_tree_bytes)"

lemma tdemo_addressed: "addressed tdemo_cx tdemo_store0" "addressed tdemo_cx tdemo_store1"
  by (auto simp: addressed_def tdemo_store0_def tdemo_store1_def tdemo_root0_def tdemo_root1_def split: if_splits)

lemma tdemo_ran: "ran tdemo_store0 \<subseteq> {tdemo_empty_bytes}" "ran tdemo_store1 \<subseteq> {tdemo_leaf_bytes, tdemo_empty_bytes, tdemo_tree_bytes}"
  by (auto simp: ran_def tdemo_store0_def tdemo_store1_def split: if_splits)

lemma tdemo_state0: "state tdemo_cx tdemo_store0 tdemo_root0 {}"
proof -
  have "here tdemo_cx tdemo_store0 tdemo_empty"
    using tdemo_enc_bytes(2) thash_bytes [OF tdemo_enc_bytes(2)] by (simp add: here_def tdemo_store0_def tdemo_root0_def)
  then have "stored tdemo_cx tdemo_store0 tdemo_empty"
    by (simp add: tdemo_empty_def)
  then show ?thesis
    unfolding state_def using tdemo_root_wf(1) tdemo_entries(1) thash_bytes [OF tdemo_enc_bytes(2)]
    by (auto simp: tdemo_root0_def)
qed

lemma tdemo_state1: "state tdemo_cx tdemo_store1 tdemo_root1 {(5, 7)}"
proof -
  have "tdemo_leaf_bytes \<noteq> tdemo_tree_bytes"
    using tdemo_lengths by auto
  then have "hash_bytes tdemo_cx tdemo_leaf_bytes \<noteq> tdemo_root1"
    using inj_onD [OF tdemo_hash_inj_on, of tdemo_leaf_bytes tdemo_tree_bytes] by (auto simp: tdemo_root1_def)
  then have "here tdemo_cx tdemo_store1 (TLeaf 5 7)" "here tdemo_cx tdemo_store1 tdemo_tree"
    using tdemo_enc_bytes thash_bytes [OF tdemo_enc_bytes(1)] thash_bytes [OF tdemo_enc_bytes(3)]
    by (auto simp: here_def tdemo_store1_def tdemo_root1_def)
  then have "stored tdemo_cx tdemo_store1 tdemo_tree"
    by (auto simp: tdemo_tree_def split: if_splits)
  then show ?thesis
    unfolding state_def using tdemo_root_wf(2) tdemo_entries(2) thash_bytes [OF tdemo_enc_bytes(3)]
    by (auto simp: tdemo_root1_def)
qed

lemma tdemo_no_collision:
  "no_collision tdemo_cx tdemo_store0 {(5, 7)}" "no_collision tdemo_cx tdemo_store1 {}"
proof -
  have "t = tdemo_tree" if "root_wf tdemo_cx t" "entries t = {(5, 7)}" for t
    by (rule root_wf_unique [OF that(1) tdemo_root_wf(2)]) (simp add: that tdemo_entries)
  then show "no_collision tdemo_cx tdemo_store0 {(5, 7)}"
    unfolding no_collision_def using tdemo_ran(1) tdemo_tree_byte_sets(2)
    by (intro allI impI inj_on_subset [OF tdemo_hash_inj_on]) auto
  have "t = tdemo_empty" if "root_wf tdemo_cx t" "entries t = {}" for t
    by (rule root_wf_unique [OF that(1) tdemo_root_wf(1)]) (simp add: that tdemo_entries)
  then show "no_collision tdemo_cx tdemo_store1 {}"
    unfolding no_collision_def using tdemo_ran(2) tdemo_tree_byte_sets(1)
    by (intro allI impI inj_on_subset [OF tdemo_hash_inj_on]) auto
qed

section \<open>A trie with an extension\<close>

text \<open>
  The keys have different lengths: \<open>Some None\<close> is encoded as \<open>[1, 0]\<close> and \<open>Some (Some x)\<close> as \<open>[1, 1]\<close> and two
  more bytes. The trie holds two of the long keys, which differ in their last byte.
\<close>

definition edemo_cx :: "(16 word option option, byte option) tcx" where
  "edemo_cx = \<lparr>key_codec = option_codec (option_codec u16_codec), value_codec = option_codec u8_codec,
     blake2b = tdemo_hash, tree_fold1 = (\<lambda>_ _. None)\<rparr>"

lemma edemo_cx_simps [simp]:
  "key_codec edemo_cx = option_codec (option_codec u16_codec)" "value_codec edemo_cx = option_codec u8_codec"
  "blake2b edemo_cx = tdemo_hash"
  by (simp_all add: edemo_cx_def)

lemma edemo_to_bytes:
  "to_bytes (key_codec edemo_cx) k = Inr
     (case k of None \<Rightarrow> [0] | Some None \<Rightarrow> [1, 0] | Some (Some x) \<Rightarrow> 1 # 1 # le_bytes 2 (unat x))"
proof -
  have "to_bytes u16_codec x = Inr (le_bytes 2 (unat x))" "serialized_length u16_codec x = 2" for x
    by (simp_all add: u16_codec_def int_codec_def)
  then show ?thesis
    by (auto simp: option_codec_def allocate_buffer_for_size_def u32_max_def split: option.split)
qed

lemma edemo_cx_ok: "tcx_ok edemo_cx"
proof -
  note can = option_codec_canonical [OF option_codec_canonical [OF u16.canonical_bytesrepr_axioms]]
    option_codec_canonical [OF u8.canonical_bytesrepr_axioms]
  show ?thesis
    using can [THEN canonical_bytesrepr.axioms(1)]
    unfolding tcx_ok_def edemo_to_bytes by (auto simp: u32_max_def split: option.split)
qed

lemma edemo_key_path:
  "key_path edemo_cx (Some None) = [1, 0]" "key_path edemo_cx (Some (Some 0)) = [1, 1, 0, 0]"
  "key_path edemo_cx (Some (Some 256)) = [1, 1, 0, 1]"
proof -
  have "le_bytes 2 n = [of_nat n, of_nat (n div 256)]" for n
    by (simp add: numeral_2_eq_2)
  then show "key_path edemo_cx (Some None) = [1, 0]" "key_path edemo_cx (Some (Some 0)) = [1, 1, 0, 0]"
    "key_path edemo_cx (Some (Some 256)) = [1, 1, 0, 1]"
    unfolding key_path_def edemo_to_bytes by simp_all
qed

definition edemo_leaf1 :: "(16 word option option, byte option) tree" where
  "edemo_leaf1 = TLeaf (Some (Some 0)) None"

definition edemo_leaf2 :: "(16 word option option, byte option) tree" where
  "edemo_leaf2 = TLeaf (Some (Some 256)) (Some 7)"

definition edemo_node :: "(16 word option option, byte option) tree" where
  "edemo_node = TNode [0 \<mapsto> edemo_leaf1, 1 \<mapsto> edemo_leaf2]"

definition edemo_root :: "byte \<rightharpoonup> (16 word option option, byte option) tree" where
  "edemo_root = [1 \<mapsto> TExt [1, 0] edemo_node]"

lemmas edemo_tree_defs = edemo_leaf1_def edemo_leaf2_def edemo_node_def edemo_root_def

definition edemo_trees :: "(16 word option option, byte option) tree list" where
  "edemo_trees = [edemo_leaf1, edemo_leaf2, edemo_node, TExt [1, 0] edemo_node, TNode edemo_root]"

definition edemo_bytes :: "(16 word option option, byte option) tree \<Rightarrow> byte list" where
  "edemo_bytes t = projr (trie_to_bytes edemo_cx (enc edemo_cx t))"

definition edemo_store :: store where
  "edemo_store = map_of (map (\<lambda>t. (thash edemo_cx t, edemo_bytes t)) edemo_trees)"

lemma edemo_root_wf: "root_wf edemo_cx (TNode edemo_root)"
proof -
  have "tree_wf edemo_cx [1, 1, 0] edemo_node"
    unfolding edemo_node_def
    by (rule tree_wf.node [where ?b1.0 = 0 and ?b2.0 = 1])
      (auto simp: edemo_leaf1_def edemo_leaf2_def edemo_key_path split: if_splits)
  then show ?thesis
    by (auto simp: root_wf_def edemo_root_def edemo_node_def split: if_splits)
qed

lemma edemo_subtree:
  assumes "t \<in> set edemo_trees"
  shows "subtree t (TNode edemo_root)"
proof -
  have node: "subtree edemo_node (TNode edemo_root)" "subtree (TExt [1, 0] edemo_node) (TNode edemo_root)"
    by (auto simp: edemo_root_def subtree_simps intro: subtree.refl)
  moreover have "subtree edemo_leaf1 edemo_node" "subtree edemo_leaf2 edemo_node"
    by (auto simp: edemo_node_def edemo_leaf1_def edemo_leaf2_def subtree_simps intro!: exI [of _ 0] exI [of _ 1])
  ultimately show ?thesis
    using assms by (auto simp: edemo_trees_def intro: subtree_trans subtree.refl)
qed

lemma edemo_entries: "entries (TNode edemo_root) \<subseteq> {(Some (Some 0), None), (Some (Some 256), Some 7)}"
  by (auto simp: edemo_tree_defs entries_TNode split: if_splits)

lemma edemo_leaf_fits: "leaf_fits edemo_cx (Some (Some x)) v"
proof -
  have "\<exists>b. to_bytes (option_codec u8_codec) v = Inr b" "serialized_length (option_codec u8_codec) v \<le> 2"
    by (cases v; simp add: option_codec_def u8_codec_def u32_max_def allocate_buffer_for_size_def)+
  moreover have "serialized_length (key_codec edemo_cx) (Some (Some x)) = 4"
    by (simp add: u16_codec_def int_codec_def)
  ultimately show ?thesis
    using edemo_to_bytes [of "Some (Some x)"]
    by (auto simp: leaf_fits_def trie_to_bytes_Inr trie_serialized_length_def trie_write_bytes_def u32_max_def)
qed

lemma edemo_to_bytes_tree:
  assumes "t \<in> set edemo_trees"
  shows "trie_to_bytes edemo_cx (enc edemo_cx t) = Inr (edemo_bytes t)"
    and "length (edemo_bytes t) = trie_serialized_length edemo_cx (enc edemo_cx t)"
proof -
  have "\<exists>b. trie_to_bytes edemo_cx (enc edemo_cx t) = Inr b"
    by (rule subtree_to_bytes [OF edemo_cx_ok root_wf_paths [OF edemo_root_wf] _ edemo_subtree [OF assms]])
      (use edemo_entries edemo_leaf_fits in blast)
  then show *: "trie_to_bytes edemo_cx (enc edemo_cx t) = Inr (edemo_bytes t)"
    by (auto simp: edemo_bytes_def)
  show "length (edemo_bytes t) = trie_serialized_length edemo_cx (enc edemo_cx t)"
    using bytesrepr.length_to [OF trie_codec_bytesrepr, of edemo_cx "enc edemo_cx t" "edemo_bytes t"] edemo_cx_ok *
    by (simp add: tcx_ok_def trie_codec_def)
qed

lemma length_node: "pointer_block_serialized_length pb = 256 + 33 * card (dom pb)"
  using length_pointer_block [of pb] by (simp add: length_pointer_block_write_bytes)

lemma edemo_lengths: "map (length \<circ> edemo_bytes) edemo_trees = [6, 7, 323, 40, 290]"
proof -
  have dom: "dom (encf edemo_cx [0 \<mapsto> edemo_leaf1, 1 \<mapsto> edemo_leaf2]) = {0, 1}"
    "dom (encf edemo_cx edemo_root) = {1}"
    by (auto simp: encf_def edemo_root_def split: if_splits)
  have "map (length \<circ> edemo_bytes) edemo_trees = map (trie_serialized_length edemo_cx \<circ> enc edemo_cx) edemo_trees"
    using edemo_to_bytes_tree(2) by simp
  also have "\<dots> = [6, 7, 323, 40, 290]"
    using dom
    by (simp add: edemo_trees_def edemo_leaf1_def edemo_leaf2_def edemo_node_def trie_serialized_length_def length_node
        u16_codec_def int_codec_def u8_codec_def bytes_codec_def pointer_codec_def)
  finally show ?thesis .
qed

lemma edemo_stored: "stored edemo_cx edemo_store (TNode edemo_root)"
proof -
  have short: "length (edemo_bytes t) \<le> 1000" if "t \<in> set edemo_trees" for t
  proof -
    have "length (edemo_bytes t) \<in> set (map (length \<circ> edemo_bytes) edemo_trees)"
      using that by simp
    then show ?thesis unfolding edemo_lengths by auto
  qed
  have hash: "thash edemo_cx t = tdemo_hash (edemo_bytes t)" if "t \<in> set edemo_trees" for t
    using thash_bytes [OF edemo_to_bytes_tree(1) [OF that]] short [OF that]
    by (simp add: hash_bytes_def hash_into_chunks_if_necessary_def chunk_size_bytes_def)
  have "distinct (map (thash edemo_cx) edemo_trees)"
  proof -
    have d: "distinct (map (length \<circ> edemo_bytes) edemo_trees)"
      unfolding edemo_lengths by simp
    have "inj_on (thash edemo_cx) (set edemo_trees)"
    proof (rule inj_onI)
      fix t u assume *: "t \<in> set edemo_trees" "u \<in> set edemo_trees" "thash edemo_cx t = thash edemo_cx u"
      have "length (edemo_bytes t) = length (edemo_bytes u)"
        by (rule tdemo_hash_inj) (use * hash short [of t] short [of u] in simp_all)
      moreover have "inj_on (length \<circ> edemo_bytes) (set edemo_trees)"
        using d by (simp only: distinct_map)
      ultimately show "t = u"
        using *(1,2) by (simp add: inj_on_def)
    qed
    with d show ?thesis by (simp add: distinct_map)
  qed
  then have "edemo_store (thash edemo_cx t) = Some (edemo_bytes t)" if "t \<in> set edemo_trees" for t
    using that by (auto simp: edemo_store_def comp_def intro!: map_of_is_SomeI)
  then have here: "here edemo_cx edemo_store t" if "t \<in> set edemo_trees" for t
    using that edemo_to_bytes_tree(1) by (auto simp: here_def)
  then have "stored edemo_cx edemo_store edemo_leaf1" "stored edemo_cx edemo_store edemo_leaf2"
    by (simp_all add: edemo_trees_def edemo_leaf1_def edemo_leaf2_def)
  with here [of edemo_node] have "stored edemo_cx edemo_store edemo_node"
    by (auto simp: edemo_trees_def edemo_node_def split: if_splits)
  with here [of "TExt [1, 0] edemo_node"] here [of "TNode edemo_root"] show ?thesis
    by (auto simp: edemo_trees_def edemo_root_def split: if_splits)
qed

end
