(* ===== verification/Trie_Properties.thy ===== *)
theory Trie_Properties
  imports Trie_Example
begin

text \<open>
  The properties of the global state: at a root lies a map from keys to values, which \<open>read\<close>, \<open>write\<close> and
  \<open>prune\<close> look up, update and restrict, and of which the root is a function; Merkle proofs are complete
  and sound.
\<close>

section \<open>The map at a root\<close>

definition contents :: "('k, 'v) tcx \<Rightarrow> store \<Rightarrow> digest \<Rightarrow> ('k \<Rightarrow> 'v option) \<Rightarrow> bool" where
  "contents cx s state_root m \<longleftrightarrow> state cx s state_root (Map.graph m)"

lemma in_graph [simp]: "(k, v) \<in> Map.graph m \<longleftrightarrow> m k = Some v"
  by (auto simp: Map.graph_def)

lemma graph_update: "insert_entry k v (Map.graph m) = Map.graph (m(k \<mapsto> v))"
  by (auto split: if_splits)

lemma graph_remove: "remove_key k (Map.graph m) = Map.graph (m(k := None))"
  by (auto split: if_splits)

lemma fst_graph: "k \<in> fst ` Map.graph m \<longleftrightarrow> m k \<noteq> None"
  by (auto simp: image_iff Map.graph_def)

lemma contents_mono: "contents cx s r m \<Longrightarrow> s \<subseteq>\<^sub>m s' \<Longrightarrow> contents cx s' r m"
  unfolding contents_def by (rule state_mono)

lemma tdemo_contents: "contents tdemo_cx tdemo_store0 tdemo_root0 Map.empty" "contents tdemo_cx tdemo_store1 tdemo_root1 [5 \<mapsto> 7]"
proof -
  have "Map.graph [5 \<mapsto> 7] = {(5 :: byte, 7 :: byte)}"
    by (auto split: if_splits)
  then show "contents tdemo_cx tdemo_store0 tdemo_root0 Map.empty" "contents tdemo_cx tdemo_store1 tdemo_root1 [5 \<mapsto> 7]"
    using tdemo_state0 tdemo_state1 by (simp_all add: contents_def)
qed

section \<open>Reading, writing and pruning\<close>



text \<open>C3. Writing: \<open>write\<close> refines the update of the map. It returns a new root, at which the contents are
  the updated map, or that the entry already exists; it neither panics nor fails, and all earlier roots
  keep their contents.\<close>

theorem trie_write:
  assumes "tcx_ok cx" and "addressed cx s" and "contents cx s state_root m" and "leaf_fits cx k v"
    and "no_collision cx s (Map.graph (m(k \<mapsto> v)))"
  shows "\<exists>res s'. write_trie cx state_root k v s = Some (Inr (res, s')) \<and>
    (if m k = Some v then res = AlreadyExists \<and> s' = s
     else \<exists>root'. res = Written root' \<and> contents cx s' root' (m(k \<mapsto> v))) \<and>
    addressed cx s' \<and> (\<forall>r m'. contents cx s r m' \<longrightarrow> contents cx s' r m')"
proof -
  from write_trie_correct [OF assms(1,2) assms(3) [unfolded contents_def] assms(4)] assms(5)
  obtain res s' where w: "write_trie cx state_root k v s = Some (Inr (res, s'))" "s \<subseteq>\<^sub>m s'" "addressed cx s'"
    "if m k = Some v then res = AlreadyExists \<and> s' = s
     else \<exists>root'. res = Written root' \<and> contents cx s' root' (m(k \<mapsto> v))"
    unfolding graph_update in_graph contents_def by blast
  with contents_mono [OF _ w(2)] show ?thesis by blast
qed

theorem trie_write_witness:
  "\<exists>res s' root'. write_trie tdemo_cx tdemo_root0 5 7 tdemo_store0 = Some (Inr (res, s')) \<and>
     res = Written root' \<and> contents tdemo_cx s' root' [5 \<mapsto> 7]"
proof -
  have "Map.graph (Map.empty(5 \<mapsto> 7)) = {(5 :: byte, 7 :: byte)}"
    by (auto split: if_splits)
  then have "no_collision tdemo_cx tdemo_store0 (Map.graph (Map.empty(5 \<mapsto> 7)))"
    using tdemo_no_collision(1) by simp
  from trie_write [OF tdemo_cx_ok tdemo_addressed(1) tdemo_contents(1) tdemo_leaf_fits this] show ?thesis
    by auto
qed

text \<open>C4. Pruning: \<open>prune\<close> refines the removal of a key from the map. It returns a new root, at which the
  contents are the map without the key, or that the key is missing; it neither panics nor fails, and all
  earlier roots keep their contents.\<close>

theorem trie_prune:
  assumes "tcx_ok cx" and "addressed cx s" and "contents cx s state_root m"
    and "no_collision cx s (Map.graph (m(k := None)))"
  shows "\<exists>res s'. prune cx state_root k s = Some (Inr (res, s')) \<and>
    (if m k = None then res = MissingKey \<and> s' = s
     else \<exists>root'. res = Pruned root' \<and> contents cx s' root' (m(k := None))) \<and>
    addressed cx s' \<and> (\<forall>r m'. contents cx s r m' \<longrightarrow> contents cx s' r m')"
proof -
  from prune_correct [OF assms(1,2) assms(3) [unfolded contents_def], of k] assms(4)
  obtain res s' where w: "prune cx state_root k s = Some (Inr (res, s'))" "s \<subseteq>\<^sub>m s'" "addressed cx s'"
    "if m k \<noteq> None then \<exists>root'. res = Pruned root' \<and> contents cx s' root' (m(k := None))
     else res = MissingKey \<and> s' = s"
    unfolding graph_remove fst_graph contents_def by blast
  then have "if m k = None then res = MissingKey \<and> s' = s
     else \<exists>root'. res = Pruned root' \<and> contents cx s' root' (m(k := None))"
    by (simp split: if_splits)
  with w contents_mono [OF _ w(2)] show ?thesis by blast
qed

theorem trie_prune_witness:
  "\<exists>res s' root'. prune tdemo_cx tdemo_root1 5 tdemo_store1 = Some (Inr (res, s')) \<and>
     res = Pruned root' \<and> contents tdemo_cx s' root' Map.empty"
proof -
  have "no_collision tdemo_cx tdemo_store1 (Map.graph ([5 \<mapsto> 7](5 := None)))"
    using tdemo_no_collision(2) by simp
  from trie_prune [OF tdemo_cx_ok tdemo_addressed(2) tdemo_contents(2) this] show ?thesis
    by auto
qed



section \<open>Merkle proofs\<close>

text \<open>C10. Completeness: for every entry \<open>read_with_proof\<close> returns a proof of it, from which
  \<open>compute_state_hash\<close> computes the root.\<close>

theorem trie_proof_complete:
  assumes "tcx_ok cx" and "short_keys cx" and "contents cx s state_root m" and "m k = Some v"
  shows "\<exists>pf. read_with_proof cx s state_root k = Some (Inr (Found pf)) \<and> tp_key pf = k \<and> tp_value pf = v \<and>
    compute_state_hash cx pf = Inr state_root"
  using read_with_proof_complete [OF assms(1,2) assms(3) [unfolded contents_def]] assms(4) by simp

theorem trie_proof_complete_witness:
  "\<exists>pf. read_with_proof tdemo_cx tdemo_store1 tdemo_root1 5 = Some (Inr (Found pf)) \<and> tp_key pf = 5 \<and> tp_value pf = 7 \<and>
    compute_state_hash tdemo_cx pf = Inr tdemo_root1"
  by (rule trie_proof_complete [OF tdemo_cx_ok tdemo_short_keys tdemo_contents(2)]) simp

text \<open>C6. Soundness: a proof, from whomever, from which \<open>compute_state_hash\<close> computes the root is a proof of
  an entry at that root, unless it exhibits a hash collision.\<close>

theorem trie_proof_sound_contents:
  assumes "tcx_ok cx" and "contents cx s state_root m"
    and "inj_on (hash_bytes cx) (ran s \<union> trie_proof_inputs cx pf)" and "short_steps (tp_steps pf)"
    and "compute_state_hash cx pf = Inr state_root"
  shows "m (tp_key pf) = Some (tp_value pf)"
  using trie_proof_sound [OF assms(1) assms(2) [unfolded contents_def] assms(3-5)] by simp

theorem trie_proof_sound_contents_witness:
  "compute_state_hash tdemo_cx \<lparr>tp_key = 5, tp_value = 7, tp_steps = [PsNode 5 []]\<rparr> = Inr tdemo_root1 \<and>
    [5 \<mapsto> 7] (5 :: byte) = Some (7 :: byte)"
proof -
  let ?pf = "\<lparr>tp_key = 5, tp_value = 7, tp_steps = [PsNode 5 []]\<rparr> :: (byte, byte) trie_merkle_proof"
  have leaf: "trie_to_bytes tdemo_cx (Leaf 5 7) = Inr tdemo_leaf_bytes"
    using tdemo_enc_bytes(1) by simp
  have hash: "hash_bytes tdemo_cx tdemo_leaf_bytes = tdemo_hash tdemo_leaf_bytes"
      "hash_bytes tdemo_cx tdemo_tree_bytes = tdemo_hash tdemo_tree_bytes"
    using tdemo_hash_bytes tdemo_lengths by simp_all
  have step: "trie_to_bytes tdemo_cx (step_trie 0 (tdemo_hash tdemo_leaf_bytes) (PsNode 5 [])) = Inr tdemo_tree_bytes"
    by (simp add: step_trie_def node_to_bytes tdemo_tree_bytes_def)
  have "trie_hash tdemo_cx (Leaf 5 7) = Inr (tdemo_hash tdemo_leaf_bytes)"
    using leaf hash(1) by (simp add: trie_hash_def hash_bytes_def)
  then have root: "compute_state_hash tdemo_cx ?pf = Inr tdemo_root1"
    using step hash(2)
    by (simp add: compute_state_hash_def proof_steps_hash_step tdemo_root1_def del: proof_steps_hash.simps(2))
  have "trie_proof_inputs tdemo_cx ?pf = {tdemo_leaf_bytes, tdemo_tree_bytes}"
    using leaf step hash(1) by (simp add: trie_proof_inputs_def)
  then have "inj_on (hash_bytes tdemo_cx) (ran tdemo_store1 \<union> trie_proof_inputs tdemo_cx ?pf)"
    using tdemo_ran(2) by (intro inj_on_subset [OF tdemo_hash_inj_on]) auto
  from trie_proof_sound_contents [OF tdemo_cx_ok tdemo_contents(2) this _ root] root show ?thesis
    by (simp add: short_steps_def)
qed

section \<open>Encoding\<close>

text \<open>C24. The encoding of a trie node is faithful: what \<open>to_bytes\<close> writes has the announced length, and
  \<open>deserialize\<close> reads it back, whatever follows the tag.\<close>

theorem trie_roundtrip:
  assumes "tcx_ok cx" and "trie_to_bytes cx t = Inr b"
  shows "deserialize (trie_codec cx) b = Inr t \<and> length b = trie_serialized_length cx t"
  using deserialize_trie_to [OF assms] bytesrepr.length_to [OF trie_codec_bytesrepr, of cx t b] assms
  by (simp add: tcx_ok_def trie_codec_def)

theorem trie_roundtrip_witness:
  "deserialize (trie_codec tdemo_cx) tdemo_tree_bytes = Inr (enc tdemo_cx tdemo_tree) \<and>
    length tdemo_tree_bytes = trie_serialized_length tdemo_cx (enc tdemo_cx tdemo_tree)"
  by (rule trie_roundtrip [OF tdemo_cx_ok tdemo_enc_bytes(3)])

section \<open>Keys that are too short\<close>

text \<open>C30. The slice that \<open>read\<close> takes of the path panics if the path ends within an extension below the root.\<close>

theorem read_short_key_panics:
  assumes "tcx_ok cx" and "stored cx s (TNode f)" and "f b = Some (TExt a t)"
    and "key_path cx k = b # rest" and "length rest < length a"
  shows "read cx s (thash cx (TNode f)) k = None"
proof -
  have "subtree (TExt a t) (TNode f)"
    using assms(3) by (rule subtree.node) (rule subtree.refl)
  from store_get_stored [OF assms(1) stored_subtree [OF assms(2) this]]
  have child: "store_get cx s (thash cx (TExt a t)) = Inr (Some (Extension a (tptr cx t)))"
    by simp
  have "read_loop cx s k (b # rest) 1 (Extension a (tptr cx t)) = None"
    using assms(5) by (subst read_loop.simps) simp
  then have "read_loop cx s k (b # rest) 0 (Node (encf cx f)) = None"
    using child assms(3) by (subst read_loop.simps) (auto simp: encf_def simp del: tptr.simps)
  then show ?thesis
    using store_get_stored [OF assms(1,2)] key_path_bytes [OF assms(1), of k] assms(4) by (simp add: read_def)
qed

theorem read_short_key_panics_witness:
  "root_wf edemo_cx (TNode edemo_root) \<and> read edemo_cx edemo_store (thash edemo_cx (TNode edemo_root)) (Some None) = None"
proof -
  have "read edemo_cx edemo_store (thash edemo_cx (TNode edemo_root)) (Some None) = None"
    by (rule read_short_key_panics [OF edemo_cx_ok edemo_stored, of 1 "[1, 0]" edemo_node _ "[0]"])
      (simp_all add: edemo_root_def edemo_key_path)
  with edemo_root_wf show ?thesis by simp
qed

end
