(* ===== verification/Spec2Isabelle.thy ===== *)
theory Spec2Isabelle
  imports Zug_Properties Merkle_Proofs Trie_Properties
begin

text \<open>
  A verification development for three parts of the Casper node: the Zug consensus protocol, the Merkle
  trees with which large data is cut into chunks, and the trie that holds the global state.

  \<^bold>\<open>How the parts interact.\<close> In every era the era supervisor creates an instance of Zug
  (\<open>src/node/src/components/consensus/protocols/zug.rs\<close>) from the stakes of the validators, and calls it
  through the trait \<open>ConsensusProtocol\<close> with messages of peers, timers, and proposed blocks. Every call
  returns outcomes: messages to send, timers to set, finalized blocks. Finalized blocks are executed
  on the global state (\<open>src/storage/src/global_state\<close>), a Merkle trie in a store that is addressed by
  hashes; its root is agreed upon in the block. The nodes of the trie are encoded with \<open>bytesrepr\<close> and
  hashed with the functions of \<open>src/types/src/digest.rs\<close>, which cut long data into chunks. The three parts
  meet only in components that are not modelled, so no theorem spans consensus and global state; the
  trie rests on the theories of the encoding and of the digests.

  \<^bold>\<open>Conventions.\<close> Code that may panic or may not return has a result of type \<open>'a option\<close>, where \<open>None\<close>
  is a panic or an endless loop; \<open>wp m P\<close> says that \<open>m\<close> returns a value with the property \<open>P\<close>. A \<open>Result\<close> is a
  sum with the error on the left. Weights and bit fields are machine words, and the places where
  other integers saturate or wrap around are written out. Hash maps are association lists.

  \<^bold>\<open>Consensus, definitions.\<close>
  \<^item> \<open>Casper_Prelude\<close>: the panic monad, saturating arithmetic, the locales \<open>keyed_map\<close> (interpreted by
    association lists) and \<open>transition_system\<close> (interpreted by Zug in \<open>Zug_Node\<close>).
  \<^item> \<open>Consensus_Validators\<close>, \<open>Leader_Sequence\<close>: \<open>utils/validators.rs\<close>, \<open>utils/weight.rs\<close>,
    \<open>protocols/common.rs\<close>, \<open>leader_sequence.rs\<close>.
  \<^item> \<open>Zug_Types\<close>, \<open>Zug_Round\<close>: the data of \<open>zug/message.rs\<close>, \<open>proposal.rs\<close>, \<open>fault.rs\<close>, \<open>params.rs\<close> and
    \<open>config.rs\<close>, and \<open>zug/round.rs\<close> method by method. The record \<open>ctx\<close> holds the parameters of the model:
    hash functions, signatures, the random number generator, whether the log can be written, and
    the power of two in the timeout.
  \<^item> \<open>Zug_State\<close>: the record \<open>zug\<close> with the fields of \<open>struct Zug\<close>, its constructor and its queries.
    \<open>Zug_BitField\<close>: the windows of 128 validators in sync messages. \<open>Zug_Ops\<close>: the operations below the
    handlers, up to \<open>update\<close> and \<open>handle_fault\<close>. \<open>Zug_Sync\<close>: requests and responses. \<open>Zug_Handlers\<close>: the
    calls of the trait, and the replay of the write-ahead log. \<open>Zug_Participation\<close>: the participation
    report of \<open>zug/participation.rs\<close> and the timers.
  \<^item> \<open>Zug_Node\<close>: a call is an \<open>event\<close>, \<open>handle_event\<close> dispatches it, and \<open>zug_step\<close> is the step relation.

  \<^bold>\<open>Consensus, proofs.\<close>
  \<^item> \<open>Zug_Quorum\<close>: the threshold, and that two quorums share an honest validator (locale \<open>quorum_system\<close>).
  \<^item> \<open>Zug_Invariant\<close>, \<open>Zug_Step\<close>: the invariant \<open>zug_inv\<close> and the elementary steps \<open>micro\<close> that keep it.
  \<^item> \<open>Zug_Simulation\<close>, \<open>Zug_Progress\<close>, \<open>Zug_Finalize\<close>, \<open>Zug_Update\<close>, \<open>Zug_Events\<close>, \<open>Zug_Control\<close>,
    \<open>Zug_Replay\<close>, \<open>Zug_Start\<close>: every operation returns and is a sequence of elementary steps
    (\<open>reaches\<close>). \<open>Zug_Signing\<close>: what is signed never contradicts what was signed before.
  \<^item> \<open>Zug_Safety\<close>: finalized blocks form one growing chain, and the chains of two nodes agree.
  \<^item> \<open>Zug_Example\<close>: two sessions of an era with one validator, on which the hypotheses hold.
  \<^item> \<open>Zug_Properties\<close>: agreement, one chain, heights, no panic, no double signing, logging, quorums,
    termination of \<open>update\<close>, finalization of committed rounds, parents, faults, timeouts, leaders.

  \<^bold>\<open>Encoding, digests and trie.\<close>
  \<^item> \<open>Bytesrepr\<close>: the codecs of \<open>bytesrepr.rs\<close>. The locale \<open>bytesrepr\<close> is the contract of a codec, that
    reading inverts writing; \<open>canonical_bytesrepr\<close> adds that only what is written is read.
  \<^item> \<open>Casper_Digest\<close>, \<open>Merkle_Proofs\<close>: \<open>digest.rs\<close>, \<open>indexed_merkle_proof.rs\<close>, \<open>chunk_with_proof.rs\<close>.
    Chunks verify, a verified chunk is the right one, and chunking introduces no collisions.
  \<^item> \<open>Trie_Types\<close>, \<open>Trie_Store\<close>: \<open>trie/mod.rs\<close>, \<open>pointer.rs\<close>, \<open>store/mod.rs\<close>, \<open>operations/mod.rs\<close> and
    \<open>merkle_proof.rs\<close>. The record \<open>tcx\<close> holds the codecs of keys and values and the hash function.
  \<^item> \<open>Trie_Tree\<close>: trees with subtrees in place of pointers, and their normal form, which is determined
    by the entries. \<open>Trie_Scan\<close>: how a tree lies in the store (\<open>stored\<close>), reading and scanning.
    \<open>Trie_Replace\<close>, \<open>Trie_Write\<close>, \<open>Trie_Prune\<close>: the new trees after \<open>write\<close> and \<open>prune\<close>. \<open>Trie_Proof\<close>: Merkle
    proofs. \<open>Trie_Example\<close>: two small instances.
  \<^item> \<open>Trie_Properties\<close>: the abstract state at a root is a map (\<open>contents\<close>); \<open>read\<close>, \<open>write\<close> and \<open>prune\<close> refine
    lookup, update and removal; the root is determined by the map; proofs are complete and sound;
    the encoding round-trips; \<open>read\<close> panics on keys that end within an extension.

  \<^bold>\<open>Termination and bounds.\<close> No fuel is used. Loops over pointers or parents, which end only in a
  well-formed store or state, are partial functions, and the theorems state that they return a
  value; the other loops have termination proofs. Round numbers are bounded by \<open>u32_max\<close>: theorems
  about finality ask for a current round below it (\<open>operating\<close>), as \<open>saturating_add\<close> would stay there.

  \<^bold>\<open>Hypotheses.\<close>
  \<^item> \<open>starts\<close>, a node of an era: the hash of proposals is injective, the generator stays in its range,
    the stakes are distinct with a positive sum below \<open>2^512\<close> (\<open>era_ok\<close>), and the log holds valid entries.
  \<^item> \<open>event_ok\<close>: the key handed over with \<open>activate_validator\<close> is that of the validator, the log handed
    over is valid, and among the drawn sync IDs is one that is not in use.
  \<^item> \<open>faults_within\<close>: the validators that contradict themselves have at most the weight \<open>ftt\<close>.
  \<^item> \<open>tcx_ok\<close>: keys and values have codecs that meet the contract, and keys are not empty.
    \<open>addressed\<close>, \<open>no_collision\<close>: the store holds every value at its hash, and the hash function has no
    collision on the byte strings at hand. \<open>leaf_fits\<close>: the entry can be encoded. \<open>short_keys\<close>,
    \<open>short_steps\<close>: extensions are shorter than a chunk, as proofs hash them without chunking.
  \<^item> \<open>folds_adjacent\<close>: \<open>tree_fold1\<close> of the package \<open>itertools\<close> combines adjacent items.

  \<^bold>\<open>Not modelled.\<close> Of the modelled files: logging and display, serde, errors of files and databases, in
  \<open>bytesrepr.rs\<close> strings, arrays, longer tuples and ratios, in \<open>operations/mod.rs\<close> the iterator over keys,
  the batched writes with their cache and \<open>check_integrity\<close>, and the encodings of the two kinds of Merkle proofs. Of
  the repository: the Highway protocol and the era supervisor, the other components of the node and
  the reactor, which are asynchronous input and output; the block store and the tracking copy; the
  types of blocks, transactions and contracts, which enter as type parameters; the execution
  engines, which run Wasm on a library; contracts, tools and tests.
\<close>

section \<open>Bit fields\<close>

text \<open>C23. The bit field of a set of validators, masked with any other bit field, iterates over
  exactly those validators of the set that are in its window and in the mask.\<close>

theorem bit_field_roundtrip:
  assumes "first < n" and "n < 2 ^ 32" and "set vs \<subseteq> {..<n}"
  shows "set (iter_validator_bit_field n first (validator_bit_field n first vs AND m)) =
    {v \<in> set vs. validator_bit_field_includes n first v \<and> bit m (bit_index n first v)}"
  using assms by (auto simp: set_iter_masked validator_bit_field_includes_iff subset_eq)

theorem bit_field_roundtrip_witness:
  "set (iter_validator_bit_field 5 3 (validator_bit_field 5 3 [4, 0, 2] AND 7)) = {4, 0}"
proof -
  have idx: "bit_index 5 3 4 = 1" "bit_index 5 3 0 = 2" "bit_index 5 3 2 = 4"
    by (simp_all add: bit_index_mod)
  have inc: "validator_bit_field_includes 5 3 4" "validator_bit_field_includes 5 3 0"
    using idx by (simp_all add: validator_bit_field_includes_iff)
  have bits: "bit (7 :: 128 word) (Suc 0)" "bit (7 :: 128 word) 2" "\<not> bit (7 :: 128 word) 4"
    by simp_all
  have "set (iter_validator_bit_field 5 3 (validator_bit_field 5 3 [4, 0, 2] AND 7)) =
    {v \<in> set [4, 0, 2]. validator_bit_field_includes 5 3 v \<and> bit (7 :: 128 word) (bit_index 5 3 v)}"
    by (rule bit_field_roundtrip) auto
  also have "\<dots> = {4, 0}"
    using idx inc bits by auto
  finally show ?thesis .
qed

end
